(* ===== verification/Prelude.thy ===== *)
theory Prelude
  imports Main "HOL-Library.Word" "HOL-Library.Multiset"
begin

text \<open>
  Shared vocabulary of the development: machine integers at the widths the sources use, the
  exceptions the sources throw, the result type of fallible code, and the generic lemmas on
  results, words and lists that the component theories draw on.

  An operation that may throw has a result in \<open>chain_exception + 'a\<close>. \<open>Inl e\<close> is the
  exception that leaves the operation. A thrown exception discards the state the operation had
  modified so far (the controller undoes the enclosing database session), so an error carries
  no state.
\<close>

unbundle bit_operations_syntax

subsection \<open>Machine integers\<close>

type_synonym u8 = "8 word"
type_synonym u16 = "16 word"
type_synonym u32 = "32 word"
type_synonym u64 = "64 word"
type_synonym u128 = "128 word"

text \<open>
  A signed 64-bit integer is kept as its two's complement bit pattern and read with
  \<^const>\<open>sint\<close>: the implicit conversions between \<open>int64_t\<close> and \<open>uint64_t\<close> in the sources
  keep the bit pattern.
\<close>

type_synonym i64 = "64 word"

definition UINT64_MAX :: u64 where
  "UINT64_MAX = 0xFFFFFFFFFFFFFFFF"

definition INT64_MIN :: int where
  "INT64_MIN = - 0x8000000000000000"

definition INT64_MAX :: int where
  "INT64_MAX = 0x7FFFFFFFFFFFFFFF"

subsection \<open>Exceptions\<close>

text \<open>
  The exception types of \<open>exceptions.hpp\<close> that the modelled code throws, the \<open>fc\<close>
  exceptions it lets through, what the database throws for a missing key and for a violated
  unique index (whatever C++ type that is), and one value for behaviour the C++ standard
  leaves undefined (a null pointer or an end iterator that is dereferenced, a division by
  zero), so that such a case is a branch of the model and never an arbitrary value. A loop that
  follows references without end has the value \<open>nontermination\<close>.
\<close>

datatype chain_exception =
    name_type_exception
  | asset_type_exception
  | symbol_type_exception
  | fork_database_exception
  | fork_db_block_not_found
  | block_validate_exception
  | unlinkable_block_exception
  | block_resource_exhausted
  | wrong_signing_key
  | wrong_producer
  | transaction_exception
  | tx_no_action
  | tx_no_auths
  | tx_not_found
  | action_validate_exception
  | account_name_exists_exception
  | eosio_assert_message_exception
  | permission_query_exception
  | account_query_exception
  | ram_usage_exceeded
  | tx_net_usage_exceeded
  | block_net_usage_exceeded
  | tx_cpu_usage_exceeded
  | block_cpu_usage_exceeded
  | deadline_exception
  | greylist_net_usage_exceeded
  | greylist_cpu_usage_exceeded
  | leeway_deadline_exception
  | authorization_exception
  | tx_irrelevant_sig
  | tx_duplicate_sig
  | unsatisfied_authorization
  | missing_auth_exception
  | irrelevant_auth_exception
  | invalid_permission
  | unlinkable_min_permission_action
  | rate_limiting_state_inconsistent
  | producer_double_confirm
  | producer_schedule_exception
  | producer_not_in_schedule
  | resource_limit_exception
  | subjective_block_production_exception
  | invalid_contract_vm_type
  | invalid_contract_vm_version
  | set_exact_code
  | table_not_in_cache
  | invalid_table_iterator
  | table_operation_not_permitted
  | table_access_violation
  | invalid_table_payer
  | cfa_inside_generated_tx
  | deferred_tx_duplicate
  | expired_tx_exception
  | tx_exp_too_far_exception
  | invalid_ref_block_exception
  | tx_duplicate
  | tx_too_big
  | snapshot_exception
  | unknown_transaction_compression
  | unsupported_feature
  | actor_whitelist_exception
  | actor_blacklist_exception
  | contract_whitelist_exception
  | contract_blacklist_exception
  | action_blacklist_exception
  | key_blacklist_exception
  | tx_decompression_error
  | wasm_execution_error
  | abi_not_found_exception
  | invalid_transaction_extension
  | transaction_type_exception
  | unaccessible_api
  | block_log_exception
  | tx_soon_expired
  | fc_overflow_exception
  | fc_parse_error_exception
  | table_key_not_found
  | table_uniqueness_violation
  | undefined_behavior
  | nontermination

type_synonym 'a result = "chain_exception + 'a"

subsection \<open>Fallible code\<close>

text \<open>
  \<open>EOS_ASSERT c e k\<close> is the macro of \<open>exceptions.hpp\<close>: it throws \<open>e\<close> unless \<open>c\<close> holds
  and goes on with \<open>k\<close> otherwise. \<open>ebind m f\<close> runs \<open>m\<close> and passes its value on.
  \<open>efold f xs s\<close> is a loop over \<open>xs\<close> that leaves at the first exception.
\<close>

definition EOS_ASSERT :: "bool \<Rightarrow> 'e \<Rightarrow> 'e + 'a \<Rightarrow> 'e + 'a" where
  "EOS_ASSERT c e k = (if c then k else Inl e)"

definition ebind :: "'e + 'a \<Rightarrow> ('a \<Rightarrow> 'e + 'b) \<Rightarrow> 'e + 'b" where
  "ebind m f = (case m of Inl e \<Rightarrow> Inl e | Inr x \<Rightarrow> f x)"

primrec efold :: "('x \<Rightarrow> 's \<Rightarrow> 'e + 's) \<Rightarrow> 'x list \<Rightarrow> 's \<Rightarrow> 'e + 's" where
  "efold f [] s = Inr s"
| "efold f (x # xs) s = ebind (f x s) (efold f xs)"

definition the_result :: "'e + 'a \<Rightarrow> 'a option" where
  "the_result r = (case r of Inl _ \<Rightarrow> None | Inr x \<Rightarrow> Some x)"

named_theorems exc_simps \<open>rewriting of assertions, sequencing and loops\<close>

lemma ebind_simps [simp]:
  "ebind (Inl e) f = Inl e"
  "ebind (Inr x) f = f x"
  by (simp_all add: ebind_def)

lemma EOS_ASSERT_simps [simp]:
  "EOS_ASSERT True e k = k"
  "EOS_ASSERT False e k = Inl e"
  by (simp_all add: EOS_ASSERT_def)

lemma ebind_Inr_iff [exc_simps]: "ebind m f = Inr y \<longleftrightarrow> (\<exists>x. m = Inr x \<and> f x = Inr y)"
  by (cases m) auto

lemma ebind_Inl_iff [exc_simps]:
  "ebind m f = Inl e \<longleftrightarrow> m = Inl e \<or> (\<exists>x. m = Inr x \<and> f x = Inl e)"
  by (cases m) auto

lemma not_isl_iff: "\<not> isl m \<longleftrightarrow> (\<exists>x. m = Inr x)"
  by (cases m) auto

lemma EOS_ASSERT_Inr_iff [exc_simps]: "EOS_ASSERT c e k = Inr y \<longleftrightarrow> c \<and> k = Inr y"
  by (cases c) auto

lemma EOS_ASSERT_Inl_iff [exc_simps]:
  "EOS_ASSERT c e k = Inl e' \<longleftrightarrow> (\<not> c \<and> e = e') \<or> (c \<and> k = Inl e')"
  by (cases c) auto

lemma ebind_cong [fundef_cong]:
  "m = m' \<Longrightarrow> (\<And>x. m' = Inr x \<Longrightarrow> f x = f' x) \<Longrightarrow> ebind m f = ebind m' f'"
  by (cases m') auto

lemma EOS_ASSERT_cong [fundef_cong]:
  "c = c' \<Longrightarrow> e = e' \<Longrightarrow> (c' \<Longrightarrow> k = k') \<Longrightarrow> EOS_ASSERT c e k = EOS_ASSERT c' e' k'"
  by (simp add: EOS_ASSERT_def)

lemma ebind_assoc: "ebind (ebind m f) g = ebind m (\<lambda>x. ebind (f x) g)"
  by (cases m) auto

lemma ebind_Inr_right [simp]: "ebind m Inr = m"
  by (cases m) auto

lemma efold_append: "efold f (xs @ ys) s = ebind (efold f xs s) (efold f ys)"
proof (induction xs arbitrary: s)
  case (Cons x xs)
  then show ?case by (cases "f x s") auto
qed simp

text \<open>Loop invariants: what every step keeps holds of the final state.\<close>

lemma efold_invariant:
  assumes "efold f xs s = Inr s'" and "I s"
    and "\<And>x s s'. x \<in> set xs \<Longrightarrow> I s \<Longrightarrow> f x s = Inr s' \<Longrightarrow> I s'"
  shows "I s'"
  using assms
proof (induction xs arbitrary: s)
  case Nil
  then show ?case by simp
next
  case (Cons x xs)
  then obtain s1 where "f x s = Inr s1" "efold f xs s1 = Inr s'"
    by (auto simp: exc_simps)
  with Cons.prems Cons.IH [of s1] show ?case by auto
qed

lemma efold_visit:
  assumes "efold f xs s = Inr s'" and "x \<in> set xs"
  obtains us vs s1 s2 where "xs = us @ x # vs" and "efold f us s = Inr s1" and "f x s1 = Inr s2" and "efold f vs s2 = Inr s'"
proof -
  obtain us vs where xs: "xs = us @ x # vs" using assms(2) by (meson split_list)
  then show thesis using assms(1) that by (auto simp: efold_append ebind_Inr_iff)
qed

text \<open>
  What an operation leaves alone is a reflexive and transitive relation of states. A loop of
  operations that keep the frame keeps it.
\<close>

locale state_frame =
  fixes frame :: "'s \<Rightarrow> 's \<Rightarrow> bool"
  assumes frame_refl: "frame s s"
    and frame_trans: "frame a b \<Longrightarrow> frame b c \<Longrightarrow> frame a c"
begin

lemma frame_efold:
  assumes "efold f xs s = Inr s'" and "\<And>x s s'. x \<in> set xs \<Longrightarrow> f x s = Inr s' \<Longrightarrow> frame s s'"
  shows "frame s s'"
  using efold_invariant [of f xs s s' "frame s"] assms frame_refl frame_trans by blast

lemma frame_if: "(c \<Longrightarrow> f = Inr s' \<Longrightarrow> frame s s') \<Longrightarrow> (if c then f else Inr s) = Inr s' \<Longrightarrow> frame s s'"
  by (auto simp: frame_refl split: if_splits)

end

subsection \<open>Words\<close>

named_theorems word_nat_simps \<open>reading word arithmetic as arithmetic on natural numbers\<close>

lemma unat_add_no_overflow [word_nat_simps]:
  "unat x + unat y < 2 ^ LENGTH('a) \<Longrightarrow> unat (x + y :: 'a::len word) = unat x + unat y"
  by (simp add: unat_word_ariths)

lemma unat_mult_no_overflow [word_nat_simps]:
  "unat x * unat y < 2 ^ LENGTH('a) \<Longrightarrow> unat (x * y :: 'a::len word) = unat x * unat y"
  by (simp add: unat_word_ariths)

lemma unat_sub_no_underflow [word_nat_simps]:
  "y \<le> x \<Longrightarrow> unat (x - y :: 'a::len word) = unat x - unat y"
  by (rule unat_sub)

lemma unat_u64_bound: "unat (x :: u64) < 2 ^ 64"
  using unsigned_less [of x] by simp

lemma unat_u32_bound: "unat (x :: u32) < 2 ^ 32"
  using unsigned_less [of x] by simp

lemma unat_u64_to_u128 [simp]: "unat (ucast (x :: u64) :: u128) = unat x"
  using unat_u64_bound [of x] by (simp add: unsigned_ucast_eq take_bit_eq_mod)

lemma unat_u32_to_u64 [simp]: "unat (ucast (x :: u32) :: u64) = unat x"
  using unat_u32_bound [of x] by (simp add: unsigned_ucast_eq take_bit_eq_mod)

lemma unat_u32_to_u128 [simp]: "unat (ucast (x :: u32) :: u128) = unat x"
  using unat_u32_bound [of x] by (simp add: unsigned_ucast_eq take_bit_eq_mod)

lemma unat_u16_bound: "unat (x :: u16) < 2 ^ 16"
  using unsigned_less [of x] by simp

lemma unat_u16_to_u32 [simp]: "unat (ucast (x :: u16) :: u32) = unat x"
  using unat_u16_bound [of x] by (simp add: unsigned_ucast_eq take_bit_eq_mod)

lemma unat_UINT64_MAX [simp]: "unat UINT64_MAX = 2 ^ 64 - 1"
  by (simp add: UINT64_MAX_def)

lemma unat_UINT64_MAX_minus [simp]: "unat (UINT64_MAX - x) = 2 ^ 64 - 1 - unat x"
proof -
  have "x \<le> UINT64_MAX"
    using unat_u64_bound [of x] by (simp add: word_le_nat_alt)
  then show ?thesis by (simp add: unat_sub)
qed

lemma no_overflow_u64 [word_nat_simps]:
  "y \<le> UINT64_MAX - x \<longleftrightarrow> unat x + unat y < 2 ^ 64"
  using unat_u64_bound [of x] unat_u64_bound [of y] by (simp add: word_le_nat_alt) arith

lemma unat_word_div [word_nat_simps]: "unat (x div y :: 'a::len word) = unat x div unat y"
  by (simp add: unat_div)

lemma unat_word_mod [word_nat_simps]: "unat (x mod y :: 'a::len word) = unat x mod unat y"
  by (simp add: unat_mod)

lemma sint_i64_bounds: "- (2 ^ 63) \<le> sint (w :: i64)" "sint w < 2 ^ 63"
  using sint_ge [of w] sint_lt [of w] by simp_all

lemma uint_eq_sint: "0 \<le> sint (w :: i64) \<Longrightarrow> uint w = sint w"
  using sint_i64_bounds [of w] by (simp add: uint_sint take_bit_int_eq_self)

lemma uint_eq_sint_neg: "sint (w :: i64) < 0 \<Longrightarrow> uint w = sint w + 2 ^ 64"
proof -
  assume neg: "sint w < 0"
  have "uint w = sint w mod 2 ^ 64" by (simp add: uint_sint take_bit_eq_mod)
  also have "\<dots> = (sint w + 2 ^ 64) mod 2 ^ 64" by simp
  also have "\<dots> = sint w + 2 ^ 64"
    using neg sint_i64_bounds [of w] by (intro mod_pos_pos_trivial) auto
  finally show ?thesis .
qed

lemma uint_u64_bound: "uint (x :: u64) < 2 ^ 64"
  using uint_lt2p [of x] by simp

lemma uint_add_no_overflow:
  "uint x + uint y < 2 ^ LENGTH('a) \<Longrightarrow> uint (x + y :: 'a::len word) = uint x + uint y"
  by (rule uint_add_lem [THEN iffD1])

text \<open>Division that rounds up, on natural numbers.\<close>

definition ceil_div :: "nat \<Rightarrow> nat \<Rightarrow> nat" where
  "ceil_div n d = n div d + (if n mod d > 0 then 1 else 0)"

lemma ceil_div_upper: "0 < d \<Longrightarrow> n \<le> ceil_div n d * d"
proof -
  assume d: "0 < d"
  have "n mod d < d" using d by simp
  moreover have "n = n div d * d + n mod d" by (rule div_mult_mod_eq [symmetric])
  ultimately have "n \<le> n div d * d + d" by linarith
  then show ?thesis by (auto simp: ceil_div_def algebra_simps)
qed

lemma ceil_div_least: "0 < d \<Longrightarrow> n \<le> k * d \<Longrightarrow> ceil_div n d \<le> k"
proof -
  assume d: "0 < d" and k: "n \<le> k * d"
  have le: "n div d \<le> k" using div_le_mono [OF k, of d] d by simp
  show ?thesis
  proof (cases "n mod d > 0")
    case True
    have "n div d \<noteq> k"
    proof
      assume eq: "n div d = k"
      have "n = n div d * d + n mod d" by (rule div_mult_mod_eq [symmetric])
      with eq True k show False by simp
    qed
    with le True show ?thesis by (simp add: ceil_div_def)
  next
    case False
    with le show ?thesis by (simp add: ceil_div_def)
  qed
qed

lemma ceil_div_tight: "0 < d \<Longrightarrow> ceil_div n d * d < n + d"
proof -
  assume d: "0 < d"
  have n: "n = n div d * d + n mod d" by (rule div_mult_mod_eq [symmetric])
  show ?thesis
  proof (cases "n mod d > 0")
    case True
    then have "ceil_div n d * d = n div d * d + d" by (simp add: ceil_div_def)
    with n True show ?thesis by linarith
  next
    case False
    then have "ceil_div n d * d = n" using div_mult_mod_eq [of n d] by (simp add: ceil_div_def)
    with d show ?thesis by simp
  qed
qed

lemma ceil_div_mono: "0 < d \<Longrightarrow> m \<le> n \<Longrightarrow> ceil_div m d \<le> ceil_div n d"
  by (meson ceil_div_least ceil_div_upper order_trans)

lemma ceil_div_zero [simp]: "ceil_div 0 d = 0"
  by (simp add: ceil_div_def)

lemma ceil_div_le_self: "0 < d \<Longrightarrow> ceil_div n d \<le> n"
  by (rule ceil_div_least) auto

end
