(* ===== verification/Flat_Map.thy ===== *)
theory Flat_Map
  imports Prelude "HOL-Library.Product_Lexorder"
begin

text \<open>
  Ordered associative containers. The sources keep keyed state in \<open>flat_map\<close>, \<open>flat_set\<close>,
  \<open>std::map\<close> and in database tables with a unique ordered index; all of them hold one entry per
  key and are traversed in ascending key order. The model is an association list with strictly
  ascending keys. Clients see it through the interface \<open>ordered_store\<close>: what a lookup returns
  after each update, and that every operation keeps the ordering invariant.
\<close>

type_synonym ('k, 'v) flat_map = "('k \<times> 'v) list"

definition fm_ok :: "('k::linorder, 'v) flat_map \<Rightarrow> bool" where
  "fm_ok m \<longleftrightarrow> sorted_wrt (<) (map fst m)"

definition fm_lookup :: "('k, 'v) flat_map \<Rightarrow> 'k \<Rightarrow> 'v option" where
  "fm_lookup m k = map_of m k"

fun fm_update :: "'k::linorder \<Rightarrow> 'v \<Rightarrow> ('k, 'v) flat_map \<Rightarrow> ('k, 'v) flat_map" where
  "fm_update k v [] = [(k, v)]"
| "fm_update k v ((k', v') # m) =
     (if k < k' then (k, v) # (k', v') # m
      else if k = k' then (k, v) # m
      else (k', v') # fm_update k v m)"

definition fm_erase :: "'k::linorder \<Rightarrow> ('k, 'v) flat_map \<Rightarrow> ('k, 'v) flat_map" where
  "fm_erase k m = filter (\<lambda>(k', v). k' \<noteq> k) m"

text \<open>\<open>emplace\<close> keeps an existing entry; \<open>lower_bound\<close> is the first entry not before a key.\<close>

definition fm_emplace :: "'k::linorder \<Rightarrow> 'v \<Rightarrow> ('k, 'v) flat_map \<Rightarrow> ('k, 'v) flat_map" where
  "fm_emplace k v m = (case fm_lookup m k of None \<Rightarrow> fm_update k v m | Some _ \<Rightarrow> m)"

definition fm_lower_bound :: "'k::linorder \<Rightarrow> ('k, 'v) flat_map \<Rightarrow> ('k \<times> 'v) option" where
  "fm_lower_bound k m = find (\<lambda>(k', v). k \<le> k') m"

definition fm_keys :: "('k, 'v) flat_map \<Rightarrow> 'k list" where
  "fm_keys m = map fst m"

definition fm_values :: "('k, 'v) flat_map \<Rightarrow> 'v list" where
  "fm_values m = map snd m"

definition fm_from :: "('k::linorder \<times> 'v) list \<Rightarrow> ('k, 'v) flat_map" where
  "fm_from kvs = fold (\<lambda>(k, v). fm_update k v) kvs []"

subsection \<open>The interface\<close>

locale ordered_store =
  fixes empty :: "'m"
    and lookup :: "'m \<Rightarrow> 'k::linorder \<Rightarrow> 'v option"
    and update :: "'k \<Rightarrow> 'v \<Rightarrow> 'm \<Rightarrow> 'm"
    and erase :: "'k \<Rightarrow> 'm \<Rightarrow> 'm"
    and keys :: "'m \<Rightarrow> 'k list"
    and ok :: "'m \<Rightarrow> bool"
  assumes ok_empty: "ok empty"
    and ok_update: "ok m \<Longrightarrow> ok (update k v m)"
    and ok_erase: "ok m \<Longrightarrow> ok (erase k m)"
    and lookup_empty: "lookup empty k = None"
    and lookup_update: "ok m \<Longrightarrow> lookup (update k v m) k' = (if k' = k then Some v else lookup m k')"
    and lookup_erase: "ok m \<Longrightarrow> lookup (erase k m) k' = (if k' = k then None else lookup m k')"
    and set_keys: "ok m \<Longrightarrow> set (keys m) = {k. lookup m k \<noteq> None}"
    and sorted_keys: "ok m \<Longrightarrow> sorted_wrt (<) (keys m)"
begin

lemma finite_dom: "ok m \<Longrightarrow> finite {k. lookup m k \<noteq> None}"
  using set_keys [of m] by (metis List.finite_set)

lemma distinct_keys: "ok m \<Longrightarrow> distinct (keys m)"
  using sorted_keys strict_sorted_iff by blast

lemma keys_unique:
  assumes "ok m" and "ok m'" and "\<And>k. lookup m k = None \<longleftrightarrow> lookup m' k = None"
  shows "keys m = keys m'"
proof (rule sorted_distinct_set_unique)
  show "set (keys m) = set (keys m')" using assms by (simp add: set_keys)
qed (use assms sorted_keys strict_sorted_iff in blast)+

lemma card_update_new:
  assumes "ok m" and "lookup m k = None"
  shows "length (keys (update k v m)) = length (keys m) + 1"
proof -
  have "set (keys (update k v m)) = insert k (set (keys m))"
    using assms by (auto simp: set_keys ok_update lookup_update split: if_splits)
  moreover have "k \<notin> set (keys m)" using assms by (simp add: set_keys)
  ultimately show ?thesis
    using distinct_keys [OF assms(1)] distinct_keys [OF ok_update [OF assms(1)]]
    by (metis List.finite_set Suc_eq_plus1 card_insert_disjoint distinct_card)
qed

lemma card_erase:
  assumes "ok m" and "lookup m k \<noteq> None"
  shows "length (keys (erase k m)) < length (keys m)"
proof -
  have "set (keys (erase k m)) = set (keys m) - {k}"
    using assms by (auto simp: set_keys ok_erase lookup_erase split: if_splits)
  moreover have "k \<in> set (keys m)" using assms by (simp add: set_keys)
  ultimately show ?thesis
    using distinct_keys [OF assms(1)] distinct_keys [OF ok_erase [OF assms(1)]]
    by (metis List.finite_set card_Diff1_less distinct_card)
qed

text \<open>Sums over the entries of a store, and how an update moves them.\<close>

lemma sum_minus_key:
  fixes f :: "'k \<Rightarrow> 'v \<Rightarrow> 'n::ab_group_add"
  assumes "ok m"
  shows "(\<Sum>k' \<in> set (keys m) - {k}. f k' (the (lookup m k'))) =
     (\<Sum>k' \<in> set (keys m). f k' (the (lookup m k'))) -
     (case lookup m k of None \<Rightarrow> 0 | Some v0 \<Rightarrow> f k v0)"
proof -
  have "k \<in> set (keys m) \<longleftrightarrow> lookup m k \<noteq> None" using assms by (simp add: set_keys)
  then show ?thesis by (auto simp: sum_diff1 split: option.splits)
qed

lemma sum_update:
  fixes f :: "'k \<Rightarrow> 'v \<Rightarrow> 'n::ab_group_add"
  assumes "ok m"
  shows "(\<Sum>k' \<in> set (keys (update k v m)). f k' (the (lookup (update k v m) k'))) =
     (\<Sum>k' \<in> set (keys m). f k' (the (lookup m k'))) + f k v -
     (case lookup m k of None \<Rightarrow> 0 | Some v0 \<Rightarrow> f k v0)"
proof -
  let ?D = "set (keys m)" and ?g = "\<lambda>k'. f k' (the (lookup m k'))"
  have D: "set (keys (update k v m)) = insert k (?D - {k})"
    using assms by (auto simp: set_keys ok_update lookup_update)
  have "(\<Sum>k' \<in> insert k (?D - {k}). f k' (the (lookup (update k v m) k'))) =
      f k v + (\<Sum>k' \<in> ?D - {k}. f k' (the (lookup (update k v m) k')))"
    using assms by (subst sum.insert) (auto simp: lookup_update)
  also have "(\<Sum>k' \<in> ?D - {k}. f k' (the (lookup (update k v m) k'))) = (\<Sum>k' \<in> ?D - {k}. ?g k')"
    using assms by (intro sum.cong) (auto simp: lookup_update)
  also have "(\<Sum>k' \<in> ?D - {k}. ?g k') =
      (\<Sum>k' \<in> ?D. ?g k') - (case lookup m k of None \<Rightarrow> 0 | Some v0 \<Rightarrow> f k v0)"
    by (rule sum_minus_key [OF assms])
  finally show ?thesis using D by (simp add: algebra_simps)
qed

lemma sum_erase:
  fixes f :: "'k \<Rightarrow> 'v \<Rightarrow> 'n::ab_group_add"
  assumes "ok m"
  shows "(\<Sum>k' \<in> set (keys (erase k m)). f k' (the (lookup (erase k m) k'))) =
     (\<Sum>k' \<in> set (keys m). f k' (the (lookup m k'))) -
     (case lookup m k of None \<Rightarrow> 0 | Some v0 \<Rightarrow> f k v0)"
proof -
  let ?D = "set (keys m)" and ?g = "\<lambda>k'. f k' (the (lookup m k'))"
  have D: "set (keys (erase k m)) = ?D - {k}"
    using assms by (auto simp: set_keys ok_erase lookup_erase)
  have "(\<Sum>k' \<in> ?D - {k}. f k' (the (lookup (erase k m) k'))) = (\<Sum>k' \<in> ?D - {k}. ?g k')"
    using assms by (intro sum.cong) (auto simp: lookup_erase)
  also have "\<dots> = (\<Sum>k' \<in> ?D. ?g k') - (case lookup m k of None \<Rightarrow> 0 | Some v0 \<Rightarrow> f k v0)"
    by (rule sum_minus_key [OF assms])
  finally show ?thesis using D by simp
qed

end

subsection \<open>The association list implements the interface\<close>

lemma fm_lookup_update_raw: "fm_ok m \<Longrightarrow> fm_lookup (fm_update k v m) k' = (if k' = k then Some v else fm_lookup m k')"
  by (induction k v m rule: fm_update.induct) (auto simp: fm_lookup_def fm_ok_def)

lemma set_fm_update_keys: "set (map fst (fm_update k v m)) = insert k (set (map fst m))"
  by (induction k v m rule: fm_update.induct) auto

lemma fm_ok_update_raw: "fm_ok m \<Longrightarrow> fm_ok (fm_update k v m)"
proof (induction k v m rule: fm_update.induct)
  case (2 k v k' v' m)
  then show ?case using set_fm_update_keys [of k v m] by (auto simp: fm_ok_def)
qed (simp add: fm_ok_def)

interpretation fm: ordered_store "[]" fm_lookup fm_update fm_erase fm_keys fm_ok
proof unfold_locales
  fix m :: "('k::linorder, 'v) flat_map" and k k' :: 'k and v :: 'v
  show "fm_ok ([] :: ('k, 'v) flat_map)" "fm_lookup ([] :: ('k, 'v) flat_map) k = None"
    by (simp_all add: fm_ok_def fm_lookup_def)
  assume ok: "fm_ok m"
  show "fm_ok (fm_update k v m)" using ok by (rule fm_ok_update_raw)
  show "fm_lookup (fm_update k v m) k' = (if k' = k then Some v else fm_lookup m k')"
    using ok by (rule fm_lookup_update_raw)
  show "fm_ok (fm_erase k m)"
    using ok by (auto simp: fm_ok_def fm_erase_def sorted_wrt_map intro: sorted_wrt_filter)
  show "fm_lookup (fm_erase k m) k' = (if k' = k then None else fm_lookup m k')"
    by (induction m) (auto simp: fm_lookup_def fm_erase_def)
  show "set (fm_keys m) = {k. fm_lookup m k \<noteq> None}"
    using dom_map_of_conv_image_fst [of m] by (simp add: fm_keys_def fm_lookup_def dom_def)
  show "sorted_wrt (<) (fm_keys m)" using ok by (simp add: fm_ok_def fm_keys_def)
qed

lemmas fm_laws = fm.ok_empty fm.ok_update fm.ok_erase fm.lookup_empty fm.lookup_update fm.lookup_erase

lemma fm_update_update [simp]: "fm_update k v (fm_update k v' m) = fm_update k v m"
  by (induction k v' m rule: fm_update.induct) auto

lemma fm_update_same: "fm_ok m \<Longrightarrow> fm_lookup m k = Some v \<Longrightarrow> fm_update k v m = m"
proof (induction k v m rule: fm_update.induct)
  case (2 k v k' v' m)
  have "k' < k" if "k \<noteq> k'" using 2(2,3) that by (force simp: fm_lookup_def fm_ok_def dest: map_of_SomeD)
  with 2 show ?case by (auto simp: fm_lookup_def fm_ok_def)
qed (simp add: fm_lookup_def)

lemma fm_emplace_ok: "fm_ok m \<Longrightarrow> fm_ok (fm_emplace k v m)"
  by (simp add: fm_emplace_def fm_laws split: option.splits)

lemma fm_lookup_emplace:
  "fm_ok m \<Longrightarrow> fm_lookup (fm_emplace k v m) k' =
     (if k' = k \<and> fm_lookup m k = None then Some v else fm_lookup m k')"
  by (auto simp: fm_emplace_def fm_laws split: option.splits)

lemma fm_lookup_in_set: "fm_ok m \<Longrightarrow> fm_lookup m k = Some v \<longleftrightarrow> (k, v) \<in> set m"
  by (simp add: fm_lookup_def fm_ok_def strict_sorted_iff map_of_eq_Some_iff)

lemma fm_lower_bound_None: "fm_lower_bound k m = None \<longleftrightarrow> (\<forall>k' v. (k', v) \<in> set m \<longrightarrow> k' < k)"
  by (auto simp: fm_lower_bound_def find_None_iff not_le)

lemma fm_lower_bound_Some:
  "fm_lower_bound k m = Some (k', v) \<Longrightarrow> (k', v) \<in> set m \<and> k \<le> k'"
  by (auto simp: fm_lower_bound_def find_Some_iff in_set_conv_nth)

subsection \<open>Sums over a container\<close>

definition fm_sum :: "('k \<Rightarrow> 'v \<Rightarrow> 'n::ab_group_add) \<Rightarrow> ('k, 'v) flat_map \<Rightarrow> 'n" where
  "fm_sum f m = (\<Sum>(k, v) \<leftarrow> m. f k v)"

lemma fm_sum_eq:
  assumes "fm_ok m"
  shows "fm_sum f m = (\<Sum>k \<in> set (fm_keys m). f k (the (fm_lookup m k)))"
proof -
  have dist: "distinct (map fst m)" using assms by (simp add: fm_ok_def strict_sorted_iff)
  have "fm_sum f m = (\<Sum>p \<leftarrow> m. f (fst p) (the (fm_lookup m (fst p))))"
    unfolding fm_sum_def
    by (intro arg_cong [of _ _ sum_list] map_cong)
      (auto simp: fm_lookup_in_set [OF assms, THEN iffD2] split: prod.splits)
  also have "\<dots> = (\<Sum>k \<leftarrow> map fst m. f k (the (fm_lookup m k)))" by (simp add: o_def)
  also have "\<dots> = (\<Sum>k \<in> set (map fst m). f k (the (fm_lookup m k)))"
    using dist by (rule sum_list_distinct_conv_sum_set)
  finally show ?thesis by (simp add: fm_keys_def)
qed

lemma fm_sum_update:
  "fm_ok m \<Longrightarrow> fm_sum f (fm_update k v m) =
     fm_sum f m + f k v - (case fm_lookup m k of None \<Rightarrow> 0 | Some v0 \<Rightarrow> f k v0)"
  using fm.sum_update [where f = f] by (simp add: fm_sum_eq fm.ok_update)

lemma fm_sum_erase:
  "fm_ok m \<Longrightarrow> fm_sum f (fm_erase k m) =
     fm_sum f m - (case fm_lookup m k of None \<Rightarrow> 0 | Some v0 \<Rightarrow> f k v0)"
  using fm.sum_erase [where f = f] by (simp add: fm_sum_eq fm.ok_erase)

lemma fm_sum_nonneg:
  fixes f :: "'k \<Rightarrow> 'v \<Rightarrow> int"
  shows "(\<And>k v. (k, v) \<in> set m \<Longrightarrow> 0 \<le> f k v) \<Longrightarrow> 0 \<le> fm_sum f m"
  unfolding fm_sum_def by (rule sum_list_nonneg) auto

lemma fm_sum_entry:
  fixes f :: "'k::linorder \<Rightarrow> 'v \<Rightarrow> int"
  assumes "fm_ok m" and "fm_lookup m k = Some v" and "\<And>k v. (k, v) \<in> set m \<Longrightarrow> 0 \<le> f k v"
  shows "f k v \<le> fm_sum f m"
proof -
  have "0 \<le> fm_sum f (fm_erase k m)"
    using assms(3) by (intro fm_sum_nonneg) (auto simp: fm_erase_def)
  then show ?thesis using assms by (simp add: fm_sum_erase)
qed

subsection \<open>Database tables\<close>

text \<open>
  A database table with a unique index: \<open>create\<close> throws when the index already has the key,
  \<open>get\<close> when it does not; \<open>find\<close> is the lookup and \<open>modify\<close> the update of an entry.
\<close>

definition db_create :: "'k::linorder \<Rightarrow> 'v \<Rightarrow> ('k, 'v) flat_map \<Rightarrow> ('k, 'v) flat_map result" where
  "db_create k v t =
     (case fm_lookup t k of Some _ \<Rightarrow> Inl table_uniqueness_violation | None \<Rightarrow> Inr (fm_update k v t))"

definition db_get :: "('k, 'v) flat_map \<Rightarrow> 'k \<Rightarrow> 'v result" where
  "db_get t k = (case fm_lookup t k of None \<Rightarrow> Inl table_key_not_found | Some v \<Rightarrow> Inr v)"

lemma db_get_Inr [exc_simps]: "db_get t x = Inr v \<longleftrightarrow> fm_lookup t x = Some v"
  by (simp add: db_get_def split: option.splits)

lemma db_create_Inr [exc_simps]: "db_create k v t = Inr t' \<longleftrightarrow> fm_lookup t k = None \<and> t' = fm_update k v t"
  by (auto simp: db_create_def split: option.splits)

end
