(* ===== verification/Names.thy ===== *)
theory Names
  imports Prelude
begin

text \<open>
  Account, action and permission names: the 64-bit encoding of \<open>name.hpp\<close> and \<open>name.cpp\<close>.
  A C string is the list of its bytes; reading it at or past its length gives the terminating
  NUL byte. The lemmas show that every 64-bit value has exactly one spelling, that encoding it
  gives the value back, and which strings \<open>name::set\<close> accepts.
\<close>

type_synonym name = u64
type_synonym account_name = name
type_synonym permission_name = name
type_synonym action_name = name

subsection \<open>C strings\<close>

definition cstr_at :: "string \<Rightarrow> nat \<Rightarrow> char" where
  "cstr_at str i = (if i < length str then str ! i else CHR 0x00)"

definition c_string :: "string \<Rightarrow> string" where
  "c_string str = takeWhile (\<lambda>c. c \<noteq> CHR 0x00) str"

definition trim_right_if :: "(char \<Rightarrow> bool) \<Rightarrow> string \<Rightarrow> string" where
  "trim_right_if p s = rev (dropWhile p (rev s))"

subsection \<open>Encoding\<close>

definition char_to_symbol :: "char \<Rightarrow> u64" where
  "char_to_symbol c =
     (let n = of_char c :: nat in
      if 97 \<le> n \<and> n \<le> 122 then of_nat (n - 97) + 6
      else if 49 \<le> n \<and> n \<le> 53 then of_nat (n - 49) + 1
      else 0)"

function string_to_name_loop :: "string \<Rightarrow> nat \<Rightarrow> u64 \<Rightarrow> nat \<times> u64" where
  "string_to_name_loop str i nm =
     (if cstr_at str i \<noteq> CHR 0x00 \<and> i < 12
      then string_to_name_loop str (i + 1)
             (nm OR push_bit (64 - 5 * (i + 1)) (char_to_symbol (cstr_at str i) AND 0x1f))
      else (i, nm))"
  by pat_completeness auto
termination
  by (relation "measure (\<lambda>(str, i, nm). 12 - i)") auto

declare string_to_name_loop.simps [simp del]

definition string_to_name :: "string \<Rightarrow> u64" where
  "string_to_name str =
     (let (i, nm) = string_to_name_loop str 0 0
      in if i = 12 then nm OR (char_to_symbol (cstr_at str 12) AND 0x0F) else nm)"

subsection \<open>Decoding\<close>

definition charmap :: string where
  "charmap = ''.12345abcdefghijklmnopqrstuvwxyz''"

function name_to_string_loop :: "nat \<Rightarrow> string \<Rightarrow> u64 \<Rightarrow> string" where
  "name_to_string_loop i str tmp =
     (if i \<le> 12
      then name_to_string_loop (i + 1)
             (str[12 - i := charmap ! unat (tmp AND (if i = 0 then 0x0f else 0x1f))])
             (drop_bit (if i = 0 then 4 else 5) tmp)
      else str)"
  by pat_completeness auto
termination
  by (relation "measure (\<lambda>(i, str, tmp). 13 - i)") auto

declare name_to_string_loop.simps [simp del]

definition name_to_string :: "name \<Rightarrow> string" where
  "name_to_string value =
     trim_right_if (\<lambda>c. c = CHR ''.'') (name_to_string_loop 0 (replicate 13 (CHR ''.'')) value)"

subsection \<open>Checked construction\<close>

definition name_set :: "string \<Rightarrow> name result" where
  "name_set str =
     (let len = min (length (c_string str)) 14 in
      EOS_ASSERT (len \<le> 13) name_type_exception
        (let value = string_to_name str in
         EOS_ASSERT (name_to_string value = c_string str) name_type_exception (Inr value)))"

definition name_empty :: "name \<Rightarrow> bool" where
  "name_empty n \<longleftrightarrow> 0 = n"

subsection \<open>Digits\<close>

text \<open>
  The encoding is positional: thirteen digits, twelve of five bits from the top and one of four
  bits at the bottom. \<open>name_digit v i\<close> is digit \<open>i\<close> of the value \<open>v\<close>.
\<close>

definition name_digit :: "u64 \<Rightarrow> nat \<Rightarrow> u64" where
  "name_digit v i = (if i < 12 then drop_bit (59 - 5 * i) v AND 0x1f else v AND 0x0f)"

definition sym_at :: "string \<Rightarrow> nat \<Rightarrow> u64" where
  "sym_at s i = char_to_symbol (cstr_at s i)"

lemma char_to_symbol_charmap: "k < 32 \<Longrightarrow> char_to_symbol (charmap ! k) = of_nat k"
proof -
  have "\<forall>k \<in> set [0..<32]. char_to_symbol (charmap ! k) = of_nat k"
    by code_simp
  then show "k < 32 \<Longrightarrow> ?thesis" by simp
qed

lemma char_to_symbol_less: "unat (char_to_symbol c) < 32"
proof -
  define n :: nat where "n = of_char c"
  define k where "k = (if 97 \<le> n \<and> n \<le> 122 then n - 97 + 6
    else if 49 \<le> n \<and> n \<le> 53 then n - 49 + 1 else 0)"
  have "char_to_symbol c = of_nat k"
    unfolding char_to_symbol_def Let_def n_def [symmetric] k_def by auto
  moreover have "k < 32" by (auto simp: k_def)
  ultimately show ?thesis by (simp add: unat_of_nat)
qed

lemma char_to_symbol_zero [simp]:
  "char_to_symbol (CHR 0x00) = 0" "char_to_symbol (CHR ''.'') = 0"
  by (simp_all add: char_to_symbol_def)

lemma length_charmap [simp]: "length charmap = 32"
  by (simp add: charmap_def)

lemma charmap_no_nul: "k < 32 \<Longrightarrow> charmap ! k \<noteq> CHR 0x00"
proof -
  have "\<forall>k \<in> set [0..<32]. charmap ! k \<noteq> CHR 0x00"
    by code_simp
  then show "k < 32 \<Longrightarrow> ?thesis" by simp
qed

lemma charmap_char_to_symbol: "c \<in> set charmap \<Longrightarrow> charmap ! unat (char_to_symbol c) = c"
proof -
  have "\<forall>c \<in> set charmap. charmap ! unat (char_to_symbol c) = c"
    by code_simp
  then show "c \<in> set charmap \<Longrightarrow> ?thesis" by blast
qed

lemma bit_small:
  assumes "unat (x :: u64) < 2 ^ k" and "bit x n"
  shows "n < k"
proof (rule ccontr)
  assume "\<not> n < k"
  then have "2 ^ k \<le> (2 :: nat) ^ n" by simp
  with assms(1) have "unat x < 2 ^ n" by linarith
  then have "\<not> bit (unat x) n" by (simp add: bit_iff_odd)
  with assms(2) show False by (simp add: bit_unsigned_iff)
qed

lemma sym_and_mask: "sym_at s j AND 0x1f = sym_at s j"
proof -
  have "take_bit 5 (sym_at s j) = sym_at s j"
    using char_to_symbol_less [of "cstr_at s j"]
    by (intro bit_word_eqI) (auto simp: bit_take_bit_iff sym_at_def dest: bit_small [where k = 5, simplified])
  then show ?thesis by (simp add: take_bit_eq_mask mask_eq_exp_minus_1)
qed

lemma bit_mask5: "bit (x AND (0x1f :: u64)) n \<longleftrightarrow> bit x n \<and> n < 5"
proof -
  have "x AND 0x1f = take_bit 5 x" by (simp add: take_bit_eq_mask mask_eq_exp_minus_1)
  then show ?thesis by (auto simp: bit_take_bit_iff)
qed

lemma bit_mask4: "bit (x AND (0x0f :: u64)) n \<longleftrightarrow> bit x n \<and> n < 4"
proof -
  have "x AND 0x0f = take_bit 4 x" by (simp add: take_bit_eq_mask mask_eq_exp_minus_1)
  then show ?thesis by (auto simp: bit_take_bit_iff)
qed

lemma cstr_at_nul: "CHR 0x00 \<notin> set s \<Longrightarrow> cstr_at s i = CHR 0x00 \<longleftrightarrow> length s \<le> i"
  by (auto simp: cstr_at_def in_set_conv_nth)

lemma string_to_name_loop_spec:
  assumes "CHR 0x00 \<notin> set s" and "i \<le> 12"
  shows "fst (string_to_name_loop s i nm) = min 12 (max i (length s)) \<and>
    (\<forall>n. bit (snd (string_to_name_loop s i nm)) n \<longleftrightarrow>
      bit nm n \<or> (\<exists>j. i \<le> j \<and> j < 12 \<and> bit (push_bit (59 - 5 * j) (sym_at s j)) n))"
  using assms
proof (induction s i nm rule: string_to_name_loop.induct)
  case (1 s i nm)
  show ?case
  proof (cases "cstr_at s i \<noteq> CHR 0x00 \<and> i < 12")
    case True
    define nm' where "nm' = nm OR push_bit (64 - 5 * (i + 1)) (char_to_symbol (cstr_at s i) AND 0x1f)"
    have IH: "fst (string_to_name_loop s (i + 1) nm') = min 12 (max (i + 1) (length s)) \<and>
      (\<forall>n. bit (snd (string_to_name_loop s (i + 1) nm')) n \<longleftrightarrow>
        bit nm' n \<or> (\<exists>j. i + 1 \<le> j \<and> j < 12 \<and> bit (push_bit (59 - 5 * j) (sym_at s j)) n))"
      unfolding nm'_def using "1.IH" [OF True "1.prems"(1)] True by simp
    have eq: "string_to_name_loop s i nm = string_to_name_loop s (i + 1) nm'"
      using True by (subst string_to_name_loop.simps) (simp add: nm'_def)
    have "i < length s" using True "1.prems"(1) cstr_at_nul by (metis not_le)
    moreover have bits: "bit nm' n \<longleftrightarrow> bit nm n \<or> bit (push_bit (59 - 5 * i) (sym_at s i)) n" for n
      by (simp add: nm'_def bit_or_iff sym_and_mask [unfolded sym_at_def] sym_at_def)
    moreover have "(\<exists>j. i \<le> j \<and> j < 12 \<and> P j) \<longleftrightarrow> P i \<or> (\<exists>j. i + 1 \<le> j \<and> j < 12 \<and> P j)" for P
      using True by (metis Suc_eq_plus1 Suc_leI le_neq_implies_less order_refl Suc_leD)
    ultimately show ?thesis using IH eq by auto
  next
    case False
    have eq: "string_to_name_loop s i nm = (i, nm)"
      using False by (subst string_to_name_loop.simps) auto
    show ?thesis
    proof (cases "i = 12")
      case True
      with eq show ?thesis by auto
    next
      case i: False
      with False "1.prems" have len: "length s \<le> i" using cstr_at_nul by force
      then have "sym_at s j = 0" if "i \<le> j" for j
        using that by (simp add: sym_at_def cstr_at_def)
      with eq i len "1.prems"(2) show ?thesis by auto
    qed
  qed
qed

lemma bit_string_to_name:
  assumes "CHR 0x00 \<notin> set s"
  shows "bit (string_to_name s) n \<longleftrightarrow>
    (\<exists>j < 12. bit (push_bit (59 - 5 * j) (sym_at s j)) n) \<or> bit (sym_at s 12 AND 0x0f) n"
proof -
  obtain i nm where l: "string_to_name_loop s 0 0 = (i, nm)" by (cases "string_to_name_loop s 0 0")
  have i: "i = min 12 (length s)"
    and nm: "bit nm n \<longleftrightarrow> (\<exists>j < 12. bit (push_bit (59 - 5 * j) (sym_at s j)) n)" for n
    using string_to_name_loop_spec [OF assms, of 0 0] l by auto
  show ?thesis
  proof (cases "i = 12")
    case True
    then show ?thesis using l nm by (simp add: string_to_name_def bit_or_iff sym_at_def)
  next
    case False
    with i have "sym_at s 12 = 0" by (auto simp: sym_at_def cstr_at_def)
    with False show ?thesis using l nm by (simp add: string_to_name_def)
  qed
qed

lemma string_to_name_digit:
  assumes "CHR 0x00 \<notin> set s" and "j < 13" and "unat (sym_at s 12) < 16"
  shows "name_digit (string_to_name s) j = sym_at s j"
proof (rule bit_word_eqI)
  fix m assume "m < LENGTH(64)"
  have small: "bit (sym_at s i) k \<Longrightarrow> k < 5" for i k
    using bit_small [of "sym_at s i" 5 k] char_to_symbol_less [of "cstr_at s i"] by (simp add: sym_at_def)
  have last: "bit (sym_at s 12 AND 0x0f) k \<longleftrightarrow> bit (sym_at s 12) k" for k
    using bit_small [of "sym_at s 12" 4 k] assms(3) by (auto simp: bit_mask4)
  show "bit (name_digit (string_to_name s) j) m \<longleftrightarrow> bit (sym_at s j) m"
  proof (cases "j < 12")
    case True
    have "bit (name_digit (string_to_name s) j) m \<longleftrightarrow> bit (string_to_name s) (59 - 5 * j + m) \<and> m < 5"
      using True by (simp add: name_digit_def bit_mask5 bit_drop_bit_eq)
    also have "\<dots> \<longleftrightarrow> (\<exists>i < 12. 59 - 5 * i \<le> 59 - 5 * j + m \<and>
        bit (sym_at s i) (59 - 5 * j + m - (59 - 5 * i))) \<and> m < 5"
    proof -
      have "\<not> bit (sym_at s 12) (59 - 5 * j + m)"
        using bit_small [of "sym_at s 12" 4 "59 - 5 * j + m"] assms(3) True by fastforce
      moreover have "59 - 5 * j + m < 64" if "m < 5" using that True by simp
      ultimately show ?thesis
        using assms(1) by (auto simp: bit_string_to_name last bit_push_bit_iff)
    qed
    also have "\<dots> \<longleftrightarrow> bit (sym_at s j) m"
    proof
      assume "(\<exists>i < 12. 59 - 5 * i \<le> 59 - 5 * j + m \<and>
        bit (sym_at s i) (59 - 5 * j + m - (59 - 5 * i))) \<and> m < 5"
      then obtain i where i: "i < 12" "59 - 5 * i \<le> 59 - 5 * j + m" "m < 5"
        "bit (sym_at s i) (59 - 5 * j + m - (59 - 5 * i))" by blast
      from small [OF i(4)] i True have "i = j" by linarith
      with i show "bit (sym_at s j) m" by simp
    next
      assume "bit (sym_at s j) m"
      with small [of j m] True show "(\<exists>i < 12. 59 - 5 * i \<le> 59 - 5 * j + m \<and>
        bit (sym_at s i) (59 - 5 * j + m - (59 - 5 * i))) \<and> m < 5" by auto
    qed
    finally show ?thesis .
  next
    case False
    with assms(2) have j: "j = 12" by simp
    have "\<not> bit (push_bit (59 - 5 * i) (sym_at s i)) m" if "i < 12" "m < 4" for i
    proof -
      have "m < 59 - 5 * i" using that by linarith
      then show ?thesis by (simp add: bit_push_bit_iff)
    qed
    then show ?thesis
      using j last [of m] bit_small [of "sym_at s 12" 4 m] assms
      by (auto simp: name_digit_def bit_mask4 bit_string_to_name)
  qed
qed

lemma string_to_name_of_digits:
  assumes "CHR 0x00 \<notin> set s" and "\<And>j. j < 13 \<Longrightarrow> sym_at s j = name_digit v j"
  shows "string_to_name s = v"
proof (rule bit_word_eqI)
  fix n assume n: "n < LENGTH(64)"
  have digit: "bit (push_bit (59 - 5 * j) (sym_at s j)) n \<longleftrightarrow> 59 - 5 * j \<le> n \<and> n < 64 - 5 * j \<and> bit v n"
    if "j < 12" for j
  proof -
    have "59 - 5 * j \<le> n \<Longrightarrow> n - (59 - 5 * j) < 5 \<longleftrightarrow> n < 64 - 5 * j" using that by linarith
    moreover have "bit (push_bit (59 - 5 * j) (sym_at s j)) n \<longleftrightarrow>
        59 - 5 * j \<le> n \<and> bit (sym_at s j) (n - (59 - 5 * j))"
      using n by (simp add: bit_push_bit_iff)
    ultimately show ?thesis
      using that assms(2) [of j] by (auto simp: name_digit_def bit_drop_bit_eq bit_mask5)
  qed
  have "bit (string_to_name s) n \<longleftrightarrow>
      (\<exists>j < 12. 59 - 5 * j \<le> n \<and> n < 64 - 5 * j \<and> bit v n) \<or> (n < 4 \<and> bit v n)"
    using digit assms(2) [of 12]
    by (auto simp: bit_string_to_name [OF assms(1)] name_digit_def bit_mask4)
  also have "\<dots> \<longleftrightarrow> bit v n"
  proof (cases "n < 4")
    case False
    define j where "j = (63 - n) div 5"
    have "j < 12" "59 - 5 * j \<le> n" "n < 64 - 5 * j"
      using False n by (auto simp: j_def)
    then show ?thesis by blast
  qed auto
  finally show "bit (string_to_name s) n \<longleftrightarrow> bit v n" .
qed

subsection \<open>The decoded string\<close>

definition padded_name :: "u64 \<Rightarrow> string" where
  "padded_name v = map (\<lambda>i. charmap ! unat (name_digit v i)) [0..<13]"

lemma name_digit_less: "unat (name_digit v i) < (if i < 12 then 32 else 16)"
proof -
  have "v AND 0x1f \<le> 0x1f" "v AND 0x0f \<le> 0x0f" for v :: u64 by (rule word_and_le1)+
  then have "unat (v AND 0x1f) \<le> 31" "unat (v AND 0x0f) \<le> 15" for v :: u64
    by (simp_all add: word_le_nat_alt)
  note this(1) [of "drop_bit (59 - 5 * i) v"] this(2) [of v]
  then show ?thesis by (simp add: name_digit_def)
qed

lemma name_digit_less_32: "unat (name_digit v i) < 32"
  using name_digit_less [of v i] by (simp split: if_splits)

lemma name_to_string_loop_eq:
  "name_to_string_loop 0 (replicate 13 (CHR ''.'')) v = padded_name v"
  by (simp add: name_to_string_loop.simps padded_name_def name_digit_def upt_rec numeral_eq_Suc)

lemma name_to_string_eq: "name_to_string v = trim_right_if (\<lambda>c. c = CHR ''.'') (padded_name v)"
  by (simp add: name_to_string_def name_to_string_loop_eq)

lemma trim_right_decomp: "\<exists>k. s = trim_right_if (\<lambda>c. c = x) s @ replicate k x"
proof -
  have "rev s = takeWhile (\<lambda>c. c = x) (rev s) @ dropWhile (\<lambda>c. c = x) (rev s)" by simp
  moreover have "takeWhile (\<lambda>c. c = x) (rev s) = replicate (length (takeWhile (\<lambda>c. c = x) (rev s))) x"
    by (rule replicate_length_same [symmetric]) (auto dest: set_takeWhileD)
  ultimately have "s = rev (dropWhile (\<lambda>c. c = x) (rev s)) @
      replicate (length (takeWhile (\<lambda>c. c = x) (rev s))) x"
    by (metis rev_append rev_rev_ident rev_replicate)
  then show ?thesis unfolding trim_right_if_def by blast
qed

lemma trim_right_append:
  "s = [] \<or> last s \<noteq> x \<Longrightarrow> trim_right_if (\<lambda>c. c = x) (s @ replicate k x) = s"
proof (induction k)
  case 0
  then show ?case by (cases s rule: rev_cases) (auto simp: trim_right_if_def)
next
  case (Suc k)
  then show ?case
    by (simp add: trim_right_if_def replicate_append_same [symmetric] del: replicate_Suc replicate_append_same)
      (simp add: trim_right_if_def)
qed

lemma last_trim_right: "trim_right_if (\<lambda>c. c = x) s \<noteq> [] \<Longrightarrow> last (trim_right_if (\<lambda>c. c = x) s) \<noteq> x"
  using hd_dropWhile [of "\<lambda>c. c = x" "rev s"] by (auto simp: trim_right_if_def last_rev)

lemma sym_at_replicate_dot: "sym_at (s @ replicate k (CHR ''.'')) j = sym_at s j"
  by (auto simp: sym_at_def cstr_at_def nth_append)

lemma sym_at_padded_name: "j < 13 \<Longrightarrow> sym_at (padded_name v) j = name_digit v j"
  by (simp add: sym_at_def cstr_at_def padded_name_def char_to_symbol_charmap name_digit_less_32)

lemma padded_name_no_nul: "CHR 0x00 \<notin> set (padded_name v)"
  using charmap_no_nul [OF name_digit_less_32] by (fastforce simp: padded_name_def)

lemma name_to_string_sym: "sym_at (name_to_string v) j = sym_at (padded_name v) j"
  using trim_right_decomp [of "padded_name v" "CHR ''.''"] sym_at_replicate_dot
  by (metis name_to_string_eq)

lemma name_to_string_no_nul: "CHR 0x00 \<notin> set (name_to_string v)"
  using trim_right_decomp [of "padded_name v" "CHR ''.''"] padded_name_no_nul [of v]
  by (metis name_to_string_eq Un_iff set_append)

lemma length_name_to_string: "length (name_to_string v) \<le> 13"
proof -
  obtain k where "padded_name v = name_to_string v @ replicate k (CHR ''.'')"
    using trim_right_decomp name_to_string_eq by metis
  then have "length (padded_name v) = length (name_to_string v) + k" by simp
  then show ?thesis by (simp add: padded_name_def)
qed

lemma string_to_name_to_string: "string_to_name (name_to_string v) = v"
  by (rule string_to_name_of_digits)
    (simp_all add: name_to_string_no_nul name_to_string_sym sym_at_padded_name)

lemma cstr_at_c_string: "i \<le> length (c_string s) \<Longrightarrow> cstr_at (c_string s) i = cstr_at s i"
proof (cases "i < length (c_string s)")
  case True
  then show ?thesis
    using length_takeWhile_le [of "\<lambda>c. c \<noteq> CHR 0x00" s]
    by (simp add: cstr_at_def c_string_def takeWhile_nth)
next
  case False
  assume "i \<le> length (c_string s)"
  with False have "i = length (c_string s)" by simp
  then show ?thesis
    using nth_length_takeWhile [of "\<lambda>c. c \<noteq> CHR 0x00" s] by (simp add: cstr_at_def c_string_def)
qed

lemma c_string_no_nul: "CHR 0x00 \<notin> set (c_string s)"
  by (auto simp: c_string_def dest: set_takeWhileD)

lemma string_to_name_loop_c_string:
  "i \<le> length (c_string s) \<Longrightarrow> string_to_name_loop (c_string s) i nm = string_to_name_loop s i nm"
proof (induction s i nm rule: string_to_name_loop.induct)
  case (1 s i nm)
  have at: "cstr_at (c_string s) i = cstr_at s i" by (rule cstr_at_c_string [OF "1.prems"])
  show ?case
  proof (cases "cstr_at s i \<noteq> CHR 0x00 \<and> i < 12")
    case True
    then have "i + 1 \<le> length (c_string s)"
      using at cstr_at_nul [OF c_string_no_nul, of s i] by simp
    with "1.IH" [OF True] True at show ?thesis
      by (simp add: string_to_name_loop.simps [of "c_string s" i nm] string_to_name_loop.simps [of s i nm])
  next
    case False
    with at show ?thesis
      by (auto simp: string_to_name_loop.simps [of "c_string s" i nm] string_to_name_loop.simps [of s i nm])
  qed
qed

lemma string_to_name_c_string: "string_to_name (c_string s) = string_to_name s"
proof -
  have loop: "string_to_name_loop (c_string s) 0 0 = string_to_name_loop s 0 0"
    by (rule string_to_name_loop_c_string) simp
  have "fst (string_to_name_loop (c_string s) 0 0) = min 12 (length (c_string s))"
    using string_to_name_loop_spec [OF c_string_no_nul, of 0 s 0] by simp
  with loop cstr_at_c_string [of 12 s] show ?thesis
    by (auto simp: string_to_name_def split: prod.splits)
qed

lemma c_string_idem: "CHR 0x00 \<notin> set s \<Longrightarrow> c_string s = s"
  by (simp add: c_string_def takeWhile_eq_all_conv) metis

text \<open>
  The spellings of names: at most thirteen characters of the character map, no trailing dot, and
  a thirteenth character that fits the four bits left for it.
\<close>

definition canonical_name :: "string \<Rightarrow> bool" where
  "canonical_name s \<longleftrightarrow>
     length s \<le> 13 \<and> set s \<subseteq> set charmap \<and> (s = [] \<or> last s \<noteq> CHR ''.'') \<and>
     unat (sym_at s 12) < 16"

lemma canonical_name_to_string: "canonical_name (name_to_string v)"
proof -
  obtain k where k: "padded_name v = name_to_string v @ replicate k (CHR ''.'')"
    using trim_right_decomp name_to_string_eq by metis
  have "set (padded_name v) \<subseteq> set charmap"
    using name_digit_less_32 by (auto simp: padded_name_def)
  then have "set (name_to_string v) \<subseteq> set charmap" using k by auto
  moreover have "name_to_string v = [] \<or> last (name_to_string v) \<noteq> CHR ''.''"
    using last_trim_right by (auto simp: name_to_string_eq)
  moreover have "unat (sym_at (name_to_string v) 12) < 16"
    using name_digit_less [of v 12] by (simp add: name_to_string_sym sym_at_padded_name)
  ultimately show ?thesis by (simp add: canonical_name_def length_name_to_string)
qed

lemma name_to_string_string_to_name:
  assumes "canonical_name s"
  shows "name_to_string (string_to_name s) = s"
proof -
  define p where "p = s @ replicate (13 - length s) (CHR ''.'')"
  have nul: "CHR 0x00 \<notin> set s"
    using assms by (auto simp: canonical_name_def charmap_def)
  have "padded_name (string_to_name s) = p"
  proof (rule nth_equalityI)
    show "length (padded_name (string_to_name s)) = length p"
      using assms by (simp add: padded_name_def p_def canonical_name_def)
    fix i assume "i < length (padded_name (string_to_name s))"
    then have i: "i < 13" by (simp add: padded_name_def)
    have "CHR ''.'' \<in> set charmap" by (simp add: charmap_def)
    then have "set p \<subseteq> set charmap" using assms by (auto simp: p_def canonical_name_def)
    moreover have "i < length p" using i assms by (simp add: p_def canonical_name_def)
    ultimately have "p ! i \<in> set charmap" by (meson nth_mem subsetD)
    moreover have "sym_at s i = char_to_symbol (p ! i)"
      using assms i by (auto simp: sym_at_def cstr_at_def p_def nth_append canonical_name_def)
    moreover have "name_digit (string_to_name s) i = sym_at s i"
      using string_to_name_digit [OF nul i] assms by (simp add: canonical_name_def)
    ultimately show "padded_name (string_to_name s) ! i = p ! i"
      using i by (simp add: padded_name_def charmap_char_to_symbol)
  qed
  moreover have "trim_right_if (\<lambda>c. c = CHR ''.'') p = s"
    unfolding p_def using assms by (intro trim_right_append) (auto simp: canonical_name_def)
  ultimately show ?thesis by (simp add: name_to_string_eq)
qed

lemma name_set_Inr: "name_set s = Inr v \<longleftrightarrow> c_string s = name_to_string v"
proof
  assume "name_set s = Inr v"
  then show "c_string s = name_to_string v" by (auto simp: name_set_def Let_def exc_simps)
next
  assume eq: "c_string s = name_to_string v"
  then have "string_to_name s = v"
    using string_to_name_c_string [of s] string_to_name_to_string [of v] by simp
  with eq length_name_to_string [of v] show "name_set s = Inr v"
    by (simp add: name_set_def Let_def)
qed

subsection \<open>Properties\<close>

text \<open>
  C28: the name encoding is a bijection between 64-bit values and their spellings: encoding the
  spelling of any value gives the value back, and \<open>name::set\<close> accepts a C string with value
  \<open>v\<close> exactly when the string is the spelling of \<open>v\<close>.
\<close>

theorem name_encoding_bijective:
  "string_to_name (name_to_string v) = v \<and>
   (name_set s = Inr w \<longleftrightarrow> c_string s = name_to_string w)"
  by (simp add: string_to_name_to_string name_set_Inr)

text \<open>
  C29: \<open>name::set\<close> accepts exactly the strings of at most thirteen characters from the character
  map with no trailing dot whose thirteenth character is one of the first sixteen; it throws
  \<open>name_type_exception\<close> for every other string.
\<close>

theorem name_set_accepts_canonical:
  "name_set s = (if canonical_name (c_string s) then Inr (string_to_name s) else Inl name_type_exception)"
proof (cases "canonical_name (c_string s)")
  case True
  then have "c_string s = name_to_string (string_to_name s)"
    using name_to_string_string_to_name [OF True] string_to_name_c_string by simp
  with True show ?thesis using name_set_Inr by simp
next
  case False
  then have "\<nexists>v. name_set s = Inr v"
    using name_set_Inr canonical_name_to_string by metis
  with False show ?thesis
    by (auto simp: name_set_def Let_def EOS_ASSERT_def split: if_splits)
qed

end
