(* ===== verification/Merkle.thy ===== *)
theory Merkle
  imports Prelude
begin

text \<open>
  Merkle roots: \<open>merkle.cpp\<close>, \<open>merkle.hpp\<close> and \<open>incremental_merkle.hpp\<close>. The hash of a pair of
  digests is the parameter \<open>H\<close>, the digest a default constructor gives is the parameter \<open>nil\<close>
  (both are \<open>fc::sha256\<close>). The first group of definitions is the batch computation over a vector
  of digests, the second the incremental tree that block header states carry; the main result
  is that they compute the same root.
\<close>

subsection \<open>Canonical pairs and the batch root\<close>

record digest_type =
  hash0 :: u64
  hash1 :: u64
  hash2 :: u64
  hash3 :: u64

type_synonym pair_hash = "digest_type \<times> digest_type \<Rightarrow> digest_type"

definition make_canonical_left :: "digest_type \<Rightarrow> digest_type" where
  "make_canonical_left val = val\<lparr>hash0 := hash0 val AND 0xFFFFFFFFFFFFFF7F\<rparr>"

definition make_canonical_right :: "digest_type \<Rightarrow> digest_type" where
  "make_canonical_right val = val\<lparr>hash0 := hash0 val OR 0x0000000000000080\<rparr>"

definition is_canonical_left :: "digest_type \<Rightarrow> bool" where
  "is_canonical_left val \<longleftrightarrow> hash0 val AND 0x0000000000000080 = 0"

definition is_canonical_right :: "digest_type \<Rightarrow> bool" where
  "is_canonical_right val \<longleftrightarrow> hash0 val AND 0x0000000000000080 \<noteq> 0"

definition make_canonical_pair :: "digest_type \<Rightarrow> digest_type \<Rightarrow> digest_type \<times> digest_type" where
  "make_canonical_pair l r = (make_canonical_left l, make_canonical_right r)"

text \<open>One round of the loop: the last digest is doubled when their number is odd, then the pairs
  are hashed in place and the vector is cut to its first half.\<close>

definition hash_pairs_in_place :: "pair_hash \<Rightarrow> digest_type list \<Rightarrow> digest_type list" where
  "hash_pairs_in_place H ids =
     fold (\<lambda>i ids. ids[i := H (make_canonical_pair (ids ! (2 * i)) (ids ! (2 * i + 1)))]) [0..<length ids div 2] ids"

definition merkle_round :: "pair_hash \<Rightarrow> digest_type list \<Rightarrow> digest_type list" where
  "merkle_round H ids =
     (let ids1 = (if length ids mod 2 \<noteq> 0 then ids @ [last ids] else ids);
          ids2 = hash_pairs_in_place H ids1
      in take (length ids2 div 2) ids2)"

lemma length_hash_pairs_in_place [simp]: "length (hash_pairs_in_place H ids) = length ids"
proof -
  have "length (fold (\<lambda>i ids. ids[i := H (make_canonical_pair (ids ! (2 * i)) (ids ! (2 * i + 1)))]) is ids) = length ids" for "is"
    by (induction "is" arbitrary: ids) simp_all
  then show ?thesis by (simp add: hash_pairs_in_place_def)
qed

lemma length_merkle_round: "length (merkle_round H ids) = (length ids + 1) div 2"
  by (auto simp: merkle_round_def Let_def min_def)

function merkle_loop :: "pair_hash \<Rightarrow> digest_type list \<Rightarrow> digest_type list" where
  "merkle_loop H ids = (if length ids > 1 then merkle_loop H (merkle_round H ids) else ids)"
  by pat_completeness auto
termination
  by (relation "measure (\<lambda>(H, ids). length ids)") (auto simp: length_merkle_round)

declare merkle_loop.simps [simp del]

definition merkle :: "pair_hash \<Rightarrow> digest_type \<Rightarrow> digest_type list \<Rightarrow> digest_type" where
  "merkle H nil ids = (if length ids = 0 then nil else hd (merkle_loop H ids))"

subsection \<open>The incremental tree\<close>

definition next_power_of_2 :: "u64 \<Rightarrow> u64" where
  "next_power_of_2 value =
     (let value = value - 1;
          value = value OR drop_bit 1 value;
          value = value OR drop_bit 2 value;
          value = value OR drop_bit 4 value;
          value = value OR drop_bit 8 value;
          value = value OR drop_bit 16 value;
          value = value OR drop_bit 32 value
      in value + 1)"

definition clz_power_2 :: "u64 \<Rightarrow> int" where
  "clz_power_2 value =
     64 - (if value \<noteq> 0 then 1 else 0)
        - (if value AND 0x00000000FFFFFFFF \<noteq> 0 then 32 else 0)
        - (if value AND 0x0000FFFF0000FFFF \<noteq> 0 then 16 else 0)
        - (if value AND 0x00FF00FF00FF00FF \<noteq> 0 then 8 else 0)
        - (if value AND 0x0F0F0F0F0F0F0F0F \<noteq> 0 then 4 else 0)
        - (if value AND 0x3333333333333333 \<noteq> 0 then 2 else 0)
        - (if value AND 0x5555555555555555 \<noteq> 0 then 1 else 0)"

definition calcluate_max_depth :: "u64 \<Rightarrow> int" where
  "calcluate_max_depth node_count =
     (if node_count = 0 then 0 else clz_power_2 (next_power_of_2 node_count) + 1)"

record incremental_merkle =
  node_count :: u64
  active_nodes :: "digest_type list"

definition empty_merkle :: incremental_merkle where
  "empty_merkle = \<lparr>node_count = 0, active_nodes = []\<rparr>"

text \<open>
  The collapse loop of \<open>append\<close>. Reading an active node when the iterator is at the end is
  undefined behaviour.
\<close>

fun append_loop ::
  "pair_hash \<Rightarrow> nat \<Rightarrow> u64 \<Rightarrow> digest_type \<Rightarrow> bool \<Rightarrow> digest_type list \<Rightarrow> digest_type list \<Rightarrow>
   (digest_type \<times> digest_type list) result" where
  "append_loop H 0 index node partial active_iter updated = Inr (node, updated)"
| "append_loop H (Suc current_depth) index node partial active_iter updated =
     (if index AND 1 = 0 then
        append_loop H current_depth (drop_bit 1 index) (H (make_canonical_pair node node)) True active_iter
          (if \<not> partial then updated @ [node] else updated)
      else
        case active_iter of
          [] \<Rightarrow> Inl undefined_behavior
        | left_value # active_iter' \<Rightarrow>
            append_loop H current_depth (drop_bit 1 index) (H (make_canonical_pair left_value node)) partial active_iter'
              (if partial then updated @ [left_value] else updated))"

definition merkle_append :: "pair_hash \<Rightarrow> digest_type \<Rightarrow> incremental_merkle \<Rightarrow> incremental_merkle result" where
  "merkle_append H digest m =
     (let max_depth = calcluate_max_depth (node_count m + 1);
          current_depth = max_depth - 1
      in ebind (append_loop H (nat current_depth) (node_count m) digest False (active_nodes m) [])
           (\<lambda>(node, updated). Inr \<lparr>node_count = node_count m + 1, active_nodes = updated @ [node]\<rparr>))"

definition get_root :: "digest_type \<Rightarrow> incremental_merkle \<Rightarrow> digest_type result" where
  "get_root nil m =
     (if node_count m > 0 then
        (if active_nodes m = [] then Inl undefined_behavior else Inr (last (active_nodes m)))
      else Inr nil)"

subsection \<open>Levels of the tree\<close>

text \<open>
  \<open>level\<close> hashes the pairs of a list, doubling an odd last digest; \<open>pair_floor\<close> drops it.
  \<open>left_nodes\<close> are the roots of the complete subtrees, lowest level first.
\<close>

fun level :: "pair_hash \<Rightarrow> digest_type list \<Rightarrow> digest_type list" where
  "level H [] = []"
| "level H [x] = [H (make_canonical_pair x x)]"
| "level H (x # y # zs) = H (make_canonical_pair x y) # level H zs"

fun pair_floor :: "pair_hash \<Rightarrow> digest_type list \<Rightarrow> digest_type list" where
  "pair_floor H (x # y # zs) = H (make_canonical_pair x y) # pair_floor H zs"
| "pair_floor H _ = []"

lemma length_pair_floor [simp]: "length (pair_floor H xs) = length xs div 2"
  by (induction H xs rule: pair_floor.induct) auto

lemma length_level [simp]: "length (level H xs) = (length xs + 1) div 2"
  by (induction H xs rule: level.induct) auto

function left_nodes :: "pair_hash \<Rightarrow> digest_type list \<Rightarrow> digest_type list" where
  "left_nodes H xs =
     (if xs = [] then []
      else (if odd (length xs) then [last xs] else []) @ left_nodes H (pair_floor H xs))"
  by pat_completeness auto
termination
  by (relation "measure (\<lambda>(H, xs). length xs)") auto

declare left_nodes.simps [simp del]

lemma level_nth: "i < (length xs + 1) div 2 \<Longrightarrow>
    level H xs ! i = H (make_canonical_pair (xs ! (2 * i)) (if 2 * i + 1 < length xs then xs ! (2 * i + 1) else xs ! (2 * i)))"
proof (induction H xs arbitrary: i rule: level.induct)
  case (3 H x y zs)
  then show ?case by (cases i) auto
qed auto

lemma hash_pairs_prefix:
  fixes H :: pair_hash
  assumes "n \<le> length ids div 2"
  defines "out \<equiv> fold (\<lambda>i ids. ids[i := H (make_canonical_pair (ids ! (2 * i)) (ids ! (2 * i + 1)))]) [0..<n] ids"
  shows "length out = length ids \<and>
    (\<forall>i < length ids. out ! i = (if i < n then H (make_canonical_pair (ids ! (2 * i)) (ids ! (2 * i + 1))) else ids ! i))"
  using assms(1) unfolding out_def
proof (induction n)
  case (Suc n)
  let ?out = "fold (\<lambda>i ids. ids[i := H (make_canonical_pair (ids ! (2 * i)) (ids ! (2 * i + 1)))]) [0..<n] ids"
  have IH: "length ?out = length ids"
    "\<And>i. i < length ids \<Longrightarrow> ?out ! i = (if i < n then H (make_canonical_pair (ids ! (2 * i)) (ids ! (2 * i + 1))) else ids ! i)"
    using Suc by auto
  have "2 * n < length ids" "2 * n + 1 < length ids" using Suc.prems by auto
  then have "?out ! (2 * n) = ids ! (2 * n)" "?out ! (2 * n + 1) = ids ! (2 * n + 1)"
    using IH(2) [of "2 * n"] IH(2) [of "2 * n + 1"] by (auto split: if_splits)
  then show ?case using IH by (auto simp: nth_list_update less_Suc_eq)
qed simp

text \<open>The in-place round computes a level: no pair is overwritten before it is read.\<close>

lemma merkle_round_level: "merkle_round H ids = level H ids"
proof (rule nth_equalityI)
  show "length (merkle_round H ids) = length (level H ids)" by (simp add: length_merkle_round)
next
  fix i assume "i < length (merkle_round H ids)"
  then have i: "i < (length ids + 1) div 2" by (simp add: length_merkle_round)
  define xs where "xs = (if length ids mod 2 \<noteq> 0 then ids @ [last ids] else ids)"
  have len: "length xs div 2 = (length ids + 1) div 2" unfolding xs_def by (auto; presburger)
  have "merkle_round H ids = take (length xs div 2) (hash_pairs_in_place H xs)"
    unfolding merkle_round_def Let_def xs_def by (simp only: length_hash_pairs_in_place)
  then have "merkle_round H ids ! i = hash_pairs_in_place H xs ! i" using i len by simp
  also have "\<dots> = H (make_canonical_pair (xs ! (2 * i)) (xs ! (2 * i + 1)))"
    using hash_pairs_prefix [of "length xs div 2" xs H] i len by (simp add: hash_pairs_in_place_def)
  also have "\<dots> = level H ids ! i"
  proof -
    have "xs ! (2 * i) = ids ! (2 * i)" using i by (auto simp: xs_def nth_append)
    moreover have "xs ! (2 * i + 1) = (if 2 * i + 1 < length ids then ids ! (2 * i + 1) else ids ! (2 * i))"
    proof (cases "2 * i + 1 < length ids")
      case False
      with i have "length ids = 2 * i + 1" by presburger
      then show ?thesis by (cases "ids = []") (simp_all add: xs_def nth_append last_conv_nth)
    qed (simp add: xs_def nth_append)
    ultimately show ?thesis using level_nth [OF i] by simp
  qed
  finally show "merkle_round H ids ! i = level H ids ! i" .
qed

lemma merkle_step: "length ids > 1 \<Longrightarrow> merkle H nil ids = merkle H nil (level H ids)"
proof -
  assume len: "length ids > 1"
  then have "merkle_loop H ids = merkle_loop H (level H ids)"
    by (simp add: merkle_loop.simps [of H ids] merkle_round_level)
  moreover have "level H ids \<noteq> []" using len by (auto simp flip: length_0_conv)
  ultimately show ?thesis using len by (auto simp: merkle_def)
qed

lemma merkle_levels:
  assumes "ids \<noteq> []" and "length ids \<le> 2 ^ c" and "c = 0 \<or> 2 ^ (c - 1) < length ids"
  shows "(level H ^^ c) ids = [merkle H nil ids]"
  using assms
proof (induction c arbitrary: ids)
  case 0
  then have "length ids = 1" by (cases ids) auto
  then obtain x where "ids = [x]" by (auto simp: length_Suc_conv)
  then show ?case by (simp add: merkle_def merkle_loop.simps)
next
  case (Suc c)
  then have len: "1 < length ids" by (metis One_nat_def diff_Suc_1 le_less_trans nat.distinct(1) one_le_numeral one_le_power)
  have "c = 0 \<or> 2 ^ (c - 1) < length (level H ids)" using Suc.prems(3) by (cases c) auto
  moreover have "length (level H ids) \<le> 2 ^ c" using Suc.prems(2) by simp
  moreover have "level H ids \<noteq> []" using len by (auto simp flip: length_0_conv)
  ultimately show ?case
    using Suc.IH [of "level H ids"] merkle_step [OF len] by (simp add: funpow_Suc_right del: funpow.simps)
qed

lemma level_snoc:
  "level H (F @ [t]) = pair_floor H F @
     [if odd (length F) then H (make_canonical_pair (last F) t) else H (make_canonical_pair t t)]"
  by (induction H F rule: pair_floor.induct) auto

lemma pair_floor_snoc:
  "pair_floor H (F @ [t]) =
     (if odd (length F) then pair_floor H F @ [H (make_canonical_pair (last F) t)] else pair_floor H F)"
  by (induction H F rule: pair_floor.induct) auto

lemma left_nodes_Nil [simp]: "left_nodes H [] = []"
  by (simp add: left_nodes.simps)

lemma left_nodes_even: "even (length F) \<Longrightarrow> left_nodes H F = left_nodes H (pair_floor H F)"
  by (subst left_nodes.simps) auto

lemma left_nodes_odd: "odd (length F) \<Longrightarrow> left_nodes H F = last F # left_nodes H (pair_floor H F)"
  by (subst left_nodes.simps) auto

lemma u64_index:
  "index AND (1 :: u64) = 0 \<longleftrightarrow> even (unat index)" "unat (drop_bit 1 index :: u64) = unat index div 2"
  by (simp_all add: even_iff_mod_2_eq_zero and_one_eq unat_word_mod word_unat_eq_iff drop_bit_eq_div unat_word_div)

lemma append_loop_correct:
  assumes "length F < 2 ^ c" and "unat index = length F"
  shows "\<exists>node'. append_loop H c index node partial (left_nodes H F @ junk) upd =
      Inr (node', upd @ (if partial then left_nodes H F
        else if length F + 1 = 2 ^ c then [] else left_nodes H (F @ [node]))) \<and>
    (level H ^^ c) (F @ [node]) = [node']"
  using assms
proof (induction c arbitrary: F index node partial upd)
  case (Suc c)
  let ?F = "pair_floor H F"
  have len: "length ?F < 2 ^ c" "unat (drop_bit 1 index) = length ?F"
    using Suc.prems u64_index(2) [of index] by auto
  show ?case
  proof (cases "even (length F)")
    case True
    then have "length F + 1 \<noteq> 2 ^ Suc c" by (metis even_Suc even_mult_iff even_numeral power_Suc Suc_eq_plus1)
    moreover have "left_nodes H (F @ [node]) = node # left_nodes H ?F"
      using True by (subst left_nodes_odd) (simp_all add: pair_floor_snoc)
    moreover have "index AND 1 = 0" using True Suc.prems by (simp add: u64_index)
    ultimately show ?thesis
      using True Suc.IH [OF len, of "H (make_canonical_pair node node)" True "if \<not> partial then upd @ [node] else upd"]
      by (cases partial) (simp_all add: left_nodes_even [OF True] level_snoc funpow_Suc_right del: funpow.simps power_Suc)
  next
    case False
    then have "length F + 1 = 2 ^ Suc c \<longleftrightarrow> length ?F + 1 = 2 ^ c" by (auto elim!: oddE)
    moreover have "left_nodes H (F @ [node]) = left_nodes H (?F @ [H (make_canonical_pair (last F) node)])"
      using False by (subst left_nodes_even) (simp_all add: pair_floor_snoc)
    moreover have "index AND 1 \<noteq> 0" using False Suc.prems by (simp add: u64_index)
    ultimately show ?thesis
      using False Suc.IH [OF len, of "H (make_canonical_pair (last F) node)" partial
          "if partial then upd @ [last F] else upd"]
      by (cases partial; cases "length ?F + 1 = 2 ^ c") (simp_all add: left_nodes_odd [OF False] level_snoc funpow_Suc_right del: funpow.simps power_Suc)
  qed
qed simp

lemma left_nodes_complete:
  "length ys = 2 ^ c \<Longrightarrow> left_nodes H ys = (level H ^^ c) ys"
proof (induction c arbitrary: ys)
  case 0
  then obtain y where "ys = [y]" by (auto simp: length_Suc_conv)
  then show ?case by (simp add: left_nodes_odd)
next
  case (Suc c)
  have "even (length ys) \<Longrightarrow> level H ys = pair_floor H ys"
    by (induction H ys rule: level.induct) auto
  with Suc show ?case by (simp add: left_nodes_even funpow_Suc_right del: funpow.simps)
qed


subsection \<open>Depth of the tree\<close>

lemma smear_step:
  assumes "\<And>i. bit x i \<longleftrightarrow> (\<exists>j. i \<le> j \<and> j < i + k \<and> bit w j)"
  shows "bit (x OR drop_bit k x :: u64) i \<longleftrightarrow> (\<exists>j. i \<le> j \<and> j < i + 2 * k \<and> bit w j)"
proof -
  have "bit (x OR drop_bit k x) i \<longleftrightarrow> bit x i \<or> bit x (i + k)"
    by (simp add: bit_or_iff bit_drop_bit_eq add.commute)
  also have "\<dots> \<longleftrightarrow> (\<exists>j. i \<le> j \<and> j < i + 2 * k \<and> bit w j)"
  proof -
    have "i \<le> j \<and> j < i + 2 * k \<longleftrightarrow> (i \<le> j \<and> j < i + k) \<or> (i + k \<le> j \<and> j < i + k + k)" for j by auto
    then show ?thesis unfolding assms by blast
  qed
  finally show ?thesis .
qed

lemma smear_bits:
  "bit (next_power_of_2 v - 1) i \<longleftrightarrow> (\<exists>j. i \<le> j \<and> j < i + 64 \<and> bit (v - 1) j)"
proof -
  let ?w = "v - 1"
  let ?s = "\<lambda>k x. x OR drop_bit k x :: u64"
  have 0: "bit ?w i \<longleftrightarrow> (\<exists>j. i \<le> j \<and> j < i + 1 \<and> bit ?w j)" for i
    by (metis le_antisym less_add_one less_Suc_eq_le order_refl Suc_eq_plus1)
  note 1 = smear_step [OF 0]
  note 2 = smear_step [OF 1]
  note 4 = smear_step [OF 2]
  note 8 = smear_step [OF 4]
  note 16 = smear_step [OF 8]
  note 32 = smear_step [OF 16]
  show ?thesis using 32 by (simp add: next_power_of_2_def Let_def)
qed

lemma bit_u64_nat: "bit (w :: u64) j \<longleftrightarrow> odd (unat w div 2 ^ j)"
proof -
  have "bit (unat w) j \<longleftrightarrow> bit w j" by (simp add: bit_unsigned_iff)
  then show ?thesis by (simp add: bit_iff_odd)
qed

lemma next_power_of_2_exp:
  assumes "0 < unat v" and "unat v \<le> 2 ^ 63"
  obtains c where "c < 64" and "next_power_of_2 v = 2 ^ c" and "unat v \<le> 2 ^ c" and "c = 0 \<or> 2 ^ (c - 1) < unat v"
proof (cases "unat v = 1")
  case True
  then have "v = 1" by (metis unat_1 word_unat_eq_iff)
  then show thesis using that [of 0] by (simp add: next_power_of_2_def)
next
  case False
  define n where "n = unat v - 1"
  have w: "unat (v - 1) = n" using assms(1) by (simp add: n_def unat_sub word_le_nat_alt unat_gt_0 Suc_le_eq)
  have "1 \<le> n" using False assms(1) by (simp add: n_def)
  then obtain h where h: "2 ^ h \<le> n" "n < 2 ^ (h + 1)" using ex_power_ivl1 [of 2 n] by auto
  have h62: "h < 63"
  proof (rule ccontr)
    assume "\<not> h < 63"
    then have "(2 :: nat) ^ 63 \<le> 2 ^ h" by (intro power_increasing) auto
    with h(1) assms show False by (simp add: n_def)
  qed
  have bits: "bit (v - 1) j \<Longrightarrow> j \<le> h" for j
  proof (rule ccontr)
    assume b: "bit (v - 1) j" and "\<not> j \<le> h"
    then have "(2 :: nat) ^ (h + 1) \<le> 2 ^ j" by (intro power_increasing) auto
    with h(2) have "n div 2 ^ j = 0" by simp
    with b w show False by (simp add: bit_u64_nat)
  qed
  have "n div 2 ^ h = 1" using h by (intro div_nat_eqI) auto
  then have top_bit: "bit (v - 1) h" using w by (simp add: bit_u64_nat)
  have "bit (next_power_of_2 v - 1) i \<longleftrightarrow> i < h + 1" for i
  proof
    assume "bit (next_power_of_2 v - 1) i"
    then obtain j where "i \<le> j" "bit (v - 1) j" unfolding smear_bits by blast
    with bits [of j] show "i < h + 1" by simp
  next
    assume "i < h + 1"
    with h62 top_bit show "bit (next_power_of_2 v - 1) i"
      unfolding smear_bits by (intro exI [of _ h]) simp
  qed
  then have "next_power_of_2 v - 1 = mask (h + 1)"
    using h62 by (intro bit_word_eqI) (auto simp: bit_mask_iff)
  then have "next_power_of_2 v = 2 ^ (h + 1)" by (simp add: mask_eq_exp_minus_1 algebra_simps)
  moreover have "unat v \<le> 2 ^ (h + 1)" "2 ^ h < unat v" using h assms(1) by (auto simp: n_def)
  ultimately show thesis using that [of "h + 1"] h62 by simp
qed

lemma clz_power_2_exp: "c < 64 \<Longrightarrow> clz_power_2 (2 ^ c) = int c"
proof -
  have "list_all (\<lambda>c. clz_power_2 (2 ^ c) = int c) [0..<64]"
    by (simp add: upt_conv_Cons) (simp add: clz_power_2_def)
  then show "c < 64 \<Longrightarrow> ?thesis" by (simp add: list_all_iff)
qed

lemma max_depth_exp:
  assumes "0 < unat v" and "unat v \<le> 2 ^ 63"
  obtains c where "calcluate_max_depth v = int c + 1" and "unat v \<le> 2 ^ c" and "c = 0 \<or> 2 ^ (c - 1) < unat v"
proof -
  have "v \<noteq> 0" using assms(1) by auto
  with that show thesis
    using next_power_of_2_exp [OF assms] clz_power_2_exp by (metis calcluate_max_depth_def)
qed


subsection \<open>The invariant of the incremental tree\<close>

definition merkle_ok :: "pair_hash \<Rightarrow> digest_type \<Rightarrow> digest_type list \<Rightarrow> incremental_merkle \<Rightarrow> bool" where
  "merkle_ok H nil xs m \<longleftrightarrow> unat (node_count m) = length xs \<and>
     (\<exists>junk. active_nodes m = left_nodes H xs @ junk) \<and>
     (xs \<noteq> [] \<longrightarrow> active_nodes m \<noteq> [] \<and> last (active_nodes m) = merkle H nil xs)"

lemma merkle_ok_empty: "merkle_ok H nil [] empty_merkle"
  by (simp add: merkle_ok_def empty_merkle_def)

lemma merkle_ok_append:
  assumes "merkle_ok H nil xs m" and "length xs < 2 ^ 63"
  obtains m' where "merkle_append H d m = Inr m'" and "merkle_ok H nil (xs @ [d]) m'"
proof -
  obtain junk where m: "unat (node_count m) = length xs" "active_nodes m = left_nodes H xs @ junk"
    using assms(1) by (auto simp: merkle_ok_def)
  have n: "unat (node_count m + 1) = length xs + 1"
    using m(1) assms(2) by (simp add: unat_add_no_overflow)
  then obtain c where c: "calcluate_max_depth (node_count m + 1) = int c + 1" "length xs + 1 \<le> 2 ^ c"
      "c = 0 \<or> 2 ^ (c - 1) < length xs + 1"
    using max_depth_exp [of "node_count m + 1"] assms(2) by auto
  obtain root where loop: "append_loop H c (node_count m) d False (active_nodes m) [] =
      Inr (root, if length xs + 1 = 2 ^ c then [] else left_nodes H (xs @ [d]))"
    and top: "(level H ^^ c) (xs @ [d]) = [root]"
    using append_loop_correct [of xs c "node_count m" H d False junk "[]"] c(2) m by auto
  have root: "root = merkle H nil (xs @ [d])"
    using merkle_levels [of "xs @ [d]" c H nil] c(2,3) top by simp
  let ?m = "\<lparr>node_count = node_count m + 1,
    active_nodes = (if length xs + 1 = 2 ^ c then [] else left_nodes H (xs @ [d])) @ [root]\<rparr>"
  have "left_nodes H (xs @ [d]) = [root]" if "length xs + 1 = 2 ^ c"
    using left_nodes_complete [of "xs @ [d]" c H] that top by simp
  then have "merkle_ok H nil (xs @ [d]) ?m"
    using n root by (auto simp: merkle_ok_def)
  moreover have "merkle_append H d m = Inr ?m"
    using c(1) loop by (simp add: merkle_append_def Let_def)
  ultimately show thesis using that by blast
qed

lemma merkle_ok_root: "merkle_ok H nil xs m \<Longrightarrow> get_root nil m = Inr (merkle H nil xs)"
  by (cases "xs = []") (auto simp: merkle_ok_def get_root_def merkle_def unat_gt_0 word_gt_0 unat_eq_0)

lemma merkle_ok_appends:
  assumes "merkle_ok H nil xs m" and "length xs + length ds \<le> 2 ^ 63"
  shows "\<exists>m'. efold (merkle_append H) ds m = Inr m' \<and> merkle_ok H nil (xs @ ds) m'"
  using assms
proof (induction ds arbitrary: xs m)
  case (Cons d ds)
  obtain m1 where "merkle_append H d m = Inr m1" "merkle_ok H nil (xs @ [d]) m1"
    using merkle_ok_append [OF Cons.prems(1), of d] Cons.prems(2) by auto
  with Cons.IH [of "xs @ [d]" m1] Cons.prems(2) show ?case by simp
qed simp

subsection \<open>Binding\<close>

text \<open>The pairs that are hashed when the root of \<open>ids\<close> is computed.\<close>

fun pairs_of :: "digest_type list \<Rightarrow> (digest_type \<times> digest_type) list" where
  "pairs_of [] = []"
| "pairs_of [x] = [make_canonical_pair x x]"
| "pairs_of (x # y # zs) = make_canonical_pair x y # pairs_of zs"

function hashed_pairs :: "pair_hash \<Rightarrow> digest_type list \<Rightarrow> (digest_type \<times> digest_type) list" where
  "hashed_pairs H ids =
     (if length ids > 1 then pairs_of ids @ hashed_pairs H (level H ids) else [])"
  by pat_completeness auto
termination
  by (relation "measure (\<lambda>(H, ids). length ids)") auto

declare hashed_pairs.simps [simp del]

lemma level_pairs: "level H ids = map H (pairs_of ids)"
  by (induction H ids rule: level.induct) auto

lemma canonical_right_eq_iff:
  "make_canonical_right x = make_canonical_right y \<longleftrightarrow> make_canonical_left x = make_canonical_left y"
proof -
  have bits: "bit (0xFFFFFFFFFFFFFF7F :: u64) i \<longleftrightarrow> i < 64 \<and> i \<noteq> 7" "bit (0x80 :: u64) i \<longleftrightarrow> i = 7" for i
  proof -
    have r: "(0x80 :: u64) = 2 ^ 7" "(0xFFFFFFFFFFFFFF7F :: u64) = NOT (2 ^ 7)" by simp_all
    show "bit (0x80 :: u64) i \<longleftrightarrow> i = 7" unfolding r bit_exp_iff by auto
    show "bit (0xFFFFFFFFFFFFFF7F :: u64) i \<longleftrightarrow> i < 64 \<and> i \<noteq> 7"
      unfolding r bit_not_iff bit_exp_iff by auto
  qed
  have "a OR 0x80 = b OR 0x80 \<longleftrightarrow> a AND 0xFFFFFFFFFFFFFF7F = b AND 0xFFFFFFFFFFFFFF7F" for a b :: u64
    unfolding bit_eq_iff bit_or_iff bit_and_iff bits by auto
  then show ?thesis
    by (cases x; cases y) (auto simp: make_canonical_left_def make_canonical_right_def)
qed

lemma pairs_of_eq_iff:
  "length xs = length ys \<Longrightarrow>
     pairs_of xs = pairs_of ys \<longleftrightarrow> map make_canonical_left xs = map make_canonical_left ys"
proof (induction xs arbitrary: ys rule: pairs_of.induct)
  case (2 x)
  then obtain y where "ys = [y]" by (cases ys) auto
  then show ?case by (auto simp: make_canonical_pair_def canonical_right_eq_iff)
next
  case (3 x1 x2 xs)
  then obtain y1 y2 ys' where ys: "ys = y1 # y2 # ys'" by (cases ys; cases "tl ys") auto
  with 3 show ?case by (auto simp: make_canonical_pair_def canonical_right_eq_iff)
qed simp

lemma merkle_binding_strip:
  assumes "length xs = length ys" and "xs \<noteq> []"
    and "make_canonical_left (merkle H nil xs) = make_canonical_left (merkle H nil ys)"
  shows "map make_canonical_left xs = map make_canonical_left ys \<or>
    (\<exists>p \<in> set (hashed_pairs H xs). \<exists>q \<in> set (hashed_pairs H ys).
       p \<noteq> q \<and> make_canonical_left (H p) = make_canonical_left (H q))"
  using assms
proof (induction "length xs" arbitrary: xs ys rule: less_induct)
  case less
  show ?case
  proof (cases "length xs > 1")
    case False
    with less.prems(1,2) obtain x y where "xs = [x]" "ys = [y]"
      by (cases xs; cases ys) auto
    with less.prems(3) show ?thesis by (simp add: merkle_def merkle_loop.simps)
  next
    case True
    let ?coll = "\<lambda>A B. \<exists>p \<in> set A. \<exists>q \<in> set B. p \<noteq> q \<and> make_canonical_left (H p) = make_canonical_left (H q)"
    have hp: "hashed_pairs H xs = pairs_of xs @ hashed_pairs H (level H xs)"
      "hashed_pairs H ys = pairs_of ys @ hashed_pairs H (level H ys)"
      using True less.prems(1) by (simp_all add: hashed_pairs.simps [of H xs] hashed_pairs.simps [of H ys])
    have "map make_canonical_left (level H xs) = map make_canonical_left (level H ys) \<or>
        ?coll (hashed_pairs H (level H xs)) (hashed_pairs H (level H ys))"
    proof (rule less.hyps)
      show "length (level H xs) < length xs" "length (level H xs) = length (level H ys)"
        using True less.prems(1) by simp_all
      show "level H xs \<noteq> []" using True by (auto simp flip: length_0_conv)
      show "make_canonical_left (merkle H nil (level H xs)) = make_canonical_left (merkle H nil (level H ys))"
        using less.prems True merkle_step by metis
    qed
    then consider (coll) "?coll (hashed_pairs H (level H xs)) (hashed_pairs H (level H ys))"
      | (same) "map (make_canonical_left \<circ> H) (pairs_of xs) = map (make_canonical_left \<circ> H) (pairs_of ys)"
      unfolding level_pairs map_map by blast
    then show ?thesis
    proof cases
      case coll
      then show ?thesis unfolding hp set_append by blast
    next
      case same
      have "pairs_of xs = pairs_of ys \<or> ?coll (pairs_of xs) (pairs_of ys)"
      proof (rule disjCI)
        assume no: "\<not> ?coll (pairs_of xs) (pairs_of ys)"
        show "pairs_of xs = pairs_of ys"
        proof (rule nth_equalityI)
          show len: "length (pairs_of xs) = length (pairs_of ys)" using same by (rule map_eq_imp_length_eq)
          fix i assume i: "i < length (pairs_of xs)"
          then have "make_canonical_left (H (pairs_of xs ! i)) = make_canonical_left (H (pairs_of ys ! i))"
            using same len by (metis comp_apply nth_map)
          with no i len show "pairs_of xs ! i = pairs_of ys ! i" by (metis nth_mem)
        qed
      qed
      then show ?thesis using pairs_of_eq_iff [OF less.prems(1)] unfolding hp set_append by blast
    qed
  qed
qed

subsection \<open>Properties\<close>

text \<open>
  C13: the incremental tree computes the batch root. Appending the digests one by one to an empty
  tree never reads past its active nodes, counts them, and its root is the root \<open>merkle\<close> computes
  of the whole vector, for up to \<open>2 ^ 63\<close> digests.
\<close>

theorem incremental_merkle_root:
  assumes "length ids \<le> 2 ^ 63"
  shows "\<exists>m. efold (merkle_append H) ids empty_merkle = Inr m \<and> unat (node_count m) = length ids \<and>
    get_root nil m = Inr (merkle H nil ids)"
proof -
  obtain m where m: "efold (merkle_append H) ids empty_merkle = Inr m" "merkle_ok H nil ids m"
    using merkle_ok_appends [OF merkle_ok_empty, of ids H nil] assms by auto
  then have "get_root nil m = Inr (merkle H nil ids)" by (simp add: merkle_ok_root)
  with m show ?thesis by (auto simp: merkle_ok_def)
qed

definition sample_digest :: "u64 \<Rightarrow> digest_type" where
  "sample_digest k = \<lparr>hash0 = k, hash1 = 0, hash2 = 0, hash3 = 0\<rparr>"

definition sample_hash :: pair_hash where
  "sample_hash p = sample_digest (3 * hash0 (fst p) + hash0 (snd p))"

theorem incremental_merkle_root_witness:
  "\<exists>m. efold (merkle_append sample_hash) (map sample_digest [1, 2, 3]) empty_merkle = Inr m \<and>
     get_root (sample_digest 0) m = Inr (merkle sample_hash (sample_digest 0) (map sample_digest [1, 2, 3]))"
  using incremental_merkle_root [of "map sample_digest [1, 2, 3]" sample_hash "sample_digest 0"] by auto

text \<open>
  C21: a root binds the digests it was computed from. Two vectors of the same length with the same
  root agree in every digest up to the side bit, unless the computations hashed two different
  pairs to digests that agree up to the side bit.
\<close>

theorem merkle_root_binding:
  assumes "length xs = length ys" and "xs \<noteq> []" and "merkle H nil xs = merkle H nil ys"
  shows "map make_canonical_left xs = map make_canonical_left ys \<or>
    (\<exists>p \<in> set (hashed_pairs H xs). \<exists>q \<in> set (hashed_pairs H ys).
       p \<noteq> q \<and> make_canonical_left (H p) = make_canonical_left (H q))"
  by (rule merkle_binding_strip [where nil = nil]) (use assms in simp_all)

theorem merkle_root_binding_witness:
  "merkle sample_hash (sample_digest 0) (map sample_digest [1, 130]) =
     merkle sample_hash (sample_digest 0) (map sample_digest [129, 2]) \<and>
   map make_canonical_left (map sample_digest [1, 130]) = map make_canonical_left (map sample_digest [129, 2])"
proof -
  have root: "merkle sample_hash (sample_digest 0) (map sample_digest [1, 130]) =
     merkle sample_hash (sample_digest 0) (map sample_digest [129, 2])"
    by code_simp
  have pairs: "hashed_pairs sample_hash (map sample_digest [1, 130]) = [make_canonical_pair (sample_digest 1) (sample_digest 130)]"
    "hashed_pairs sample_hash (map sample_digest [129, 2]) = [make_canonical_pair (sample_digest 1) (sample_digest 130)]"
    by code_simp+
  show ?thesis
    using merkle_root_binding [OF _ _ root] root unfolding pairs by simp
qed

end
