(* ===== verification/Block_Header.thy ===== *)
theory Block_Header
  imports Flat_Map Names Merkle
begin

text \<open>
  Block timestamps, producer schedules and block headers: \<open>block_timestamp.hpp\<close>,
  \<open>producer_schedule.hpp\<close>, \<open>block_header.hpp\<close> and \<open>block_header.cpp\<close>. What the code takes
  from \<open>fc\<close> (hash functions, public key recovery, default-constructed digests, keys and
  signatures, the byte reversal of a 32-bit integer) is the parameter record \<open>crypto\<close>. The
  flag of the key recovery that asks for a canonical signature is \<open>None\<close> where the code leaves
  it to its default.
\<close>

subsection \<open>Timestamps\<close>

text \<open>A timestamp is its slot; a time point is its count of microseconds.\<close>

type_synonym block_timestamp_type = u32

definition block_interval_ms :: u64 where
  "block_interval_ms = 500"

definition block_timestamp_epoch :: u64 where
  "block_timestamp_epoch = 946684800000"

definition timestamp_maximum :: block_timestamp_type where
  "timestamp_maximum = 0xffff"

definition timestamp_next :: "block_timestamp_type \<Rightarrow> block_timestamp_type result" where
  "timestamp_next slot = EOS_ASSERT (0xFFFFFFFF - slot \<ge> 1) fc_overflow_exception (Inr (slot + 1))"

definition to_time_point :: "block_timestamp_type \<Rightarrow> i64" where
  "to_time_point slot = (let msec = ucast slot * block_interval_ms; msec = msec + block_timestamp_epoch in msec * 1000)"

text \<open>The microseconds are divided as signed integers, the milliseconds as unsigned ones.\<close>

definition set_time_point :: "i64 \<Rightarrow> block_timestamp_type" where
  "set_time_point t =
     (let msec_since_epoch = word_of_int (sint t div 1000 + (if sint t < 0 \<and> sint t mod 1000 \<noteq> 0 then 1 else 0)) :: u64
      in ucast ((msec_since_epoch - block_timestamp_epoch) div block_interval_ms))"

definition set_time_point_sec :: "u32 \<Rightarrow> block_timestamp_type" where
  "set_time_point_sec sec =
     ucast ((ucast sec * 1000 - block_timestamp_epoch) div block_interval_ms :: u64)"

subsection \<open>Producer schedules\<close>

type_synonym public_key_type = "u8 list"
type_synonym signature_type = "u8 list"

record producer_key =
  producer_name :: account_name
  block_signing_key :: public_key_type

record producer_schedule_type =
  version :: u32
  schedule_consensus_type :: i64
  producers :: "producer_key list"

definition empty_schedule :: producer_schedule_type where
  "empty_schedule = \<lparr>version = 0, schedule_consensus_type = 0, producers = []\<rparr>"

definition producer_key_eq :: "producer_key \<Rightarrow> producer_key \<Rightarrow> bool" where
  "producer_key_eq lhs rhs \<longleftrightarrow>
     producer_name lhs = producer_name rhs \<and> block_signing_key lhs = block_signing_key rhs"

fun get_producer_key_loop :: "public_key_type \<Rightarrow> account_name \<Rightarrow> producer_key list \<Rightarrow> public_key_type" where
  "get_producer_key_loop null p [] = null"
| "get_producer_key_loop null p (i # is) =
     (if producer_name i = p then block_signing_key i else get_producer_key_loop null p is)"

definition get_producer_key :: "public_key_type \<Rightarrow> producer_schedule_type \<Rightarrow> account_name \<Rightarrow> public_key_type" where
  "get_producer_key null s p = get_producer_key_loop null p (producers s)"

definition schedule_eq :: "producer_schedule_type \<Rightarrow> producer_schedule_type \<Rightarrow> bool" where
  "schedule_eq a b \<longleftrightarrow>
     version a = version b \<and> length (producers a) = length (producers b) \<and>
     list_all (\<lambda>i. producer_key_eq (producers a ! i) (producers b ! i)) [0..<length (producers a)]"

subsection \<open>Headers\<close>

type_synonym block_id_type = digest_type

record block_header =
  timestamp :: block_timestamp_type
  producer :: account_name
  confirmed :: u16
  previous :: block_id_type
  transaction_mroot :: digest_type
  action_mroot :: digest_type
  schedule_version :: u32
  header_consensus_type :: i64
  new_producers :: "producer_schedule_type option"
  header_extensions :: "(u16 \<times> u8 list) list"

record signed_block_header = block_header +
  producer_signature :: signature_type

record header_confirmation =
  conf_block_id :: block_id_type
  conf_producer :: account_name
  conf_signature :: signature_type

record crypto =
  hash_header :: "block_header \<Rightarrow> digest_type"
  hash_schedule :: "producer_schedule_type \<Rightarrow> digest_type"
  hash_pair :: pair_hash
  recover_key :: "signature_type \<Rightarrow> digest_type \<Rightarrow> bool option \<Rightarrow> public_key_type result"
  null_digest :: digest_type
  null_key :: public_key_type
  null_signature :: signature_type
  endian_reverse_u32 :: "u32 \<Rightarrow> u32"

definition header_digest :: "crypto \<Rightarrow> signed_block_header \<Rightarrow> digest_type" where
  "header_digest cr h = hash_header cr (block_header.truncate h)"

definition num_from_id :: "crypto \<Rightarrow> block_id_type \<Rightarrow> u32" where
  "num_from_id cr i = endian_reverse_u32 cr (ucast (hash0 i))"

definition header_block_num :: "crypto \<Rightarrow> signed_block_header \<Rightarrow> u32" where
  "header_block_num cr h = num_from_id cr (previous h) + 1"

definition header_id :: "crypto \<Rightarrow> signed_block_header \<Rightarrow> block_id_type" where
  "header_id cr h =
     (let result = header_digest cr h;
          result = result\<lparr>hash0 := hash0 result AND 0xffffffff00000000\<rparr>
      in result\<lparr>hash0 := hash0 result + ucast (endian_reverse_u32 cr (header_block_num cr h))\<rparr>)"

subsection \<open>Facts\<close>

lemma mask_low_add: "(ucast ((x AND 0xffffffff00000000) + ucast (y :: u32) :: u64) :: u32) = y"
proof -
  have disj: "(x AND 0xffffffff00000000) AND (ucast y :: u64) = 0"
  proof (rule bit_word_eqI)
    fix n assume "n < LENGTH(64)"
    have m: "(0xffffffff00000000 :: u64) = push_bit 32 (mask 32)" by (simp add: mask_eq_exp_minus_1)
    show "bit ((x AND 0xffffffff00000000) AND (ucast y :: u64)) n = bit (0 :: u64) n"
      unfolding m by (auto simp: bit_and_iff bit_push_bit_iff bit_unsigned_iff dest: bit_imp_le_length)
  qed
  have "(x AND 0xffffffff00000000) + (ucast y :: u64) = (x AND 0xffffffff00000000) OR ucast y"
    using disj by (rule disjunctive_add_eq_or)
  moreover have "(ucast ((x AND 0xffffffff00000000) OR (ucast y :: u64)) :: u32) = y"
  proof (rule bit_word_eqI)
    fix n assume "n < LENGTH(32)"
    have m: "(0xffffffff00000000 :: u64) = push_bit 32 (mask 32)" by (simp add: mask_eq_exp_minus_1)
    from \<open>n < LENGTH(32)\<close> show "bit (ucast ((x AND 0xffffffff00000000) OR (ucast y :: u64)) :: u32) n = bit y n"
      unfolding m by (auto simp: bit_unsigned_iff bit_or_iff bit_and_iff bit_push_bit_iff)
  qed
  ultimately show ?thesis by simp
qed

lemma schedule_eq_iff: "schedule_eq a b \<longleftrightarrow> version a = version b \<and> producers a = producers b"
proof -
  have "producer_key_eq x y \<longleftrightarrow> x = y" for x y :: producer_key
    by (cases x; cases y) (simp add: producer_key_eq_def)
  then show ?thesis
    by (simp add: schedule_eq_def list_all_iff list_eq_iff_nth_eq [of "producers a" "producers b"] Ball_def)
qed

lemma sint_to_time_point: "sint (to_time_point slot) = (uint slot * 500 + 946684800000) * 1000"
proof -
  have b: "0 \<le> uint slot" "uint slot < 2 ^ 32" using uint_bounded [of slot] by auto
  have "to_time_point slot = word_of_int ((uint slot * 500 + 946684800000) * 1000)"
    by (simp add: to_time_point_def Let_def block_interval_ms_def block_timestamp_epoch_def)
  then have "sint (to_time_point slot) = signed_take_bit 63 ((uint slot * 500 + 946684800000) * 1000)"
    by (simp only: sint_sbintrunc') simp
  also have "\<dots> = (uint slot * 500 + 946684800000) * 1000"
    by (rule signed_take_bit_int_eq_self) (use b in auto)
  finally show ?thesis .
qed

subsection \<open>Properties\<close>

text \<open>
  C22: the identifier of a block carries its number. For every header, the number read from the
  identifier is one more than the number read from the identifier of the previous block, given
  that reversing the bytes of a 32-bit integer twice gives the integer back.
\<close>

theorem block_num_of_id:
  assumes "\<And>x. endian_reverse_u32 cr (endian_reverse_u32 cr x) = x"
  shows "num_from_id cr (header_id cr h) = num_from_id cr (previous h) + 1"
  by (simp add: num_from_id_def header_id_def header_block_num_def Let_def mask_low_add assms)

definition byte_swap :: "u32 \<Rightarrow> u32" where
  "byte_swap x = push_bit 24 (x AND 0xFF) OR push_bit 8 (x AND 0xFF00) OR
     (drop_bit 8 x AND 0xFF00) OR (drop_bit 24 x AND 0xFF)"

lemma byte_swap_byte_swap: "byte_swap (byte_swap x) = x"
proof (rule bit_word_eqI)
  fix n assume n: "n < LENGTH(32)"
  have masks: "(0xFF :: u32) = mask 8" "(0xFF00 :: u32) = push_bit 8 (mask 8)" by (simp_all add: mask_eq_exp_minus_1)
  have swap: "bit (byte_swap y) i \<longleftrightarrow>
      (24 \<le> i \<and> i < 32 \<and> bit y (i - 24)) \<or> (16 \<le> i \<and> i < 24 \<and> bit y (i - 8)) \<or>
      (8 \<le> i \<and> i < 16 \<and> bit y (i + 8)) \<or> (i < 8 \<and> bit y (i + 24))" for y i
  proof -
    consider "i < 8" | "8 \<le> i" "i < 16" | "16 \<le> i" "i < 24" | "24 \<le> i" "i < 32" | "32 \<le> i" by linarith
    then show ?thesis
      unfolding byte_swap_def masks by cases (auto simp: bit_simps add.commute [of 8] add.commute [of 24])
  qed
  consider "n < 8" | "8 \<le> n" "n < 16" | "16 \<le> n" "n < 24" | "24 \<le> n" by linarith
  then show "bit (byte_swap (byte_swap x)) n = bit x n"
    using n by cases (auto simp: swap)
qed

definition sample_crypto :: crypto where
  "sample_crypto =
     \<lparr>hash_header = (\<lambda>h. (sample_digest (hash0 (previous h)))\<lparr>hash1 := ucast (timestamp h)\<rparr>),
      hash_schedule = (\<lambda>s. sample_digest (ucast (version s))),
      hash_pair = sample_hash,
      recover_key = (\<lambda>s d c. Inr s),
      null_digest = sample_digest 0, null_key = [], null_signature = [],
      endian_reverse_u32 = byte_swap\<rparr>"

definition sample_header :: signed_block_header where
  "sample_header = \<lparr>timestamp = 7, producer = 1, confirmed = 0, previous = sample_digest 0x05000000,
     transaction_mroot = sample_digest 0, action_mroot = sample_digest 0, schedule_version = 0,
     header_consensus_type = 0, new_producers = None, header_extensions = [], producer_signature = []\<rparr>"

theorem block_num_of_id_witness: "num_from_id sample_crypto (header_id sample_crypto sample_header) = 6"
proof -
  have "endian_reverse_u32 sample_crypto (endian_reverse_u32 sample_crypto x) = x" for x
    by (simp add: sample_crypto_def byte_swap_byte_swap)
  then have "num_from_id sample_crypto (header_id sample_crypto sample_header) =
      num_from_id sample_crypto (previous sample_header) + 1"
    by (rule block_num_of_id)
  also have "\<dots> = 6"
    by (simp add: sample_header_def num_from_id_def sample_crypto_def sample_digest_def byte_swap_def)
  finally show ?thesis .
qed

text \<open>converting a timestamp to a time point and back gives the timestamp.\<close>

theorem timestamp_roundtrip: "set_time_point (to_time_point slot) = slot"
proof -
  have b: "0 \<le> uint slot" "uint slot < 2 ^ 32" using uint_bounded [of slot] by auto
  have "(sint (to_time_point slot) div 1000) = uint slot * 500 + 946684800000"
    and "sint (to_time_point slot) \<ge> 0"
    unfolding sint_to_time_point using b by simp_all
  then have "set_time_point (to_time_point slot) =
      ucast ((word_of_int (uint slot * 500 + 946684800000) - 946684800000) div 500 :: u64)"
    by (simp add: set_time_point_def Let_def block_timestamp_epoch_def block_interval_ms_def)
  also have "word_of_int (uint slot * 500 + 946684800000) - 946684800000 = (word_of_int (uint slot * 500) :: u64)"
    by simp
  also have "word_of_int (uint slot * 500) div (500 :: u64) = word_of_int (uint slot)"
  proof (rule word_uint_eqI)
    have "uint (word_of_int (uint slot * 500) :: u64) = uint slot * 500"
      unfolding uint_word_of_int using b by (intro mod_pos_pos_trivial) auto
    moreover have "uint (word_of_int (uint slot) :: u64) = uint slot"
      unfolding uint_word_of_int using b by (intro mod_pos_pos_trivial) auto
    ultimately show "uint (word_of_int (uint slot * 500) div (500 :: u64)) = uint (word_of_int (uint slot) :: u64)"
      by (simp add: uint_div)
  qed
  finally show ?thesis by (simp add: ucast_up_ucast_id is_up)
qed

end
