(* ===== verification/Block_Header_State.thy ===== *)
theory Block_Header_State
  imports Block_Header
begin

text \<open>
  The block header state: \<open>block_header_state.hpp\<close> and \<open>block_header_state.cpp\<close>. Each state is
  computed from the state of the previous block and a signed header; it carries the producer
  schedules, the confirmation counts of the recent blocks and the irreversible block numbers they
  imply. The model has one definition per member function; a member function that changes the
  object returns the changed record.
\<close>

subsection \<open>The state\<close>

record block_header_state =
  block_id :: block_id_type
  block_num :: u32
  header :: signed_block_header
  dpos_proposed_irreversible_blocknum :: u32
  dpos_irreversible_blocknum :: u32
  bft_irreversible_blocknum :: u32
  pending_schedule_lib_num :: u32
  pending_schedule_hash :: digest_type
  pending_schedule :: producer_schedule_type
  active_schedule :: producer_schedule_type
  blockroot_merkle :: incremental_merkle
  producer_to_last_produced :: "(account_name, u32) flat_map"
  producer_to_last_implied_irb :: "(account_name, u32) flat_map"
  signing_key :: public_key_type
  confirm_count :: "u8 list"
  confirmations :: "header_confirmation list"

definition producer_repetitions :: nat where
  "producer_repetitions = 12"

definition maximum_tracked_dpos_confirmations :: nat where
  "maximum_tracked_dpos_confirmations = 1024"

definition default_header :: "crypto \<Rightarrow> signed_block_header" where
  "default_header cr =
     \<lparr>timestamp = 0, producer = 0, confirmed = 1, previous = null_digest cr,
      transaction_mroot = null_digest cr, action_mroot = null_digest cr, schedule_version = 0,
      header_consensus_type = 0, new_producers = None, header_extensions = [],
      producer_signature = null_signature cr\<rparr>"

definition default_header_state :: "crypto \<Rightarrow> block_header_state" where
  "default_header_state cr =
     \<lparr>block_id = null_digest cr, block_num = 0, header = default_header cr,
      dpos_proposed_irreversible_blocknum = 0, dpos_irreversible_blocknum = 0, bft_irreversible_blocknum = 0,
      pending_schedule_lib_num = 0, pending_schedule_hash = null_digest cr,
      pending_schedule = empty_schedule, active_schedule = empty_schedule, blockroot_merkle = empty_merkle,
      producer_to_last_produced = [], producer_to_last_implied_irb = [], signing_key = null_key cr,
      confirm_count = [], confirmations = []\<rparr>"

definition has_pending_producers :: "block_header_state \<Rightarrow> bool" where
  "has_pending_producers s \<longleftrightarrow> length (producers (pending_schedule s)) \<noteq> 0"

definition is_active_producer :: "block_header_state \<Rightarrow> account_name \<Rightarrow> bool" where
  "is_active_producer s n \<longleftrightarrow> fm_lookup (producer_to_last_produced s) n \<noteq> None"

text \<open>An empty schedule makes the modulus zero.\<close>

definition get_scheduled_producer :: "block_header_state \<Rightarrow> block_timestamp_type \<Rightarrow> producer_key result" where
  "get_scheduled_producer s t =
     (if length (producers (active_schedule s)) = 0 then Inl undefined_behavior
      else
        let index = unat t mod (length (producers (active_schedule s)) * producer_repetitions);
            index = index div producer_repetitions
        in Inr (producers (active_schedule s) ! index))"

definition calc_dpos_last_irreversible :: "block_header_state \<Rightarrow> u32" where
  "calc_dpos_last_irreversible s =
     (let blocknums = fm_values (producer_to_last_implied_irb s)
      in if length blocknums = 0 then 0 else sort blocknums ! ((length blocknums - 1) div 3))"

subsection \<open>The next state\<close>

definition required_confirmations :: "producer_schedule_type \<Rightarrow> u32" where
  "required_confirmations sched =
     (let num_active_producers = length (producers sched) in
      if schedule_consensus_type sched = 0 then of_nat (num_active_producers * 2 div 3) + 1
      else if schedule_consensus_type sched = 1 then of_nat (num_active_producers div 2) + 1
      else if schedule_consensus_type sched = 2 then of_nat (num_active_producers div 3) + 1
      else of_nat (num_active_producers * 2 div 3) + 1)"

definition grow_confirm_count :: "u8 \<Rightarrow> u8 list \<Rightarrow> u8 list" where
  "grow_confirm_count required_confs cc =
     (if length cc < maximum_tracked_dpos_confirmations then cc @ [required_confs]
      else tl cc @ [required_confs])"

definition generate_next :: "crypto \<Rightarrow> block_timestamp_type \<Rightarrow> block_header_state \<Rightarrow> block_header_state result" where
  "generate_next cr w s =
     ebind (if w \<noteq> 0
            then EOS_ASSERT (w > timestamp (header s)) block_validate_exception (Inr w)
            else Inr (timestamp (header s) + 1)) (\<lambda>w.
     ebind (get_scheduled_producer s w) (\<lambda>prokey.
     ebind (merkle_append (hash_pair cr) (block_id s) (blockroot_merkle s)) (\<lambda>bm.
     let h = (default_header cr)
               \<lparr>timestamp := w, previous := block_id s, schedule_version := version (active_schedule s),
                header_consensus_type := schedule_consensus_type (active_schedule s),
                producer := producer_name prokey\<rparr>;
         result = (default_header_state cr)
               \<lparr>header := h, signing_key := block_signing_key prokey,
                pending_schedule_lib_num := pending_schedule_lib_num s,
                pending_schedule_hash := pending_schedule_hash s,
                block_num := block_num s + 1,
                producer_to_last_produced :=
                  fm_update (producer_name prokey) (block_num s + 1) (producer_to_last_produced s),
                blockroot_merkle := bm,
                active_schedule := active_schedule s, pending_schedule := pending_schedule s,
                dpos_proposed_irreversible_blocknum := dpos_proposed_irreversible_blocknum s,
                bft_irreversible_blocknum := bft_irreversible_blocknum s,
                producer_to_last_implied_irb :=
                  fm_update (producer_name prokey) (dpos_proposed_irreversible_blocknum s) (producer_to_last_implied_irb s)\<rparr>;
         result = result\<lparr>dpos_irreversible_blocknum := calc_dpos_last_irreversible result\<rparr>
     in Inr (result\<lparr>confirm_count :=
          grow_confirm_count (ucast (required_confirmations (active_schedule s))) (confirm_count s)\<rparr>))))"

text \<open>
  Promoting the pending schedule: the vector of producers is moved out of it, so it is left empty.
\<close>

definition carry_over :: "u32 \<Rightarrow> producer_key list \<Rightarrow> (account_name, u32) flat_map \<Rightarrow> (account_name, u32) flat_map" where
  "carry_over lib pros old =
     fold (\<lambda>pro m. fm_update (producer_name pro)
        (case fm_lookup old (producer_name pro) of Some n \<Rightarrow> n | None \<Rightarrow> lib) m) pros []"

definition maybe_promote_pending :: "block_header_state \<Rightarrow> bool \<times> block_header_state" where
  "maybe_promote_pending s =
     (if length (producers (pending_schedule s)) \<noteq> 0 \<and>
         dpos_irreversible_blocknum s \<ge> pending_schedule_lib_num s
      then
        let act = pending_schedule s;
            produced = carry_over (dpos_irreversible_blocknum s) (producers act) (producer_to_last_produced s);
            implied = carry_over (dpos_irreversible_blocknum s) (producers act) (producer_to_last_implied_irb s)
        in (True, s\<lparr>active_schedule := act, pending_schedule := act\<lparr>producers := []\<rparr>,
                    producer_to_last_produced := fm_update (producer (header s)) (block_num s) produced,
                    producer_to_last_implied_irb := implied\<rparr>)
      else (False, s))"

definition set_new_producers :: "crypto \<Rightarrow> producer_schedule_type \<Rightarrow> block_header_state \<Rightarrow> block_header_state result" where
  "set_new_producers cr pending s =
     EOS_ASSERT (version pending = version (active_schedule s) + 1) producer_schedule_exception
     (EOS_ASSERT (length (producers (pending_schedule s)) = 0) producer_schedule_exception
     (Inr (s\<lparr>header := (header s)\<lparr>new_producers := Some pending\<rparr>,
            pending_schedule_hash := hash_schedule cr pending,
            pending_schedule := pending,
            pending_schedule_lib_num := block_num s\<rparr>)))"

fun set_confirmed_loop :: "nat \<Rightarrow> u32 \<Rightarrow> block_header_state \<Rightarrow> block_header_state" where
  "set_confirmed_loop 0 blocks_to_confirm s = s"
| "set_confirmed_loop (Suc i) blocks_to_confirm s =
     (if blocks_to_confirm = 0 then s
      else
        let cc = (confirm_count s)[i := confirm_count s ! i - 1] in
        if cc ! i = 0 then
          s\<lparr>dpos_proposed_irreversible_blocknum := block_num s - of_nat (length cc - 1 - i),
            confirm_count := drop (Suc i) cc\<rparr>
        else set_confirmed_loop i (blocks_to_confirm - 1) (s\<lparr>confirm_count := cc\<rparr>))"

definition set_confirmed :: "u16 \<Rightarrow> block_header_state \<Rightarrow> block_header_state" where
  "set_confirmed num_prev_blocks s =
     (let s = s\<lparr>header := (header s)\<lparr>confirmed := num_prev_blocks\<rparr>\<rparr>
      in set_confirmed_loop (length (confirm_count s)) (ucast num_prev_blocks + 1) s)"

definition sig_digest :: "crypto \<Rightarrow> block_header_state \<Rightarrow> digest_type result" where
  "sig_digest cr s =
     ebind (get_root (null_digest cr) (blockroot_merkle s)) (\<lambda>root.
     let header_bmroot = hash_pair cr (header_digest cr (header s), root)
     in Inr (hash_pair cr (header_bmroot, pending_schedule_hash s)))"

definition sign :: "crypto \<Rightarrow> (digest_type \<Rightarrow> signature_type) \<Rightarrow> block_header_state \<Rightarrow> block_header_state result" where
  "sign cr signer s =
     ebind (sig_digest cr s) (\<lambda>d.
     let s = s\<lparr>header := (header s)\<lparr>producer_signature := signer d\<rparr>\<rparr> in
     ebind (recover_key cr (producer_signature (header s)) d None) (\<lambda>key.
     EOS_ASSERT (signing_key s = key) wrong_signing_key (Inr s)))"

definition signee :: "crypto \<Rightarrow> block_header_state \<Rightarrow> public_key_type result" where
  "signee cr s =
     ebind (sig_digest cr s) (\<lambda>d. recover_key cr (producer_signature (header s)) d (Some True))"

definition verify_signee :: "public_key_type \<Rightarrow> block_header_state \<Rightarrow> unit result" where
  "verify_signee key s = EOS_ASSERT (signing_key s = key) wrong_signing_key (Inr ())"

definition add_confirmation :: "crypto \<Rightarrow> header_confirmation \<Rightarrow> block_header_state \<Rightarrow> block_header_state result" where
  "add_confirmation cr conf s =
     EOS_ASSERT (list_all (\<lambda>c. conf_producer c \<noteq> conf_producer conf) (confirmations s)) producer_double_confirm
     (let key = get_producer_key (null_key cr) (active_schedule s) (conf_producer conf) in
      EOS_ASSERT (key \<noteq> null_key cr) producer_not_in_schedule
      (ebind (sig_digest cr s) (\<lambda>d.
       ebind (recover_key cr (conf_signature conf) d (Some True)) (\<lambda>signer.
       EOS_ASSERT (signer = key) wrong_signing_key
       (Inr (s\<lparr>confirmations := confirmations s @ [conf]\<rparr>))))))"

definition finish_header :: "crypto \<Rightarrow> signed_block_header \<Rightarrow> block_header_state \<Rightarrow> block_header_state" where
  "finish_header cr h result =
     (let result = result\<lparr>header := (header result)\<lparr>action_mroot := action_mroot h,
            transaction_mroot := transaction_mroot h, producer_signature := producer_signature h\<rparr>\<rparr>
      in result\<lparr>block_id := header_id cr (header result)\<rparr>)"

definition next_state :: "crypto \<Rightarrow> signed_block_header \<Rightarrow> bool \<Rightarrow> block_header_state \<Rightarrow> block_header_state result" where
  "next_state cr h skip_validate_signee s =
     EOS_ASSERT (timestamp h \<noteq> 0) block_validate_exception
     (EOS_ASSERT (length (header_extensions h) = 0) block_validate_exception
     (EOS_ASSERT (timestamp h > timestamp (header s)) block_validate_exception
     (EOS_ASSERT (previous h = block_id s) unlinkable_block_exception
     (ebind (generate_next cr (timestamp h) s) (\<lambda>result.
      EOS_ASSERT (producer (header result) = producer h) wrong_producer
      (EOS_ASSERT (schedule_version (header result) = schedule_version h) producer_schedule_exception
      (EOS_ASSERT (case fm_lookup (producer_to_last_produced s) (producer h) of
                     Some n \<Rightarrow> n < block_num result - ucast (confirmed h) | None \<Rightarrow> True) producer_double_confirm
      (let result = set_confirmed (confirmed h) result;
           (was_pending_promoted, result) = maybe_promote_pending result
       in ebind (case new_producers h of
                   Some np \<Rightarrow> EOS_ASSERT (\<not> was_pending_promoted) producer_schedule_exception
                                (set_new_producers cr np result)
                 | None \<Rightarrow> Inr result) (\<lambda>result.
          let result = finish_header cr h result
          in if \<not> skip_validate_signee
             then ebind (signee cr result) (\<lambda>key. ebind (verify_signee key result) (\<lambda>_. Inr result))
             else Inr result)))))))))"

subsection \<open>Quorums and the schedule\<close>

lemma sorted_nth_counts:
  fixes xs :: "'a::linorder list"
  assumes "sorted xs" and "k < length xs"
  shows "length xs - k \<le> length (filter (\<lambda>v. xs ! k \<le> v) xs)"
    and "xs ! k < x \<Longrightarrow> length (filter (\<lambda>v. x \<le> v) xs) + k + 1 \<le> length xs"
proof -
  have above: "\<forall>v \<in> set (drop k xs). xs ! k \<le> v"
    using assms by (auto simp: in_set_conv_nth sorted_nth_mono)
  have "filter (\<lambda>v. xs ! k \<le> v) xs = filter (\<lambda>v. xs ! k \<le> v) (take k xs) @ filter (\<lambda>v. xs ! k \<le> v) (drop k xs)"
    by (metis append_take_drop_id filter_append)
  with above show "length xs - k \<le> length (filter (\<lambda>v. xs ! k \<le> v) xs)" by simp
  assume x: "xs ! k < x"
  have "xs ! i < x" if "i \<le> k" for i
    using sorted_nth_mono [OF assms(1) that assms(2)] x by simp
  then have below: "\<forall>v \<in> set (take (k + 1) xs). \<not> x \<le> v"
    by (auto simp: in_set_conv_nth not_le less_Suc_eq_le)
  have "filter (\<lambda>v. x \<le> v) xs = filter (\<lambda>v. x \<le> v) (take (k + 1) xs) @ filter (\<lambda>v. x \<le> v) (drop (k + 1) xs)"
    by (metis append_take_drop_id filter_append)
  with below have "length (filter (\<lambda>v. x \<le> v) xs) = length (filter (\<lambda>v. x \<le> v) (drop (k + 1) xs))" by simp
  also have "\<dots> \<le> length xs - (k + 1)" by (metis length_drop length_filter_le)
  finally show "length (filter (\<lambda>v. x \<le> v) xs) + k + 1 \<le> length xs" using assms(2) by simp
qed

lemma length_filter_sort: "length (filter P (sort xs)) = length (filter P xs)"
  by (simp add: filter_sort)

lemma calc_dpos_quorum:
  fixes s :: block_header_state
  defines "vs \<equiv> fm_values (producer_to_last_implied_irb s)" and "lib \<equiv> calc_dpos_last_irreversible s"
  assumes "vs \<noteq> []"
  shows "lib \<in> set vs" and "2 * length vs < 3 * length (filter (\<lambda>v. lib \<le> v) vs)"
    and "lib < x \<Longrightarrow> 3 * length (filter (\<lambda>v. x \<le> v) vs) \<le> 2 * length vs"
proof -
  let ?k = "(length vs - 1) div 3"
  have k: "?k < length (sort vs)" using assms(3) by (cases vs) simp_all
  have lib: "lib = sort vs ! ?k" using assms(3) by (simp add: lib_def calc_dpos_last_irreversible_def vs_def Let_def)
  show "lib \<in> set vs" unfolding lib using nth_mem [OF k] by simp
  note count = sorted_nth_counts [OF sorted_sort k, folded lib, unfolded length_filter_sort length_sort]
  show "2 * length vs < 3 * length (filter (\<lambda>v. lib \<le> v) vs)"
    using count(1) k by simp
  show "3 * length (filter (\<lambda>v. x \<le> v) vs) \<le> 2 * length vs" if "lib < x"
    using count(2) [OF that] by simp
qed

lemma mod_mult_div: "(t mod (n * m)) div m = (t div m) mod n" for t n m :: nat
  by (cases "m = 0") (simp_all add: mult.commute [of n] mod_mult2_eq)

subsection \<open>Confirmations\<close>

text \<open>
  The blocks within reach of \<open>n\<close> confirmations that need one more: their counts drop to zero.
\<close>

definition confirm_hits :: "u8 list \<Rightarrow> nat \<Rightarrow> nat \<Rightarrow> nat set" where
  "confirm_hits cc k n = {j. j < k \<and> k \<le> j + n \<and> cc ! j = 1}"

lemma confirm_hits_finite [simp]: "finite (confirm_hits cc k n)"
  by (rule finite_subset [of _ "{..<k}"]) (auto simp: confirm_hits_def)

lemma confirm_hits_Suc:
  "confirm_hits cc (Suc k) (Suc n) = (if cc ! k = 1 then insert k (confirm_hits cc k n) else confirm_hits cc k n)"
  by (auto simp: confirm_hits_def less_Suc_eq)

lemma confirm_hits_0 [simp]: "confirm_hits cc k 0 = {}" "confirm_hits cc 0 n = {}"
  by (auto simp: confirm_hits_def)

definition confirm_result :: "u8 list \<Rightarrow> nat \<Rightarrow> nat \<Rightarrow> block_header_state \<Rightarrow> block_header_state" where
  "confirm_result cc k n s =
     (if confirm_hits cc k n = {}
      then s\<lparr>confirm_count := take (k - n) cc @ map (\<lambda>c. c - 1) (drop (k - n) cc)\<rparr>
      else s\<lparr>dpos_proposed_irreversible_blocknum := block_num s - of_nat (length cc - 1 - Max (confirm_hits cc k n)),
             confirm_count := map (\<lambda>c. c - 1) (drop (Suc (Max (confirm_hits cc k n))) cc)\<rparr>)"

lemma set_confirmed_loop_result:
  assumes "k \<le> length cc" and "confirm_count s = take k cc @ map (\<lambda>c. c - 1) (drop k cc)"
  shows "set_confirmed_loop k n s = confirm_result cc k (unat n) s"
  using assms
proof (induction k arbitrary: n s)
  case 0
  then show ?case by (simp add: confirm_result_def)
next
  case (Suc k)
  show ?case
  proof (cases "n = 0")
    case True
    then show ?thesis using Suc.prems by (simp add: confirm_result_def)
  next
    case False
    then have n: "unat n = Suc (unat (n - 1))" by (simp add: unat_minus_one unat_gt_0)
    have k: "k < length cc" using Suc.prems(1) by simp
    let ?cc = "(confirm_count s)[k := confirm_count s ! k - 1]"
    have at: "confirm_count s ! k = cc ! k" using Suc.prems k by (simp add: nth_append)
    have cc: "?cc = take k cc @ map (\<lambda>c. c - 1) (drop k cc)"
    proof (rule nth_equalityI)
      show "length ?cc = length (take k cc @ map (\<lambda>c. c - 1) (drop k cc))" using Suc.prems k by simp
      fix j assume "j < length ?cc"
      then show "?cc ! j = (take k cc @ map (\<lambda>c. c - 1) (drop k cc)) ! j"
        using Suc.prems k at by (auto simp: nth_append nth_list_update)
    qed
    have len: "length ?cc = length cc" using Suc.prems k by simp
    show ?thesis
    proof (cases "cc ! k = 1")
      case True
      have "Max (insert k (confirm_hits cc k (unat (n - 1)))) = k"
        by (rule Max_eqI) (auto simp: confirm_hits_def)
      moreover have "drop (Suc k) ?cc = map (\<lambda>c. c - 1) (drop (Suc k) cc)"
        using k by (simp add: cc drop_map)
      moreover have "?cc ! k = 0" using True at k len by simp
      ultimately show ?thesis
        using False True len by (simp add: confirm_result_def n confirm_hits_Suc Let_def)
    next
      case no: False
      then have "?cc ! k \<noteq> 0" using at k len by simp
      then have "set_confirmed_loop (Suc k) n s = set_confirmed_loop k (n - 1) (s\<lparr>confirm_count := ?cc\<rparr>)"
        using False by (simp add: Let_def)
      also have "\<dots> = confirm_result cc k (unat (n - 1)) (s\<lparr>confirm_count := ?cc\<rparr>)"
        by (rule Suc.IH) (use k cc in simp_all)
      also have "\<dots> = confirm_result cc (Suc k) (unat n) s"
        using no by (simp add: confirm_result_def n confirm_hits_Suc)
      finally show ?thesis .
    qed
  qed
qed

lemma set_confirmed_result:
  "set_confirmed n s = confirm_result (confirm_count s) (length (confirm_count s)) (unat n + 1)
     (s\<lparr>header := (header s)\<lparr>confirmed := n\<rparr>\<rparr>)"
proof -
  have "unat (ucast n + 1 :: u32) = unat n + 1"
    using unat_u16_bound [of n] by (subst unat_add_no_overflow) auto
  then show ?thesis
    unfolding set_confirmed_def Let_def by (subst set_confirmed_loop_result) simp_all
qed

subsection \<open>The invariant\<close>

text \<open>
  \<open>ids\<close> are the identifiers of all blocks before the state's block. Confirmation counts are
  kept only for blocks after the proposed irreversible one; implied irreversible numbers never
  exceed it; the block number never runs ahead of the clock, so it does not wrap.
\<close>

definition schedule_names :: "producer_schedule_type \<Rightarrow> account_name set" where
  "schedule_names sched = producer_name ` set (producers sched)"

definition implied_ok :: "block_header_state \<Rightarrow> bool" where
  "implied_ok s \<longleftrightarrow> fm_ok (producer_to_last_implied_irb s) \<and> fm_ok (producer_to_last_produced s) \<and>
     (\<forall>p v. fm_lookup (producer_to_last_implied_irb s) p = Some v \<longrightarrow>
        p \<in> schedule_names (active_schedule s) \<and> v \<le> dpos_proposed_irreversible_blocknum s) \<and>
     dpos_irreversible_blocknum s \<le> dpos_proposed_irreversible_blocknum s"

definition counts_ok :: "block_header_state \<Rightarrow> bool" where
  "counts_ok s \<longleftrightarrow> length (confirm_count s) \<le> maximum_tracked_dpos_confirmations \<and>
     unat (dpos_proposed_irreversible_blocknum s) + length (confirm_count s) \<le> unat (block_num s)"

definition bhs_inv :: "crypto \<Rightarrow> block_id_type list \<Rightarrow> block_header_state \<Rightarrow> bool" where
  "bhs_inv cr ids s \<longleftrightarrow> implied_ok s \<and> counts_ok s \<and> producers (active_schedule s) \<noteq> [] \<and>
     unat (block_num s) \<le> unat (timestamp (header s)) \<and>
     length ids \<le> unat (block_num s) \<and>
     merkle_ok (hash_pair cr) (null_digest cr) ids (blockroot_merkle s)"

lemma get_scheduled_producer_Inr:
  "get_scheduled_producer s t = Inr pk \<longleftrightarrow> producers (active_schedule s) \<noteq> [] \<and>
     pk = producers (active_schedule s) ! (unat t div 12 mod length (producers (active_schedule s)))"
  by (auto simp: get_scheduled_producer_def Let_def producer_repetitions_def mod_mult_div)

lemma scheduled_producer_in_schedule:
  assumes "get_scheduled_producer s t = Inr pk"
  shows "pk \<in> set (producers (active_schedule s))"
  using assms by (simp add: get_scheduled_producer_Inr)

text \<open>What \<open>generate_next\<close> returns, field by field.\<close>

lemma generate_next_Inr:
  assumes "generate_next cr w s = Inr r"
  obtains t pk bm where "t = (if w \<noteq> 0 then w else timestamp (header s) + 1)"
    and "w \<noteq> 0 \<Longrightarrow> timestamp (header s) < w"
    and "get_scheduled_producer s t = Inr pk"
    and "merkle_append (hash_pair cr) (block_id s) (blockroot_merkle s) = Inr bm"
    and "header r = (default_header cr)\<lparr>timestamp := t, previous := block_id s,
           schedule_version := version (active_schedule s),
           header_consensus_type := schedule_consensus_type (active_schedule s), producer := producer_name pk\<rparr>"
    and "signing_key r = block_signing_key pk" and "block_num r = block_num s + 1"
    and "blockroot_merkle r = bm" and "active_schedule r = active_schedule s"
    and "pending_schedule r = pending_schedule s" and "pending_schedule_lib_num r = pending_schedule_lib_num s"
    and "pending_schedule_hash r = pending_schedule_hash s"
    and "dpos_proposed_irreversible_blocknum r = dpos_proposed_irreversible_blocknum s"
    and "producer_to_last_produced r = fm_update (producer_name pk) (block_num s + 1) (producer_to_last_produced s)"
    and "producer_to_last_implied_irb r =
           fm_update (producer_name pk) (dpos_proposed_irreversible_blocknum s) (producer_to_last_implied_irb s)"
    and "dpos_irreversible_blocknum r = calc_dpos_last_irreversible r"
    and "confirm_count r = grow_confirm_count (ucast (required_confirmations (active_schedule s))) (confirm_count s)"
    and "confirmations r = []" and "bft_irreversible_blocknum r = bft_irreversible_blocknum s"
  using assms unfolding generate_next_def
  by (auto simp: exc_simps Let_def calc_dpos_last_irreversible_def default_header_state_def split: if_splits)

lemma fm_values_lookup: "fm_ok m \<Longrightarrow> v \<in> set (fm_values m) \<longleftrightarrow> (\<exists>k. fm_lookup m k = Some v)"
  by (force simp: fm_values_def fm_lookup_in_set)

lemma calc_dpos_bound:
  assumes "fm_ok (producer_to_last_implied_irb s)"
    and "\<And>p v. fm_lookup (producer_to_last_implied_irb s) p = Some v \<Longrightarrow> v \<le> b"
  shows "calc_dpos_last_irreversible s \<le> b"
proof (cases "fm_values (producer_to_last_implied_irb s) = []")
  case True
  then show ?thesis by (simp add: calc_dpos_last_irreversible_def)
next
  case False
  then have "calc_dpos_last_irreversible s \<in> set (fm_values (producer_to_last_implied_irb s))"
    by (rule calc_dpos_quorum)
  with assms show ?thesis by (auto simp: fm_values_lookup)
qed

lemma generate_next_inv:
  assumes "generate_next cr w s = Inr r" and "w \<noteq> 0" and "bhs_inv cr ids s"
  shows "bhs_inv cr (ids @ [block_id s]) r" and "unat (block_num r) = unat (block_num s) + 1"
  using assms(1)
proof (atomize(full), rule generate_next_Inr)
  fix t pk bm
  assume t: "t = (if w \<noteq> 0 then w else timestamp (header s) + 1)"
    and later: "w \<noteq> 0 \<Longrightarrow> timestamp (header s) < w"
    and pk: "get_scheduled_producer s t = Inr pk"
    and bm: "merkle_append (hash_pair cr) (block_id s) (blockroot_merkle s) = Inr bm"
    and h: "header r = (default_header cr)\<lparr>timestamp := t, previous := block_id s,
           schedule_version := version (active_schedule s),
           header_consensus_type := schedule_consensus_type (active_schedule s), producer := producer_name pk\<rparr>"
    and num: "block_num r = block_num s + 1" and mroot: "blockroot_merkle r = bm"
    and sched: "active_schedule r = active_schedule s"
    and propd: "dpos_proposed_irreversible_blocknum r = dpos_proposed_irreversible_blocknum s"
    and prod: "producer_to_last_produced r = fm_update (producer_name pk) (block_num s + 1) (producer_to_last_produced s)"
    and irb: "producer_to_last_implied_irb r =
           fm_update (producer_name pk) (dpos_proposed_irreversible_blocknum s) (producer_to_last_implied_irb s)"
    and lib: "dpos_irreversible_blocknum r = calc_dpos_last_irreversible r"
    and cc: "confirm_count r = grow_confirm_count (ucast (required_confirmations (active_schedule s))) (confirm_count s)"
  have inv: "implied_ok s" "counts_ok s" "producers (active_schedule s) \<noteq> []"
    "unat (block_num s) \<le> unat (timestamp (header s))" "length ids \<le> unat (block_num s)"
    "merkle_ok (hash_pair cr) (null_digest cr) ids (blockroot_merkle s)"
    using assms(3) by (simp_all add: bhs_inv_def)
  have w: "unat (timestamp (header s)) < unat w" "t = w" using later t assms(2) by (simp_all add: word_less_nat_alt)
  then have n: "unat (block_num r) = unat (block_num s) + 1"
    using inv(4) unat_u32_bound [of w] num by (simp add: unat_add_no_overflow)
  have name: "producer_name pk \<in> schedule_names (active_schedule s)"
    using scheduled_producer_in_schedule [OF pk] by (simp add: schedule_names_def)
  have "merkle_ok (hash_pair cr) (null_digest cr) (ids @ [block_id s]) bm"
    using merkle_ok_append [OF inv(6), of "block_id s"] inv(5) unat_u32_bound [of "block_num s"] bm by auto
  moreover have "counts_ok r"
    using inv(2) n by (auto simp: counts_ok_def propd cc grow_confirm_count_def maximum_tracked_dpos_confirmations_def)
  moreover have irb_ok: "fm_ok (producer_to_last_implied_irb r)" "fm_ok (producer_to_last_produced r)"
    "\<And>p v. fm_lookup (producer_to_last_implied_irb r) p = Some v \<Longrightarrow>
      p \<in> schedule_names (active_schedule s) \<and> v \<le> dpos_proposed_irreversible_blocknum s"
    using inv(1) name by (auto simp: implied_ok_def irb prod fm_laws split: if_splits)
  moreover have "dpos_irreversible_blocknum r \<le> dpos_proposed_irreversible_blocknum s"
    unfolding lib using irb_ok by (intro calc_dpos_bound) blast+
  ultimately have "bhs_inv cr (ids @ [block_id s]) r"
    using inv n w by (auto simp: bhs_inv_def implied_ok_def propd sched mroot h)
  with n show "bhs_inv cr (ids @ [block_id s]) r \<and> unat (block_num r) = unat (block_num s) + 1" by simp
qed

lemma set_confirmed_inv:
  assumes "bhs_inv cr ids s"
  shows "bhs_inv cr ids (set_confirmed n s)"
    and "dpos_proposed_irreversible_blocknum s \<le> dpos_proposed_irreversible_blocknum (set_confirmed n s)"
proof -
  let ?cc = "confirm_count s" and ?s = "set_confirmed n s"
  let ?hits = "confirm_hits ?cc (length ?cc) (unat n + 1)"
  have inv: "implied_ok s" "counts_ok s" using assms by (simp_all add: bhs_inv_def)
  have *: "counts_ok ?s \<and> dpos_proposed_irreversible_blocknum s \<le> dpos_proposed_irreversible_blocknum ?s"
  proof (cases "?hits = {}")
    case True
    then show ?thesis using inv(2) by (simp add: set_confirmed_result confirm_result_def counts_ok_def)
  next
    case False
    let ?m = "Max ?hits"
    have m: "?m < length ?cc" using Max_in [of ?hits] False by (auto simp: confirm_hits_def)
    let ?d = "length ?cc - 1 - ?m"
    have bound: "unat (dpos_proposed_irreversible_blocknum s) + length ?cc \<le> unat (block_num s)"
      using inv(2) by (simp add: counts_ok_def)
    then have "?d < 2 ^ 32" using m unat_u32_bound [of "block_num s"] by linarith
    then have "unat (of_nat ?d :: u32) = ?d" by (simp add: unat_of_nat)
    then have "unat (block_num s - of_nat ?d) = unat (block_num s) - ?d"
      using bound m by (subst unat_sub) (auto simp: word_le_nat_alt)
    then show ?thesis
      using False m bound inv(2)
      by (auto simp: set_confirmed_result confirm_result_def counts_ok_def word_le_nat_alt)
  qed
  then show "dpos_proposed_irreversible_blocknum s \<le> dpos_proposed_irreversible_blocknum ?s" ..
  have frame: "producer_to_last_implied_irb ?s = producer_to_last_implied_irb s"
    "producer_to_last_produced ?s = producer_to_last_produced s" "active_schedule ?s = active_schedule s"
    "dpos_irreversible_blocknum ?s = dpos_irreversible_blocknum s" "block_num ?s = block_num s"
    "blockroot_merkle ?s = blockroot_merkle s" "timestamp (header ?s) = timestamp (header s)"
    by (simp_all add: set_confirmed_result confirm_result_def)
  have "implied_ok ?s"
    using inv(1) * unfolding implied_ok_def frame by (meson order_trans)
  with * assms show "bhs_inv cr ids ?s" by (simp add: bhs_inv_def frame)
qed

lemma carry_over_lookup:
  "fm_ok (carry_over lib pros old) \<and>
   fm_lookup (carry_over lib pros old) p =
     (if p \<in> producer_name ` set pros
      then Some (case fm_lookup old p of Some n \<Rightarrow> n | None \<Rightarrow> lib) else None)"
proof (induction pros rule: rev_induct)
  case Nil
  then show ?case by (simp add: carry_over_def fm_laws)
next
  case (snoc pro pros)
  then show ?case by (auto simp: carry_over_def fm_laws)
qed

lemma promote_inv:
  assumes "bhs_inv cr ids s" and "maybe_promote_pending s = (b, s')"
  shows "bhs_inv cr ids s'" and "b \<Longrightarrow>
    {p. fm_lookup (producer_to_last_implied_irb s') p \<noteq> None} = schedule_names (active_schedule s')"
proof -
  have inv: "implied_ok s" "counts_ok s" using assms by (simp_all add: bhs_inv_def)
  show "bhs_inv cr ids s'"
  proof (cases b)
    case False
    then show ?thesis using assms by (auto simp: maybe_promote_pending_def Let_def split: if_splits)
  next
    case True
    then have s': "s' = s\<lparr>active_schedule := pending_schedule s, pending_schedule := (pending_schedule s)\<lparr>producers := []\<rparr>,
        producer_to_last_produced := fm_update (producer (header s)) (block_num s)
          (carry_over (dpos_irreversible_blocknum s) (producers (pending_schedule s)) (producer_to_last_produced s)),
        producer_to_last_implied_irb :=
          carry_over (dpos_irreversible_blocknum s) (producers (pending_schedule s)) (producer_to_last_implied_irb s)\<rparr>"
      and ne: "producers (pending_schedule s) \<noteq> []"
      using assms(2) by (auto simp: maybe_promote_pending_def Let_def split: if_splits)
    have "implied_ok s'"
      using inv(1) by (auto simp: implied_ok_def s' carry_over_lookup fm_laws schedule_names_def split: if_splits option.splits)
    then show ?thesis using assms(1) ne by (simp add: bhs_inv_def s' counts_ok_def)
  qed
  show "{p. fm_lookup (producer_to_last_implied_irb s') p \<noteq> None} = schedule_names (active_schedule s')" if b
    using assms(2) that by (auto simp: maybe_promote_pending_def Let_def carry_over_lookup schedule_names_def split: if_splits)
qed

text \<open>The steps of \<open>next\<close>, with the checks it makes.\<close>

lemma next_state_steps:
  assumes "next_state cr h skip s = Inr s'"
  obtains r b q q' where "timestamp h \<noteq> 0" and "header_extensions h = []"
    and "timestamp (header s) < timestamp h" and "previous h = block_id s"
    and "generate_next cr (timestamp h) s = Inr r"
    and "producer (header r) = producer h" and "schedule_version (header r) = schedule_version h"
    and "\<And>n. fm_lookup (producer_to_last_produced s) (producer h) = Some n \<Longrightarrow> n < block_num r - ucast (confirmed h)"
    and "maybe_promote_pending (set_confirmed (confirmed h) r) = (b, q)"
    and "case new_producers h of None \<Rightarrow> q' = q | Some np \<Rightarrow> \<not> b \<and> set_new_producers cr np q = Inr q'"
    and "s' = finish_header cr h q'"
    and "\<not> skip \<Longrightarrow> signee cr s' = Inr (signing_key s')"
proof -
  obtain r where basic: "timestamp h \<noteq> 0" "header_extensions h = []"
    "timestamp (header s) < timestamp h" "previous h = block_id s" "generate_next cr (timestamp h) s = Inr r"
    "producer (header r) = producer h" "schedule_version (header r) = schedule_version h"
    and "case fm_lookup (producer_to_last_produced s) (producer h) of
        Some n \<Rightarrow> n < block_num r - ucast (confirmed h) | None \<Rightarrow> True"
    using assms by (auto simp: next_state_def exc_simps)
  then have dbl: "n < block_num r - ucast (confirmed h)"
    if "fm_lookup (producer_to_last_produced s) (producer h) = Some n" for n using that by simp
  obtain b q where q: "maybe_promote_pending (set_confirmed (confirmed h) r) = (b, q)" by fastforce
  obtain q' where np: "(case new_producers h of Some np \<Rightarrow> EOS_ASSERT (\<not> b) producer_schedule_exception
        (set_new_producers cr np q) | None \<Rightarrow> Inr q) = Inr q'"
    and fin: "(if \<not> skip then ebind (signee cr (finish_header cr h q'))
        (\<lambda>key. ebind (verify_signee key (finish_header cr h q')) (\<lambda>_. Inr (finish_header cr h q')))
       else Inr (finish_header cr h q')) = Inr s'"
    using assms basic(5) q unfolding next_state_def Let_def by (auto simp: exc_simps)
  show thesis
  proof (rule that [OF basic dbl q])
    show "case new_producers h of None \<Rightarrow> q' = q | Some np \<Rightarrow> \<not> b \<and> set_new_producers cr np q = Inr q'"
      using np by (auto simp: exc_simps split: option.splits)
    show s': "s' = finish_header cr h q'" using fin by (auto simp: exc_simps split: if_splits)
    show "signee cr s' = Inr (signing_key s')" if "\<not> skip"
      using fin that unfolding s' [symmetric] by (auto simp: exc_simps verify_signee_def)
  qed
qed

lemma set_new_producers_inv:
  assumes "bhs_inv cr ids s" and "set_new_producers cr np s = Inr s'"
  shows "bhs_inv cr ids s'"
  using assms by (auto simp: set_new_producers_def exc_simps bhs_inv_def implied_ok_def counts_ok_def)

lemma finish_header_inv: "bhs_inv cr ids q \<Longrightarrow> bhs_inv cr ids (finish_header cr h q)"
  by (simp add: finish_header_def Let_def bhs_inv_def implied_ok_def counts_ok_def)

lemma generate_next_fields:
  assumes "generate_next cr w s = Inr r" and "w \<noteq> 0"
  shows "timestamp (header r) = w \<and> previous (header r) = block_id s \<and>
    dpos_proposed_irreversible_blocknum r = dpos_proposed_irreversible_blocknum s"
    and "\<exists>pk. get_scheduled_producer s w = Inr pk \<and> producer (header r) = producer_name pk \<and>
      signing_key r = block_signing_key pk \<and> schedule_version (header r) = version (active_schedule s)"
  using assms(1) by (rule generate_next_Inr, simp add: assms(2))+

lemma next_state_inv:
  assumes "next_state cr h skip s = Inr s'" and "bhs_inv cr ids s"
  shows "bhs_inv cr (ids @ [block_id s]) s' \<and> unat (block_num s') = unat (block_num s) + 1 \<and>
    dpos_proposed_irreversible_blocknum s \<le> dpos_proposed_irreversible_blocknum s' \<and>
    timestamp (header s') = timestamp h \<and> previous (header s') = block_id s \<and> producer (header s') = producer h"
  using assms(1)
proof (rule next_state_steps)
  fix r b q q'
  assume ts: "timestamp h \<noteq> 0" and "previous h = block_id s"
    and gen: "generate_next cr (timestamp h) s = Inr r" and prod: "producer (header r) = producer h"
    and pro: "maybe_promote_pending (set_confirmed (confirmed h) r) = (b, q)"
    and new: "case new_producers h of None \<Rightarrow> q' = q | Some np \<Rightarrow> \<not> b \<and> set_new_producers cr np q = Inr q'"
    and fin: "s' = finish_header cr h q'"
  note g = generate_next_inv [OF gen ts assms(2)]
  have gh: "timestamp (header r) = timestamp h" "previous (header r) = block_id s"
    "dpos_proposed_irreversible_blocknum r = dpos_proposed_irreversible_blocknum s"
    using generate_next_fields(1) [OF gen ts] by simp_all
  let ?c = "set_confirmed (confirmed h) r"
  note c = set_confirmed_inv [OF g(1), of "confirmed h"]
  have cf: "block_num ?c = block_num r" "timestamp (header ?c) = timestamp (header r)"
    "previous (header ?c) = previous (header r)" "producer (header ?c) = producer (header r)"
    by (simp_all add: set_confirmed_result confirm_result_def)
  have q: "bhs_inv cr (ids @ [block_id s]) q" by (rule promote_inv(1) [OF c(1) pro])
  have qf: "block_num q = block_num ?c" "header q = header ?c"
    "dpos_proposed_irreversible_blocknum q = dpos_proposed_irreversible_blocknum ?c"
    using pro by (auto simp: maybe_promote_pending_def Let_def split: if_splits)
  have q': "bhs_inv cr (ids @ [block_id s]) q'" "block_num q' = block_num q"
    "timestamp (header q') = timestamp (header q)" "previous (header q') = previous (header q)"
    "producer (header q') = producer (header q)"
    "dpos_proposed_irreversible_blocknum q' = dpos_proposed_irreversible_blocknum q"
    using new q set_new_producers_inv [OF q]
    by (auto simp: set_new_producers_def exc_simps split: option.splits)
  have "bhs_inv cr (ids @ [block_id s]) s'"
    unfolding fin by (rule finish_header_inv [OF q'(1)])
  moreover have "unat (block_num s') = unat (block_num s) + 1" "timestamp (header s') = timestamp h"
    "previous (header s') = block_id s" "producer (header s') = producer h"
    "dpos_proposed_irreversible_blocknum s \<le> dpos_proposed_irreversible_blocknum s'"
    using g(2) gh prod cf qf q' c(2) by (simp_all add: fin finish_header_def Let_def)
  ultimately show ?thesis by simp
qed

subsection \<open>Chains of header states\<close>

text \<open>
  \<open>header_chain cr g ids s\<close>: the state \<open>s\<close> is reached from \<open>g\<close> by accepting signed headers;
  \<open>ids\<close> are the identifiers of the blocks from \<open>g\<close> up to the one before \<open>s\<close>.
\<close>

inductive header_chain :: "crypto \<Rightarrow> block_header_state \<Rightarrow> block_id_type list \<Rightarrow> block_header_state \<Rightarrow> bool"
  for cr g where
  start: "header_chain cr g [] g"
| accept: "header_chain cr g ids s \<Longrightarrow> next_state cr h skip s = Inr s' \<Longrightarrow>
    header_chain cr g (ids @ [block_id s]) s'"

definition genesis_ok :: "block_header_state \<Rightarrow> bool" where
  "genesis_ok g \<longleftrightarrow> producer_to_last_implied_irb g = [] \<and> producer_to_last_produced g = [] \<and>
     confirm_count g = [] \<and> dpos_irreversible_blocknum g = 0 \<and> dpos_proposed_irreversible_blocknum g = 0 \<and>
     blockroot_merkle g = empty_merkle \<and> producers (active_schedule g) \<noteq> [] \<and>
     unat (block_num g) \<le> unat (timestamp (header g))"

lemma genesis_inv: "genesis_ok g \<Longrightarrow> bhs_inv cr [] g"
  by (simp add: genesis_ok_def bhs_inv_def implied_ok_def counts_ok_def merkle_ok_empty fm_laws)

lemma header_chain_inv:
  assumes "header_chain cr g ids s" and "genesis_ok g"
  shows "bhs_inv cr ids s \<and> unat (block_num s) = unat (block_num g) + length ids"
  using assms
proof (induction rule: header_chain.induct)
  case start
  then show ?case by (simp add: genesis_inv)
next
  case (accept ids s h skip s')
  then show ?case using next_state_inv [OF accept(2)] by auto
qed

lemma implied_irb_lookup_grows:
  assumes "implied_ok s" and "fm_lookup (producer_to_last_implied_irb s) p = Some v"
    and "generate_next cr w s = Inr r"
  shows "\<exists>v'. fm_lookup (producer_to_last_implied_irb r) p = Some v' \<and> v \<le> v'"
  using assms(3)
  by (rule generate_next_Inr) (use assms(1,2) in \<open>auto simp: implied_ok_def fm_laws\<close>)

lemma fm_count:
  assumes "fm_ok m"
  shows "length (filter P (fm_values m)) = card {k. \<exists>v. fm_lookup m k = Some v \<and> P v}"
proof -
  let ?f = "filter (P \<circ> snd) m"
  have d: "distinct (map fst m)" using assms by (simp add: fm_ok_def strict_sorted_iff)
  have "distinct (map fst ?f)" using d by (simp add: distinct_map_filter)
  then have "length ?f = card (set (map fst ?f))" by (metis distinct_card length_map)
  also have "set (map fst ?f) = {k. \<exists>v. fm_lookup m k = Some v \<and> P v}"
    using assms by (force simp: fm_lookup_in_set)
  finally show ?thesis by (simp add: fm_values_def filter_map comp_def)
qed

lemma lib_grows:
  assumes "implied_ok s" and "{p. fm_lookup (producer_to_last_implied_irb s) p \<noteq> None} = schedule_names (active_schedule s)"
    and "generate_next cr w s = Inr r"
  shows "calc_dpos_last_irreversible s \<le> dpos_irreversible_blocknum r"
  using assms(3)
proof (rule generate_next_Inr)
  fix t pk
  assume pk: "get_scheduled_producer s t = Inr pk"
    and irb: "producer_to_last_implied_irb r =
           fm_update (producer_name pk) (dpos_proposed_irreversible_blocknum s) (producer_to_last_implied_irb s)"
    and lib: "dpos_irreversible_blocknum r = calc_dpos_last_irreversible r"
  let ?m = "producer_to_last_implied_irb s" and ?m' = "producer_to_last_implied_irb r"
  let ?L = "calc_dpos_last_irreversible s"
  have ok: "fm_ok ?m" "fm_ok ?m'" using assms(1) by (simp_all add: implied_ok_def irb fm_laws)
  have "producer_name pk \<in> schedule_names (active_schedule s)"
    using scheduled_producer_in_schedule [OF pk] by (simp add: schedule_names_def)
  then have dom: "{k. fm_lookup ?m' k \<noteq> None} = {k. fm_lookup ?m k \<noteq> None}"
    using assms(2) ok(1) by (auto simp: irb fm_laws split: if_splits)
  have len: "length (fm_values x) = card {k. fm_lookup x k \<noteq> None}" if "fm_ok x" for x :: "(account_name, u32) flat_map"
  proof -
    have "{k. \<exists>v. fm_lookup x k = Some v \<and> True} = {k. fm_lookup x k \<noteq> None}" by auto
    with fm_count [OF that, of "\<lambda>_. True"] show ?thesis by simp
  qed
  show ?thesis
  proof (cases "fm_values ?m = []")
    case True
    then show ?thesis by (simp add: calc_dpos_last_irreversible_def)
  next
    case False
    have fin: "finite {k. fm_lookup ?m' k \<noteq> None}" by (rule fm.finite_dom [OF ok(2)])
    have "length (filter (\<lambda>v. ?L \<le> v) (fm_values ?m)) \<le> length (filter (\<lambda>v. ?L \<le> v) (fm_values ?m'))"
      unfolding fm_count [OF ok(1)] fm_count [OF ok(2)]
    proof (rule card_mono)
      show "finite {k. \<exists>v. fm_lookup ?m' k = Some v \<and> ?L \<le> v}" by (rule finite_subset [OF _ fin]) auto
      show "{k. \<exists>v. fm_lookup ?m k = Some v \<and> ?L \<le> v} \<subseteq> {k. \<exists>v. fm_lookup ?m' k = Some v \<and> ?L \<le> v}"
        using implied_irb_lookup_grows [OF assms(1) _ assms(3)] by (blast intro: order_trans)
    qed
    moreover have "length (fm_values ?m') = length (fm_values ?m)" using len ok dom by simp
    ultimately have "2 * length (fm_values ?m') < 3 * length (filter (\<lambda>v. ?L \<le> v) (fm_values ?m'))"
      using calc_dpos_quorum(2) [OF False] by linarith
    moreover have "fm_values ?m' \<noteq> []" using False \<open>length (fm_values ?m') = length (fm_values ?m)\<close> by auto
    ultimately show ?thesis unfolding lib using calc_dpos_quorum(3) [of r ?L] by (meson not_le)
  qed
qed

subsection \<open>Properties\<close>

text \<open>
  C17: the irreversible block number that the producers' implied numbers determine is the largest
  number that more than two thirds of the producers have reached: it is one of the implied numbers,
  more than two thirds of them are at least that large, and for no larger number is that so.
\<close>

theorem dpos_irreversible_quorum:
  assumes "fm_values (producer_to_last_implied_irb s) \<noteq> []"
  defines "vs \<equiv> fm_values (producer_to_last_implied_irb s)" and "lib \<equiv> calc_dpos_last_irreversible s"
  shows "lib \<in> set vs \<and> 2 * length vs < 3 * length (filter (\<lambda>v. lib \<le> v) vs) \<and>
    (\<forall>x. lib < x \<longrightarrow> 3 * length (filter (\<lambda>v. x \<le> v) vs) \<le> 2 * length vs)"
  unfolding vs_def lib_def using calc_dpos_quorum [OF assms(1)] by blast

definition sample_producers :: "producer_schedule_type" where
  "sample_producers = \<lparr>version = 0, schedule_consensus_type = 0,
     producers = [\<lparr>producer_name = 1, block_signing_key = [1]\<rparr>, \<lparr>producer_name = 2, block_signing_key = [2]\<rparr>]\<rparr>"

definition sample_genesis :: block_header_state where
  "sample_genesis = (default_header_state sample_crypto)
     \<lparr>active_schedule := sample_producers, pending_schedule := sample_producers, block_num := 1,
      header := (default_header sample_crypto)\<lparr>timestamp := 1\<rparr>, block_id := sample_digest 0x01000000\<rparr>"

definition sample_next_header :: "block_timestamp_type \<Rightarrow> account_name \<Rightarrow> block_header_state \<Rightarrow> signed_block_header" where
  "sample_next_header t p s = (default_header sample_crypto)
     \<lparr>timestamp := t, producer := p, confirmed := 0, previous := block_id s, producer_signature := [ucast p]\<rparr>"

definition sample_chain :: "block_header_state result" where
  "sample_chain =
     ebind (next_state sample_crypto (sample_next_header 2 1 sample_genesis) False sample_genesis) (\<lambda>s.
     next_state sample_crypto (sample_next_header 12 2 s) False s)"

theorem dpos_irreversible_quorum_witness:
  "(let s = sample_genesis\<lparr>producer_to_last_implied_irb := [(1, 10), (2, 20), (3, 30), (4, 40)]\<rparr>
    in calc_dpos_last_irreversible s = 20 \<and>
      2 * 4 < 3 * length (filter (\<lambda>v. calc_dpos_last_irreversible s \<le> v) [10, 20, 30, 40]))"
proof -
  let ?s = "sample_genesis\<lparr>producer_to_last_implied_irb := [(1, 10), (2, 20), (3, 30), (4, 40)]\<rparr>"
  have "calc_dpos_last_irreversible ?s = 20" by code_simp
  with dpos_irreversible_quorum [of ?s] show ?thesis by (simp add: fm_values_def)
qed

text \<open>
  C8: along every chain of accepted headers the block number counts the blocks without wrapping,
  the root of the block tree is the Merkle root of the identifiers of all earlier blocks, the
  irreversible number is at most the proposed irreversible number, which is at most the block
  number, and at most 1024 confirmation counts are kept, all of blocks after the proposed one.
\<close>

theorem header_chain_invariant:
  assumes "header_chain cr g ids s" and "genesis_ok g"
  shows "unat (block_num s) = unat (block_num g) + length ids \<and>
    get_root (null_digest cr) (blockroot_merkle s) = Inr (merkle (hash_pair cr) (null_digest cr) ids) \<and>
    dpos_irreversible_blocknum s \<le> dpos_proposed_irreversible_blocknum s \<and>
    unat (dpos_proposed_irreversible_blocknum s) + length (confirm_count s) \<le> unat (block_num s) \<and>
    length (confirm_count s) \<le> 1024"
proof -
  have inv: "bhs_inv cr ids s" and num: "unat (block_num s) = unat (block_num g) + length ids"
    using header_chain_inv [OF assms] by simp_all
  have "merkle_ok (hash_pair cr) (null_digest cr) ids (blockroot_merkle s)" using inv by (simp add: bhs_inv_def)
  then have "get_root (null_digest cr) (blockroot_merkle s) = Inr (merkle (hash_pair cr) (null_digest cr) ids)"
    by (rule merkle_ok_root)
  with inv num show ?thesis
    by (simp add: bhs_inv_def implied_ok_def counts_ok_def maximum_tracked_dpos_confirmations_def)
qed

lemma sample_chain_reached:
  obtains ids s where "sample_chain = Inr s" and "header_chain sample_crypto sample_genesis ids s" and "length ids = 2"
proof -
  have "\<not> isl sample_chain" by code_simp
  then obtain s1 s where
    "next_state sample_crypto (sample_next_header 2 1 sample_genesis) False sample_genesis = Inr s1"
    "next_state sample_crypto (sample_next_header 12 2 s1) False s1 = Inr s" "sample_chain = Inr s"
    by (auto simp: not_isl_iff sample_chain_def exc_simps)
  then have "header_chain sample_crypto sample_genesis (([] @ [block_id sample_genesis]) @ [block_id s1]) s"
    by (intro header_chain.intros)
  with \<open>sample_chain = Inr s\<close> show thesis using that by simp
qed

lemma sample_genesis_ok: "genesis_ok sample_genesis"
  by (simp add: genesis_ok_def sample_genesis_def default_header_state_def sample_producers_def)

theorem header_chain_invariant_witness:
  "\<exists>ids s. sample_chain = Inr s \<and> unat (block_num s) = 3 \<and>
     get_root (null_digest sample_crypto) (blockroot_merkle s) =
       Inr (merkle (hash_pair sample_crypto) (null_digest sample_crypto) ids)"
proof -
  obtain ids s where "sample_chain = Inr s" "header_chain sample_crypto sample_genesis ids s" "length ids = 2"
    by (rule sample_chain_reached)
  with header_chain_invariant [OF _ sample_genesis_ok] show ?thesis
    by (force simp: sample_genesis_def)
qed


text \<open>
  C3: an accepted header comes from the producer whose turn it is. Each producer of the schedule
  has twelve consecutive slots; the header's producer is the one of its slot, it builds on the
  current block at a later slot, its signature recovers to that producer's key, and the range of
  blocks it confirms does not reach back to a block this producer signed before.
\<close>

theorem accepted_header_authentic:
  assumes "next_state cr h False s = Inr s'"
  defines "pk \<equiv> producers (active_schedule s) ! (unat (timestamp h) div 12 mod length (producers (active_schedule s)))"
  shows "producers (active_schedule s) \<noteq> [] \<and> producer h = producer_name pk \<and>
    previous h = block_id s \<and> timestamp (header s) < timestamp h \<and>
    schedule_version h = version (active_schedule s) \<and>
    (\<exists>d. sig_digest cr s' = Inr d \<and>
       recover_key cr (producer_signature h) d (Some True) = Inr (block_signing_key pk)) \<and>
    (\<forall>n. fm_lookup (producer_to_last_produced s) (producer h) = Some n \<longrightarrow>
       n < block_num s' - ucast (confirmed h))"
  using assms(1)
proof (rule next_state_steps)
  fix r b q q'
  assume ts: "timestamp h \<noteq> 0" and later: "timestamp (header s) < timestamp h" and link: "previous h = block_id s"
    and gen: "generate_next cr (timestamp h) s = Inr r" and prod: "producer (header r) = producer h"
    and ver: "schedule_version (header r) = schedule_version h"
    and dbl: "\<And>n. fm_lookup (producer_to_last_produced s) (producer h) = Some n \<Longrightarrow> n < block_num r - ucast (confirmed h)"
    and pro: "maybe_promote_pending (set_confirmed (confirmed h) r) = (b, q)"
    and new: "case new_producers h of None \<Rightarrow> q' = q | Some np \<Rightarrow> \<not> b \<and> set_new_producers cr np q = Inr q'"
    and fin: "s' = finish_header cr h q'"
    and sgn: "\<not> False \<Longrightarrow> signee cr s' = Inr (signing_key s')"
  have r: "producers (active_schedule s) \<noteq> []" "producer (header r) = producer_name pk"
    "signing_key r = block_signing_key pk" "schedule_version (header r) = version (active_schedule s)"
    using generate_next_fields(2) [OF gen ts] unfolding pk_def by (auto simp: get_scheduled_producer_Inr)
  have "signing_key s' = signing_key r" "block_num s' = block_num r" "producer_signature (header s') = producer_signature h"
    using pro new
    by (auto simp: fin finish_header_def Let_def maybe_promote_pending_def set_new_producers_def exc_simps
        set_confirmed_result confirm_result_def split: option.splits if_splits)
  then show ?thesis
    using r prod ver later link dbl sgn by (auto simp: signee_def exc_simps)
qed

theorem accepted_header_authentic_witness:
  "\<exists>s'. next_state sample_crypto (sample_next_header 2 1 sample_genesis) False sample_genesis = Inr s' \<and>
     (\<exists>d. sig_digest sample_crypto s' = Inr d \<and> recover_key sample_crypto [1] d (Some True) = Inr [1])"
proof -
  have "\<not> isl (next_state sample_crypto (sample_next_header 2 1 sample_genesis) False sample_genesis)" by code_simp
  then obtain s' where run: "next_state sample_crypto (sample_next_header 2 1 sample_genesis) False sample_genesis = Inr s'"
    by (auto simp: not_isl_iff)
  from accepted_header_authentic [OF this] run show ?thesis
    by (auto simp: sample_next_header_def sample_genesis_def default_header_state_def sample_producers_def)
qed



end
