(* ===== verification/Fork_Database.thy ===== *)
theory Fork_Database
  imports Block_Header_State
begin

text \<open>
  The fork database: \<open>fork_database.cpp\<close> and \<open>block_state.cpp\<close>. The container of block states is
  the list \<open>index\<close>; its identifier index is unique. The ordered indices are sorted by the keys
  the container declares; how they order blocks with equal keys is left open, it is the parameter
  \<open>index_ties\<close>. The head is a shared pointer, so an update of a block in the container is also an
  update of the head when it is that block. The signal for irreversible blocks appends to
  \<open>irreversible_signals\<close>. Reading the first element of an empty index, an erased iterator or a
  null block is undefined behaviour.
\<close>

subsection \<open>State\<close>

record block_state = block_header_state +
  blk :: signed_block_header
  validated :: bool
  in_current_chain :: bool

record index_ties =
  tie_num :: "block_id_type \<Rightarrow> nat"
  tie_lib :: "block_id_type \<Rightarrow> nat"
  tie_prev :: "block_id_type \<Rightarrow> nat"

record fork_db =
  index :: "block_state list"
  fork_head :: "block_state option"
  irreversible_signals :: "block_state list"

text \<open>Ascending block number, blocks of the current chain first.\<close>

definition num_key :: "index_ties \<Rightarrow> block_state \<Rightarrow> u32 \<times> bool \<times> nat" where
  "num_key t b = (block_num b, \<not> in_current_chain b, tie_num t (block_id b))"

definition by_block_num :: "index_ties \<Rightarrow> block_state list \<Rightarrow> block_state list" where
  "by_block_num t bs = sort_key (num_key t) bs"

text \<open>Descending irreversible numbers, then descending block number.\<close>

definition lib_key :: "block_state \<Rightarrow> int \<times> int \<times> int" where
  "lib_key b = (- uint (dpos_irreversible_blocknum b), - uint (bft_irreversible_blocknum b), - uint (block_num b))"

definition by_lib_block_num :: "index_ties \<Rightarrow> block_state list \<Rightarrow> block_state list" where
  "by_lib_block_num t bs = sort_key (\<lambda>b. (lib_key b, tie_lib t (block_id b))) bs"

definition by_prev :: "index_ties \<Rightarrow> block_id_type \<Rightarrow> block_state list \<Rightarrow> block_state list" where
  "by_prev t i bs = sort_key (\<lambda>b. tie_prev t (block_id b)) (filter (\<lambda>b. previous (header b) = i) bs)"

definition get_block :: "fork_db \<Rightarrow> block_id_type \<Rightarrow> block_state option" where
  "get_block db i = find (\<lambda>b. block_id b = i) (index db)"

definition index_insert :: "block_state \<Rightarrow> fork_db \<Rightarrow> bool \<times> fork_db" where
  "index_insert s db =
     (case get_block db (block_id s) of
        Some _ \<Rightarrow> (False, db)
      | None \<Rightarrow> (True, db\<lparr>index := index db @ [s]\<rparr>))"

definition begin_by_lib :: "index_ties \<Rightarrow> block_state list \<Rightarrow> block_state result" where
  "begin_by_lib t bs = (case by_lib_block_num t bs of [] \<Rightarrow> Inl undefined_behavior | b # _ \<Rightarrow> Inr b)"

text \<open>An update through a shared pointer reaches the container and the head.\<close>

definition modify_block :: "block_id_type \<Rightarrow> (block_state \<Rightarrow> block_state) \<Rightarrow> fork_db \<Rightarrow> fork_db" where
  "modify_block i f db =
     db\<lparr>index := map (\<lambda>b. if block_id b = i then f b else b) (index db),
        fork_head := map_option (\<lambda>b. if block_id b = i then f b else b) (fork_head db)\<rparr>"

subsection \<open>Inserting\<close>

definition block_state_of_header :: "block_header_state \<Rightarrow> signed_block_header \<Rightarrow> block_state" where
  "block_state_of_header s b = block_header_state.extend s (block_state.fields b False False)"

definition new_block_state ::
  "crypto \<Rightarrow> block_state \<Rightarrow> signed_block_header \<Rightarrow> bool \<Rightarrow> block_state result" where
  "new_block_state cr prev b skip_validate_signee =
     ebind (next_state cr b skip_validate_signee (block_header_state.truncate prev))
       (\<lambda>s. Inr (block_state_of_header s b))"

definition pending_block_state ::
  "crypto \<Rightarrow> block_state \<Rightarrow> block_timestamp_type \<Rightarrow> block_state result" where
  "pending_block_state cr prev w =
     ebind (generate_next cr w (block_header_state.truncate prev))
       (\<lambda>s. Inr (block_state_of_header s ((header s)\<lparr>producer_signature := null_signature cr\<rparr>)))"

text \<open>\<open>set\<close> inserts before it checks, so the insertion also stands when a check throws.\<close>

definition fork_set :: "crypto \<Rightarrow> block_state \<Rightarrow> fork_db \<Rightarrow> unit result \<times> fork_db" where
  "fork_set cr s db =
     (let (inserted, db) = index_insert s db in
      if block_id s \<noteq> header_id cr (header s) then (Inl fork_database_exception, db)
      else if \<not> inserted then (Inl fork_database_exception, db)
      else (Inr (),
        case fork_head db of
          None \<Rightarrow> db\<lparr>fork_head := Some s\<rparr>
        | Some h \<Rightarrow> if block_num h < block_num s then db\<lparr>fork_head := Some s\<rparr> else db))"

subsection \<open>Removing\<close>

text \<open>The queue of \<open>remove\<close>: the identifiers still to be visited, and the blocks left.\<close>

function remove_loop :: "index_ties \<Rightarrow> block_id_type list \<Rightarrow> block_state list \<Rightarrow> block_state list" where
  "remove_loop t [] bs = bs"
| "remove_loop t (i # queue) bs =
     (let bs' = filter (\<lambda>b. block_id b \<noteq> i) bs
      in remove_loop t (queue @ map block_id (by_prev t i bs')) bs')"
  by pat_completeness auto
termination
proof (relation "measures [\<lambda>(t, queue, bs). length bs, \<lambda>(t, queue, bs). length (filter (\<lambda>i. i \<notin> block_id ` set bs) queue)]")
  fix t i queue bs bs'
  assume bs': "bs' = filter (\<lambda>b. block_id b \<noteq> i) (bs :: block_state list)"
  have kids: "filter ((\<lambda>i. i \<notin> block_id ` set bs) \<circ> block_id) (by_prev t i bs') = []"
    by (auto simp: by_prev_def bs' filter_empty_conv)
  show "((t, queue @ map block_id (by_prev t i bs'), bs'), t, i # queue, bs) \<in>
    measures [\<lambda>(t, queue, bs). length bs, \<lambda>(t, queue, bs). length (filter (\<lambda>i. i \<notin> block_id ` set bs) queue)]"
  proof (cases "i \<in> block_id ` set bs")
    case True
    then have "length bs' < length bs" by (auto simp: bs' intro: length_filter_less)
    then show ?thesis by simp
  next
    case False
    then have "bs' = bs" by (auto simp: bs' filter_id_conv)
    with False kids show ?thesis by (simp add: filter_map)
  qed
qed simp

definition fork_remove :: "index_ties \<Rightarrow> block_id_type \<Rightarrow> fork_db \<Rightarrow> fork_db result" where
  "fork_remove t i db =
     (let bs = remove_loop t [i] (index db) in
      ebind (begin_by_lib t bs) (\<lambda>h. Inr (db\<lparr>index := bs, fork_head := Some h\<rparr>)))"

definition set_validity :: "index_ties \<Rightarrow> block_state \<Rightarrow> bool \<Rightarrow> fork_db \<Rightarrow> fork_db result" where
  "set_validity t h valid db =
     (if \<not> valid then fork_remove t (block_id h) db
      else Inr (modify_block (block_id h) (\<lambda>b. b\<lparr>validated := True\<rparr>) db))"

definition mark_in_current_chain :: "block_state \<Rightarrow> bool \<Rightarrow> fork_db \<Rightarrow> fork_db result" where
  "mark_in_current_chain h b db =
     (if in_current_chain h = b then Inr db
      else EOS_ASSERT (get_block db (block_id h) \<noteq> None) fork_db_block_not_found
        (Inr (modify_block (block_id h) (\<lambda>x. x\<lparr>in_current_chain := b\<rparr>) db)))"

subsection \<open>Pruning\<close>

text \<open>
  The last loop of \<open>prune\<close> steps an iterator past the block it removes; it is used again after
  \<open>remove\<close>, which may have erased the block it points to.
\<close>

fun element_after :: "'a \<Rightarrow> 'a list \<Rightarrow> 'a option" where
  "element_after x [] = None"
| "element_after x [y] = None"
| "element_after x (y # z # zs) = (if x = y then Some z else element_after x (z # zs))"

lemma remove_loop_subset: "set (remove_loop t queue bs) \<subseteq> set bs"
  by (induction t queue bs rule: remove_loop.induct) (auto simp: Let_def)

lemma length_remove_loop: "length (remove_loop t queue bs) \<le> length bs"
proof (induction t queue bs rule: remove_loop.induct)
  case (2 t i queue bs)
  then show ?case by (auto simp: Let_def intro: order_trans)
qed simp

lemma fork_remove_decreases:
  assumes "fork_remove t (block_id b) db = Inr db'" and "b \<in> set (index db)"
  shows "length (index db') < length (index db)"
proof -
  have "length (filter (\<lambda>x. block_id x \<noteq> block_id b) (index db)) < length (index db)"
    using assms(2) by (intro length_filter_less [of b]) auto
  moreover have "length (index db') \<le> length (filter (\<lambda>x. block_id x \<noteq> block_id b) (index db))"
    using assms(1) length_remove_loop by (auto simp: fork_remove_def Let_def exc_simps)
  ultimately show ?thesis by simp
qed

function prune_siblings :: "index_ties \<Rightarrow> u32 \<Rightarrow> block_state option \<Rightarrow> fork_db \<Rightarrow> fork_db result" where
  "prune_siblings t num None db = Inr db"
| "prune_siblings t num (Some b) db =
     (if b \<notin> set (index db) then Inl undefined_behavior
      else if block_num b \<noteq> num then Inr db
      else ebind (fork_remove t (block_id b) db)
             (prune_siblings t num (element_after b (by_block_num t (index db)))))"
  by pat_completeness auto
termination
  by (relation "measure (\<lambda>(t, num, b, db). length (index db))") (auto intro: fork_remove_decreases)

text \<open>
  \<open>prune_block\<close> is \<open>prune\<close> after its first loop. That loop prunes the first block of the number
  index while it is older than \<open>h\<close>; for the first block itself the loop does nothing, so each of
  its rounds is one \<open>prune_block\<close>.
\<close>

definition prune_block :: "index_ties \<Rightarrow> block_state \<Rightarrow> fork_db \<Rightarrow> fork_db result" where
  "prune_block t h db =
     (let num = block_num h;
          db = (case get_block db (block_id h) of
                  Some b \<Rightarrow> db\<lparr>index := filter (\<lambda>x. block_id x \<noteq> block_id h) (index db),
                             irreversible_signals := irreversible_signals db @ [b]\<rparr>
                | None \<Rightarrow> db)
      in prune_siblings t num (find (\<lambda>b. num \<le> block_num b) (by_block_num t (index db))) db)"

lemma prune_siblings_length:
  "prune_siblings t num it db = Inr db' \<Longrightarrow> length (index db') \<le> length (index db)"
proof (induction t num it db rule: prune_siblings.induct)
  case (2 t num b db)
  then show ?case
    using fork_remove_decreases by (fastforce simp: exc_simps split: if_splits)
qed simp

lemma prune_block_decreases:
  assumes "prune_block t b db = Inr db'" and "b \<in> set (index db)"
  shows "length (index db') < length (index db)"
proof -
  obtain x where x: "get_block db (block_id b) = Some x"
    using assms(2) by (cases "get_block db (block_id b)") (auto simp: get_block_def find_None_iff)
  have "length (filter (\<lambda>x. block_id x \<noteq> block_id b) (index db)) < length (index db)"
    using assms(2) by (intro length_filter_less [of b]) auto
  moreover have "length (index db') \<le> length (filter (\<lambda>x. block_id x \<noteq> block_id b) (index db))"
    using assms(1) x prune_siblings_length by (fastforce simp: prune_block_def Let_def)
  ultimately show ?thesis by simp
qed

lemma by_block_num_set [simp]: "set (by_block_num t bs) = set bs"
  by (simp add: by_block_num_def)

function prune_older :: "index_ties \<Rightarrow> u32 \<Rightarrow> fork_db \<Rightarrow> fork_db result" where
  "prune_older t num db =
     (case by_block_num t (index db) of
        [] \<Rightarrow> Inr db
      | b # _ \<Rightarrow> if block_num b < num then ebind (prune_block t b db) (prune_older t num) else Inr db)"
  by pat_completeness auto
termination
proof (relation "measure (\<lambda>(t, num, db). length (index db))")
  fix t num db b rest db'
  assume "by_block_num t (index db) = b # rest" "prune_block t b db = Inr db'"
  then show "((t, num, db'), t, num, db) \<in> measure (\<lambda>(t, num, db). length (index db))"
    using by_block_num_set [of t "index db"] by (auto intro: prune_block_decreases)
qed simp

declare prune_older.simps [simp del]

definition prune :: "index_ties \<Rightarrow> block_state \<Rightarrow> fork_db \<Rightarrow> fork_db result" where
  "prune t h db = ebind (prune_older t (block_num h) db) (prune_block t h)"

subsection \<open>Adding\<close>

definition add_block_state ::
  "index_ties \<Rightarrow> block_state option \<Rightarrow> bool \<Rightarrow> fork_db \<Rightarrow> (block_state \<times> fork_db) result" where
  "add_block_state t n skip_validate_previous db =
     (case n of None \<Rightarrow> Inl fork_database_exception | Some n \<Rightarrow>
      EOS_ASSERT (fork_head db \<noteq> None) fork_db_block_not_found
      (EOS_ASSERT (skip_validate_previous \<or> get_block db (previous (blk n)) \<noteq> None) unlinkable_block_exception
      (let (inserted, db) = index_insert n db in
       EOS_ASSERT inserted fork_database_exception
       (ebind (begin_by_lib t (index db)) (\<lambda>h.
        let db = db\<lparr>fork_head := Some h\<rparr>; lib = dpos_irreversible_blocknum h in
        case by_block_num t (index db) of
          [] \<Rightarrow> Inl undefined_behavior
        | oldest # _ \<Rightarrow>
            ebind (if block_num oldest < lib then prune t oldest db else Inr db) (\<lambda>db. Inr (n, db)))))))"

definition add_signed_block ::
  "crypto \<Rightarrow> index_ties \<Rightarrow> signed_block_header option \<Rightarrow> bool \<Rightarrow> fork_db \<Rightarrow> (block_state \<times> fork_db) result" where
  "add_signed_block cr t b skip_validate_signee db =
     (case b of None \<Rightarrow> Inl fork_database_exception | Some b \<Rightarrow>
      EOS_ASSERT (fork_head db \<noteq> None) fork_db_block_not_found
      (EOS_ASSERT (get_block db (header_id cr b) = None) fork_database_exception
      (case get_block db (previous b) of
         None \<Rightarrow> Inl unlinkable_block_exception
       | Some prior \<Rightarrow>
           ebind (new_block_state cr prior b skip_validate_signee) (\<lambda>result.
           add_block_state t (Some result) True db))))"

text \<open>Closing writes the blocks to a file; here only what happens to the database.\<close>

definition fork_close :: "index_ties \<Rightarrow> fork_db \<Rightarrow> fork_db result" where
  "fork_close t db =
     (if index db = [] then Inr db
      else case fork_head db of
        None \<Rightarrow> Inl undefined_behavior
      | Some h \<Rightarrow>
          (case by_block_num t (index db) of
             [] \<Rightarrow> Inl undefined_behavior
           | oldest # _ \<Rightarrow>
               ebind (if block_num oldest \<le> dpos_irreversible_blocknum h then prune t oldest db else Inr db)
                 (\<lambda>db. Inr (db\<lparr>index := []\<rparr>))))"

definition get_block_in_current_chain_by_num :: "index_ties \<Rightarrow> fork_db \<Rightarrow> u32 \<Rightarrow> block_state option" where
  "get_block_in_current_chain_by_num t db n =
     (case find (\<lambda>b. n \<le> block_num b) (by_block_num t (index db)) of
        None \<Rightarrow> None
      | Some b \<Rightarrow> if block_num b \<noteq> n \<or> \<not> in_current_chain b then None else Some b)"

subsection \<open>Confirmations\<close>

text \<open>One layer of the breadth-first search: the blocks whose number was raised.\<close>

definition bft_update_block :: "u32 \<Rightarrow> block_id_type \<Rightarrow> block_id_type list \<times> fork_db \<Rightarrow> block_id_type list \<times> fork_db" where
  "bft_update_block num i st =
     (let (updated, db) = st in
      case get_block db i of
        None \<Rightarrow> st
      | Some b \<Rightarrow>
          if bft_irreversible_blocknum b < num
          then (updated @ [block_id b], modify_block (block_id b) (\<lambda>x. x\<lparr>bft_irreversible_blocknum := num\<rparr>) db)
          else (updated, db))"

definition bft_update_children :: "index_ties \<Rightarrow> u32 \<Rightarrow> block_id_type \<Rightarrow> block_id_type list \<times> fork_db \<Rightarrow> block_id_type list \<times> fork_db" where
  "bft_update_children t num i st =
     fold (bft_update_block num) (map block_id (by_prev t i (index (snd st)))) st"

definition bft_update :: "index_ties \<Rightarrow> u32 \<Rightarrow> block_id_type list \<Rightarrow> fork_db \<Rightarrow> block_id_type list \<times> fork_db" where
  "bft_update t num ins db = fold (bft_update_children t num) ins ([], db)"

definition bft_below :: "u32 \<Rightarrow> fork_db \<Rightarrow> nat" where
  "bft_below num db = length (filter (\<lambda>b. bft_irreversible_blocknum b < num) (index db))"

lemma bft_below_modify:
  "bft_below num (modify_block i (\<lambda>x. x\<lparr>bft_irreversible_blocknum := num\<rparr>) db) \<le> bft_below num db"
  "b \<in> set (index db) \<Longrightarrow> bft_irreversible_blocknum b < num \<Longrightarrow>
     bft_below num (modify_block (block_id b) (\<lambda>x. x\<lparr>bft_irreversible_blocknum := num\<rparr>) db) < bft_below num db"
proof -
  have le: "length (filter (\<lambda>b. bft_irreversible_blocknum b < num)
      (map (\<lambda>b. if block_id b = i then b\<lparr>bft_irreversible_blocknum := num\<rparr> else b) bs)) \<le>
    length (filter (\<lambda>b. bft_irreversible_blocknum b < num) bs)" for bs :: "block_state list" and i
    by (induction bs) auto
  then show "bft_below num (modify_block i (\<lambda>x. x\<lparr>bft_irreversible_blocknum := num\<rparr>) db) \<le> bft_below num db"
    by (simp add: bft_below_def modify_block_def)
  assume b: "b \<in> set (index db)" "bft_irreversible_blocknum b < num"
  have "length (filter (\<lambda>b. bft_irreversible_blocknum b < num)
      (map (\<lambda>x. if block_id x = block_id b then x\<lparr>bft_irreversible_blocknum := num\<rparr> else x) bs)) <
    length (filter (\<lambda>b. bft_irreversible_blocknum b < num) bs)" if "b \<in> set bs" for bs :: "block_state list"
    using that
  proof (induction bs)
    case (Cons x bs)
    show ?case
    proof (cases "x = b")
      case True
      then show ?thesis using b(2) le [of "block_id b" bs] by simp
    next
      case False
      then show ?thesis using Cons by auto
    qed
  qed simp
  with b(1) show "bft_below num (modify_block (block_id b) (\<lambda>x. x\<lparr>bft_irreversible_blocknum := num\<rparr>) db) < bft_below num db"
    by (simp add: bft_below_def modify_block_def)
qed

lemma get_block_Some: "get_block db i = Some b \<Longrightarrow> b \<in> set (index db) \<and> block_id b = i"
  by (auto simp: get_block_def find_Some_iff)

lemma bft_update_block_measure:
  "bft_below num (snd (bft_update_block num i st)) + length (fst (bft_update_block num i st))
     \<le> bft_below num (snd st) + length (fst st)"
proof (cases "get_block (snd st) i")
  case None
  then show ?thesis by (simp add: bft_update_block_def case_prod_unfold Let_def)
next
  case (Some b)
  then show ?thesis
    using bft_below_modify(2) [of b "snd st" num] get_block_Some [OF Some]
    by (auto simp: bft_update_block_def case_prod_unfold Let_def)
qed

lemma fold_le_invariant:
  fixes m :: "'s \<Rightarrow> nat"
  assumes "\<And>x s. m (f x s) \<le> m s"
  shows "m (fold f xs s) \<le> m s"
  by (induction xs arbitrary: s) (auto intro: order_trans assms)

lemma bft_update_measure:
  "bft_below num (snd (bft_update t num ins db)) + length (fst (bft_update t num ins db)) \<le> bft_below num db"
proof -
  let ?m = "\<lambda>st :: block_id_type list \<times> fork_db. bft_below num (snd st) + length (fst st)"
  have step: "?m (bft_update_children t num i st) \<le> ?m st" for i st
    unfolding bft_update_children_def
    by (rule fold_le_invariant [where m = ?m]) (rule bft_update_block_measure)
  have "?m (fold (bft_update_children t num) ins ([], db)) \<le> ?m ([], db)"
    by (rule fold_le_invariant [where m = ?m]) (rule step)
  then show ?thesis by (simp add: bft_update_def)
qed

function bft_loop :: "index_ties \<Rightarrow> u32 \<Rightarrow> block_id_type list \<Rightarrow> fork_db \<Rightarrow> fork_db" where
  "bft_loop t num queue db =
     (if queue = [] then db
      else let (queue', db') = bft_update t num queue db in bft_loop t num queue' db')"
  by pat_completeness auto
termination
proof (relation "measure (\<lambda>(t, num, queue, db). 2 * bft_below num db + (if queue = [] then 0 else 1))")
  fix t num queue db x queue' db'
  assume "queue \<noteq> []" "x = bft_update t num queue db" "(queue', db') = x"
  then have "bft_below num db' + length queue' \<le> bft_below num db"
    using bft_update_measure [of num t queue db] by (metis fst_conv snd_conv)
  then show "((t, num, queue', db'), t, num, queue, db) \<in>
      measure (\<lambda>(t, num, queue, db). 2 * bft_below num db + (if queue = [] then 0 else 1))"
    using \<open>queue \<noteq> []\<close> by (cases queue') auto
qed simp

declare bft_loop.simps [simp del]

definition set_bft_irreversible :: "index_ties \<Rightarrow> block_id_type \<Rightarrow> fork_db \<Rightarrow> fork_db result" where
  "set_bft_irreversible t i db =
     (case get_block db i of
        None \<Rightarrow> Inl undefined_behavior
      | Some b \<Rightarrow>
          let num = block_num b;
              db = modify_block i (\<lambda>x. x\<lparr>bft_irreversible_blocknum := block_num x\<rparr>) db
          in Inr (bft_loop t num [i] db))"

definition add_header_confirmation ::
  "crypto \<Rightarrow> index_ties \<Rightarrow> header_confirmation \<Rightarrow> fork_db \<Rightarrow> fork_db result" where
  "add_header_confirmation cr t c db =
     (case get_block db (conf_block_id c) of
        None \<Rightarrow> Inl fork_db_block_not_found
      | Some b \<Rightarrow>
          ebind (add_confirmation cr c (block_header_state.truncate b)) (\<lambda>s.
          let db = modify_block (block_id b) (\<lambda>x. x\<lparr>confirmations := confirmations s\<rparr>) db in
          if bft_irreversible_blocknum b < block_num b \<and>
             length (confirmations s) \<ge> length (producers (active_schedule b)) * 2 div 3 + 1
          then set_bft_irreversible t (conf_block_id c) db
          else Inr db))"

subsection \<open>Branches\<close>

text \<open>
  The loops of \<open>fetch_branch_from\<close> follow \<open>previous\<close> links and need not end on arbitrary data;
  not ending is \<open>None\<close>. The message of each assertion dereferences the pointer that the
  assertion found to be null.
\<close>

partial_function (option) walk_down ::
  "fork_db \<Rightarrow> u32 \<Rightarrow> block_state \<Rightarrow> block_state list \<Rightarrow> (block_state \<times> block_state list) result option" where
  "walk_down db num b acc =
     (if block_num b > num then
        (case get_block db (previous (header b)) of
           None \<Rightarrow> Some (Inl undefined_behavior)
         | Some b' \<Rightarrow> walk_down db num b' (acc @ [b]))
      else Some (Inr (b, acc)))"

partial_function (option) walk_both ::
  "fork_db \<Rightarrow> block_state \<Rightarrow> block_state \<Rightarrow> block_state list \<Rightarrow> block_state list \<Rightarrow>
   (block_state list \<times> block_state list) result option" where
  "walk_both db b c bs cs =
     (if previous (header b) \<noteq> previous (header c) then
        (case get_block db (previous (header b)) of
           None \<Rightarrow> Some (Inl undefined_behavior)
         | Some b' \<Rightarrow>
             (case get_block db (previous (header c)) of
                None \<Rightarrow> Some (Inl undefined_behavior)
              | Some c' \<Rightarrow> walk_both db b' c' (bs @ [b]) (cs @ [c])))
      else Some (Inr (bs @ [b], cs @ [c])))"

definition fetch_branch_from ::
  "fork_db \<Rightarrow> block_id_type \<Rightarrow> block_id_type \<Rightarrow> (block_state list \<times> block_state list) result option" where
  "fetch_branch_from db first second =
     (case get_block db first of None \<Rightarrow> Some (Inl undefined_behavior) | Some b \<Rightarrow>
      case get_block db second of None \<Rightarrow> Some (Inl undefined_behavior) | Some c \<Rightarrow>
      case walk_down db (block_num c) b [] of None \<Rightarrow> None | Some (Inl e) \<Rightarrow> Some (Inl e) | Some (Inr (b', bs)) \<Rightarrow>
      case walk_down db (block_num b') c [] of None \<Rightarrow> None | Some (Inl e) \<Rightarrow> Some (Inl e) | Some (Inr (c', cs)) \<Rightarrow>
      walk_both db b' c' bs cs)"

subsection \<open>Removal takes a subtree\<close>

text \<open>\<open>below roots bs b\<close>: block \<open>b\<close> is one of the roots or builds on one, within \<open>bs\<close>.\<close>

inductive below :: "block_id_type set \<Rightarrow> block_state list \<Rightarrow> block_state \<Rightarrow> bool" for roots bs where
  root: "b \<in> set bs \<Longrightarrow> block_id b \<in> roots \<Longrightarrow> below roots bs b"
| child: "b \<in> set bs \<Longrightarrow> previous (header b) \<in> roots \<Longrightarrow> below roots bs b"
| step: "below roots bs p \<Longrightarrow> b \<in> set bs \<Longrightarrow> previous (header b) = block_id p \<Longrightarrow> below roots bs b"

lemma below_in: "below roots bs b \<Longrightarrow> b \<in> set bs"
  by (induction rule: below.induct)

definition ids_distinct :: "block_state list \<Rightarrow> bool" where
  "ids_distinct bs \<longleftrightarrow> distinct (map block_id bs)"

lemma ids_distinct_unique: "ids_distinct bs \<Longrightarrow> b \<in> set bs \<Longrightarrow> c \<in> set bs \<Longrightarrow> block_id b = block_id c \<Longrightarrow> b = c"
  by (auto simp: ids_distinct_def distinct_map dest: inj_onD)

lemma ids_distinct_filter: "ids_distinct bs \<Longrightarrow> ids_distinct (filter P bs)"
  by (simp add: ids_distinct_def distinct_map_filter)

lemma below_visit:
  fixes bs :: "block_state list"
  defines "bs' i \<equiv> filter (\<lambda>b. block_id b \<noteq> i) bs"
  assumes d: "ids_distinct bs" and b: "b \<in> set (bs' i)"
  shows "below (insert i R) bs b \<longleftrightarrow> below (R \<union> block_id ` {k \<in> set (bs' i). previous (header k) = i}) (bs' i) b"
    (is "?l \<longleftrightarrow> below ?K ?bs b")
proof
  assume ?l
  then show "below ?K ?bs b" using b
  proof (induction rule: below.induct)
    case (root b)
    then show ?case by (auto simp: bs'_def intro: below.root)
  next
    case (child b)
    then show ?case by (auto intro: below.root below.child)
  next
    case (step p b)
    show ?case
    proof (cases "block_id p = i")
      case True
      then have "block_id b \<in> ?K" using step.hyps step.prems by auto
      with step.prems show ?thesis by (rule below.root)
    next
      case False
      then have "p \<in> set ?bs" using below_in [OF step.hyps(1)] by (simp add: bs'_def)
      with step show ?thesis by (blast intro: below.step)
    qed
  qed
next
  have kid: "below (insert i R) bs k" if kin: "k \<in> set bs" and kk: "block_id k \<in> block_id ` {k \<in> set ?bs. previous (header k) = i}" for k
  proof -
    obtain k' where "k' \<in> set ?bs" "previous (header k') = i" "block_id k = block_id k'" using kk by auto
    then have "k = k'" using ids_distinct_unique [OF d kin] by (simp add: bs'_def)
    then show ?thesis using \<open>previous (header k') = i\<close> kin by (auto intro: below.child)
  qed
  assume "below ?K ?bs b"
  then show ?l
  proof (induction rule: below.induct)
    case (root b)
    then have "b \<in> set bs" by (simp add: bs'_def)
    with root kid show ?case by (auto intro: below.root)
  next
    case (child b)
    then have bin: "b \<in> set bs" by (simp add: bs'_def)
    from child(2) show ?case
    proof
      assume "previous (header b) \<in> R"
      with bin show ?thesis by (auto intro: below.child)
    next
      assume "previous (header b) \<in> block_id ` {k \<in> set ?bs. previous (header k) = i}"
      then obtain k where k: "k \<in> set ?bs" "previous (header k) = i" "previous (header b) = block_id k" by auto
      then have "k \<in> set bs" by (simp add: bs'_def)
      then have "below (insert i R) bs k" using k(2) by (auto intro: below.child)
      then show ?thesis using bin k(3) by (rule below.step)
    qed
  next
    case (step p b)
    then show ?case by (auto simp: bs'_def intro: below.step)
  qed
qed

lemma remove_loop_below:
  "ids_distinct bs \<Longrightarrow> remove_loop t queue bs = filter (\<lambda>b. \<not> below (set queue) bs b) bs"
proof (induction t queue bs rule: remove_loop.induct)
  case (1 t bs)
  have "\<not> below {} bs b" for b
  proof
    assume "below {} bs b" then show False by (induction rule: below.induct) auto
  qed
  then show ?case by simp
next
  case (2 t i queue bs)
  let ?bs = "filter (\<lambda>b. block_id b \<noteq> i) bs"
  have set: "set (queue @ map block_id (by_prev t i ?bs)) =
      set queue \<union> block_id ` {k \<in> set ?bs. previous (header k) = i}"
    by (auto simp: by_prev_def)
  have "remove_loop t (i # queue) bs =
      filter (\<lambda>b. \<not> below (set queue \<union> block_id ` {k \<in> set ?bs. previous (header k) = i}) ?bs b) ?bs"
    using 2 set ids_distinct_filter by (simp add: Let_def)
  also have "\<dots> = filter (\<lambda>b. \<not> below (insert i (set queue)) bs b) ?bs"
    using below_visit [OF 2(2), of _ i "set queue"] by (intro filter_cong) auto
  also have "\<dots> = filter (\<lambda>b. \<not> below (insert i (set queue)) bs b) bs"
    by (auto simp: filter_filter intro!: filter_cong intro: below.root)
  finally show ?case by simp
qed

declare remove_loop.simps(2) [simp del]

lemma get_block_unique:
  assumes "ids_distinct (index db)" and "b \<in> set (index db)"
  shows "get_block db (block_id b) = Some b"
proof (cases "get_block db (block_id b)")
  case None
  then show ?thesis using assms(2) by (auto simp: get_block_def find_None_iff)
next
  case (Some x)
  then show ?thesis using get_block_Some [OF Some] ids_distinct_unique [OF assms(1)] assms(2) by auto
qed

subsection \<open>The head is the best block\<close>

definition best_head :: "fork_db \<Rightarrow> bool" where
  "best_head db \<longleftrightarrow> (\<exists>h. fork_head db = Some h \<and> h \<in> set (index db) \<and> (\<forall>b \<in> set (index db). lib_key h \<le> lib_key b))"

definition nums_ok :: "block_state list \<Rightarrow> bool" where
  "nums_ok bs \<longleftrightarrow> (\<forall>b \<in> set bs. dpos_irreversible_blocknum b \<le> block_num b)"

lemma sort_key_hd:
  assumes "sort_key f xs = y # ys"
  shows "y \<in> set xs" and "x \<in> set xs \<Longrightarrow> f y \<le> f x"
proof -
  have "sorted (map f (y # ys))" "set (y # ys) = set xs"
    using assms by (metis sorted_sort_key) (metis assms set_sort)
  then show "y \<in> set xs" and "x \<in> set xs \<Longrightarrow> f y \<le> f x" by auto
qed

lemma pair_le_fst: "(a, b) \<le> (c, d) \<Longrightarrow> a \<le> c" for a c :: "'a::linorder" and b d :: "'b::linorder"
  by (auto simp: less_eq_prod_simp)

lemma begin_by_lib_best:
  assumes "begin_by_lib t bs = Inr h"
  shows "h \<in> set bs" and "b \<in> set bs \<Longrightarrow> lib_key h \<le> lib_key b"
proof -
  obtain rest where "sort_key (\<lambda>b. (lib_key b, tie_lib t (block_id b))) bs = h # rest"
    using assms by (auto simp: begin_by_lib_def by_lib_block_num_def split: list.splits)
  note hd = sort_key_hd [OF this]
  show "h \<in> set bs" by (rule hd(1))
  show "b \<in> set bs \<Longrightarrow> lib_key h \<le> lib_key b" using hd(2) by (blast intro: pair_le_fst)
qed

lemma fork_remove_best: "fork_remove t i db = Inr db' \<Longrightarrow> best_head db'"
  by (auto simp: fork_remove_def Let_def exc_simps best_head_def dest: begin_by_lib_best)

lemma fork_remove_frame:
  assumes "fork_remove t i db = Inr db'"
  shows "set (index db') \<subseteq> set (index db) \<and> irreversible_signals db' = irreversible_signals db \<and>
    (ids_distinct (index db) \<longrightarrow> ids_distinct (index db'))"
  using assms
  by (auto simp: fork_remove_def Let_def exc_simps remove_loop_below ids_distinct_filter
      dest: subsetD [OF remove_loop_subset])

lemma prune_siblings_best:
  assumes "prune_siblings t num it db = Inr db'" and "best_head db"
  shows "best_head db' \<and> set (index db') \<subseteq> set (index db) \<and> irreversible_signals db' = irreversible_signals db \<and>
    (ids_distinct (index db) \<longrightarrow> ids_distinct (index db'))"
  using assms
proof (induction t num it db rule: prune_siblings.induct)
  case (2 t num b db)
  show ?case
  proof (cases "b \<in> set (index db) \<and> block_num b = num")
    case True
    then obtain db1 where r: "fork_remove t (block_id b) db = Inr db1"
      and rest: "prune_siblings t num (element_after b (by_block_num t (index db))) db1 = Inr db'"
      using 2(2) by (auto simp: exc_simps)
    from 2(1) [of db1] True r rest fork_remove_best [OF r]
    have "best_head db' \<and> set (index db') \<subseteq> set (index db1) \<and> irreversible_signals db' = irreversible_signals db1 \<and>
      (ids_distinct (index db1) \<longrightarrow> ids_distinct (index db'))" by blast
    with fork_remove_frame [OF r] show ?thesis by auto
  next
    case False
    then show ?thesis using 2(2,3) by (auto split: if_splits)
  qed
qed simp

lemma prune_first:
  assumes "by_block_num t (index db) = b # rest"
  shows "prune t b db = prune_block t b db"
  using assms by (simp add: prune_def prune_older.simps)

lemma prune_block_best:
  assumes "prune_block t b db = Inr db'" and "b \<in> set (index db)" and "ids_distinct (index db)"
    and "best_head db" and "\<And>h. fork_head db = Some h \<Longrightarrow> block_id h \<noteq> block_id b"
  shows "best_head db' \<and> set (index db') \<subseteq> set (index db) \<and> ids_distinct (index db') \<and>
    irreversible_signals db' = irreversible_signals db @ [b]"
proof -
  have get: "get_block db (block_id b) = Some b"
    using assms(2,3) by (simp add: get_block_unique)
  let ?db = "db\<lparr>index := filter (\<lambda>x. block_id x \<noteq> block_id b) (index db),
    irreversible_signals := irreversible_signals db @ [b]\<rparr>"
  have "best_head ?db" using assms(4,5) by (auto simp: best_head_def)
  moreover have "prune_siblings t (block_num b) (find (\<lambda>x. block_num b \<le> block_num x) (by_block_num t (index ?db))) ?db = Inr db'"
    using assms(1) get by (simp add: prune_block_def Let_def)
  ultimately show ?thesis
    using prune_siblings_best [of t "block_num b" _ ?db db'] ids_distinct_filter [OF assms(3)] by auto
qed

lemma add_block_state_best:
  assumes "add_block_state t (Some n) skip db = Inr (r, db')"
    and "ids_distinct (index db)" and "nums_ok (index db @ [n])"
  shows "r = n \<and> best_head db' \<and> set (index db') \<subseteq> insert n (set (index db)) \<and>
    ids_distinct (index db') \<and> nums_ok (index db') \<and>
    (\<exists>xs h. irreversible_signals db' = irreversible_signals db @ xs \<and> h \<in> insert n (set (index db)) \<and>
       (\<forall>b \<in> set xs. block_num b < dpos_irreversible_blocknum h))"
proof -
  let ?db = "db\<lparr>index := index db @ [n]\<rparr>"
  obtain h where new: "get_block db (block_id n) = None"
    and h: "begin_by_lib t (index db @ [n]) = Inr h"
    and body: "(case by_block_num t (index db @ [n]) of [] \<Rightarrow> Inl undefined_behavior | oldest # _ \<Rightarrow>
        ebind (if block_num oldest < dpos_irreversible_blocknum h then prune t oldest (?db\<lparr>fork_head := Some h\<rparr>)
          else Inr (?db\<lparr>fork_head := Some h\<rparr>)) (\<lambda>db. Inr (n, db))) = Inr (r, db')"
    using assms(1)
    by (auto simp: add_block_state_def index_insert_def EOS_ASSERT_Inr_iff ebind_Inr_iff [of "begin_by_lib t bs" for bs]
        Let_def split: option.splits)
  then obtain oldest rest where old: "by_block_num t (index db @ [n]) = oldest # rest"
    and pr: "(if block_num oldest < dpos_irreversible_blocknum h then prune t oldest (?db\<lparr>fork_head := Some h\<rparr>)
        else Inr (?db\<lparr>fork_head := Some h\<rparr>)) = Inr db'" and r: "r = n"
    by (cases "by_block_num t (index db @ [n])") (auto simp: ebind_Inr_iff)
  let ?d = "?db\<lparr>fork_head := Some h\<rparr>"
  have d: "ids_distinct (index db @ [n])"
    using assms(2) new by (auto simp: ids_distinct_def get_block_def find_None_iff)
  have best: "best_head ?d" using begin_by_lib_best [OF h] by (auto simp: best_head_def)
  have hin: "h \<in> insert n (set (index db))" using begin_by_lib_best(1) [OF h] by auto
  have oin: "oldest \<in> set (index ?d)" using by_block_num_set [of t "index db @ [n]"] unfolding old by auto
  show ?thesis
  proof (cases "block_num oldest < dpos_irreversible_blocknum h")
    case False
    then have "db' = ?d" using pr by simp
    then show ?thesis using best d assms(3) r by (auto intro: exI [of _ "[]"])
  next
    case True
    have "block_id h \<noteq> block_id oldest"
    proof
      assume "block_id h = block_id oldest"
      then have "h = oldest" using ids_distinct_unique [OF d begin_by_lib_best(1) [OF h]] oin by simp
      with True assms(3) oin show False by (auto simp: nums_ok_def)
    qed
    then have "best_head db' \<and> set (index db') \<subseteq> set (index ?d) \<and> ids_distinct (index db') \<and>
        irreversible_signals db' = irreversible_signals ?d @ [oldest]"
      using prune_block_best [of t oldest ?d db'] pr True prune_first [of t ?d oldest rest] old oin d best by auto
    moreover from this have "nums_ok (index db')" using assms(3) by (auto simp: nums_ok_def)
    ultimately show ?thesis using r hin True by auto
  qed
qed

subsection \<open>Branches meet at a common parent\<close>

text \<open>A block's number is one more than its parent's, for every parent in the database.\<close>

definition linked :: "fork_db \<Rightarrow> bool" where
  "linked db \<longleftrightarrow> ids_distinct (index db) \<and>
     (\<forall>b \<in> set (index db). \<forall>p \<in> set (index db). previous (header b) = block_id p \<longrightarrow>
        unat (block_num b) = unat (block_num p) + 1)"

text \<open>A path of the database: each block builds on the next one.\<close>

fun branch :: "fork_db \<Rightarrow> block_state list \<Rightarrow> bool" where
  "branch db [] \<longleftrightarrow> True"
| "branch db [b] \<longleftrightarrow> b \<in> set (index db)"
| "branch db (b # c # bs) \<longleftrightarrow> b \<in> set (index db) \<and> previous (header b) = block_id c \<and> branch db (c # bs)"

lemma branch_snoc:
  "branch db (bs @ [b]) \<Longrightarrow> c \<in> set (index db) \<Longrightarrow> previous (header b) = block_id c \<Longrightarrow> branch db (bs @ [b, c])"
  by (induction db bs rule: branch.induct) auto

lemma get_parent:
  assumes "linked db" and "b \<in> set (index db)" and "get_block db (previous (header b)) = Some p"
  shows "p \<in> set (index db)" and "previous (header b) = block_id p" and "unat (block_num b) = unat (block_num p) + 1"
proof -
  show p: "p \<in> set (index db)" "previous (header b) = block_id p" using get_block_Some [OF assms(3)] by auto
  with assms(1,2) show "unat (block_num b) = unat (block_num p) + 1" by (simp add: linked_def)
qed

text \<open>An orphan: a block whose parent is not in the database.\<close>

definition orphan :: "fork_db \<Rightarrow> block_state \<Rightarrow> bool" where
  "orphan db b \<longleftrightarrow> get_block db (previous (header b)) = None"

lemma walk_down_result:
  assumes "linked db" and "branch db (bs @ [b])" and "b \<in> set (index db)"
  shows "(\<exists>b' bs'. walk_down db num b bs = Some (Inr (b', bs')) \<and> branch db (bs' @ [b']) \<and> b' \<in> set (index db) \<and>
      (\<exists>xs. bs' @ [b'] = bs @ [b] @ xs) \<and> block_num b' \<le> num \<and> (num \<le> block_num b \<longrightarrow> block_num b' = num)) \<or>
    walk_down db num b bs = Some (Inl undefined_behavior) \<and>
      (\<exists>xs o'. branch db (bs @ [b] @ xs) \<and> o' \<in> set (b # xs) \<and> orphan db o')"
  using assms
proof (induction "unat (block_num b)" arbitrary: b bs rule: less_induct)
  case less
  show ?case
  proof (cases "block_num b > num")
    case False
    then have "walk_down db num b bs = Some (Inr (b, bs))" by (simp add: walk_down.simps)
    with False less.prems show ?thesis by auto
  next
    case True
    show ?thesis
    proof (cases "get_block db (previous (header b))")
      case None
      then have "walk_down db num b bs = Some (Inl undefined_behavior)" using True by (simp add: walk_down.simps)
      moreover have "branch db (bs @ [b] @ [])" "b \<in> set (b # [])" "orphan db b"
        using less.prems None by (simp_all add: orphan_def)
      ultimately show ?thesis by blast
    next
      case (Some p)
      note par = get_parent [OF less.prems(1,3) Some]
      have run: "walk_down db num b bs = walk_down db num p (bs @ [b])"
        using True Some by (simp add: walk_down.simps [of db num b])
      have br: "branch db ((bs @ [b]) @ [p])" using branch_snoc [OF less.prems(2) par(1,2)] by simp
      have "num \<le> block_num p" using True par(3) by (simp add: word_less_nat_alt word_le_nat_alt)
      have "unat (block_num p) < unat (block_num b)" using par(3) by simp
      from less.hyps [OF this less.prems(1) br par(1)]
      consider (found) b' bs' xs where "walk_down db num p (bs @ [b]) = Some (Inr (b', bs'))" "branch db (bs' @ [b'])"
          "b' \<in> set (index db)" "bs' @ [b'] = (bs @ [b]) @ [p] @ xs" "block_num b' \<le> num"
          "num \<le> block_num p \<longrightarrow> block_num b' = num"
        | (stuck) xs o' where "walk_down db num p (bs @ [b]) = Some (Inl undefined_behavior)"
          "branch db ((bs @ [b]) @ [p] @ xs)" "o' \<in> set (p # xs)" "orphan db o'"
        by blast
      then show ?thesis
      proof cases
        case found
        have "\<exists>xs. bs' @ [b'] = bs @ [b] @ xs" using found(4) by auto
        with found run \<open>num \<le> block_num p\<close> show ?thesis by auto
      next
        case stuck
        then have "branch db (bs @ [b] @ (p # xs))" "o' \<in> set (b # p # xs)" by auto
        with stuck run show ?thesis by metis
      qed
    qed
  qed
qed

lemma walk_both_result:
  assumes "linked db" and "branch db (bs @ [b])" and "branch db (cs @ [c])"
    and "b \<in> set (index db)" and "c \<in> set (index db)" and "block_num b = block_num c"
  shows "(\<exists>xs ys. walk_both db b c bs cs = Some (Inr (bs @ [b] @ xs, cs @ [c] @ ys)) \<and>
      branch db (bs @ [b] @ xs) \<and> branch db (cs @ [c] @ ys) \<and> length xs = length ys \<and>
      block_num (last (b # xs)) = block_num (last (c # ys)) \<and>
      previous (header (last (b # xs))) = previous (header (last (c # ys)))) \<or>
    walk_both db b c bs cs = Some (Inl undefined_behavior) \<and>
      (\<exists>xs o'. (branch db (bs @ [b] @ xs) \<and> o' \<in> set (b # xs) \<or> branch db (cs @ [c] @ xs) \<and> o' \<in> set (c # xs)) \<and> orphan db o')"
  using assms
proof (induction "unat (block_num b)" arbitrary: b c bs cs rule: less_induct)
  case less
  show ?case
  proof (cases "previous (header b) = previous (header c)")
    case True
    then have "walk_both db b c bs cs = Some (Inr (bs @ [b] @ [], cs @ [c] @ []))" by (simp add: walk_both.simps)
    with True less.prems show ?thesis by (intro disjI1 exI [of _ "[]"]) auto
  next
    case ne: False
    show ?thesis
    proof (cases "orphan db b \<or> orphan db c")
      case True
      then have "walk_both db b c bs cs = Some (Inl undefined_behavior)"
        using ne by (auto simp: walk_both.simps [of db b] orphan_def split: option.splits)
      moreover have "branch db (bs @ [b] @ [])" "branch db (cs @ [c] @ [])" using less.prems by simp_all
      ultimately show ?thesis using True by (metis list.set_intros(1))
    next
      case False
      then obtain p q where pq: "get_block db (previous (header b)) = Some p" "get_block db (previous (header c)) = Some q"
        by (auto simp: orphan_def)
      note parb = get_parent [OF less.prems(1,4) pq(1)] and parc = get_parent [OF less.prems(1,5) pq(2)]
      have run: "walk_both db b c bs cs = walk_both db p q (bs @ [b]) (cs @ [c])"
        using ne pq by (simp add: walk_both.simps [of db b])
      have br: "branch db ((bs @ [b]) @ [p])" "branch db ((cs @ [c]) @ [q])"
        using branch_snoc [OF less.prems(2) parb(1,2)] branch_snoc [OF less.prems(3) parc(1,2)] by simp_all
      have num: "block_num p = block_num q" "unat (block_num p) < unat (block_num b)"
        using parb(3) parc(3) less.prems(6) by (simp_all add: word_unat_eq_iff)
      from less.hyps [OF num(2) less.prems(1) br parb(1) parc(1) num(1)]
      consider (found) xs ys where "walk_both db p q (bs @ [b]) (cs @ [c]) =
            Some (Inr ((bs @ [b]) @ [p] @ xs, (cs @ [c]) @ [q] @ ys))"
          "branch db ((bs @ [b]) @ [p] @ xs)" "branch db ((cs @ [c]) @ [q] @ ys)" "length xs = length ys"
          "block_num (last (p # xs)) = block_num (last (q # ys))"
          "previous (header (last (p # xs))) = previous (header (last (q # ys)))"
        | (stuckb) xs o' where "walk_both db p q (bs @ [b]) (cs @ [c]) = Some (Inl undefined_behavior)"
          "branch db ((bs @ [b]) @ [p] @ xs)" "o' \<in> set (p # xs)" "orphan db o'"
        | (stuckc) xs o' where "walk_both db p q (bs @ [b]) (cs @ [c]) = Some (Inl undefined_behavior)"
          "branch db ((cs @ [c]) @ [q] @ xs)" "o' \<in> set (q # xs)" "orphan db o'"
        by blast
      then show ?thesis
      proof cases
        case found
        then show ?thesis unfolding run by (intro disjI1 exI [of _ "p # xs"] exI [of _ "q # ys"]) simp
      next
        case stuckb
        then have "branch db (bs @ [b] @ (p # xs))" "o' \<in> set (b # p # xs)" by auto
        with stuckb show ?thesis unfolding run by blast
      next
        case stuckc
        then have "branch db (cs @ [c] @ (q # xs))" "o' \<in> set (c # q # xs)" by auto
        with stuckc show ?thesis unfolding run by blast
      qed
    qed
  qed
qed

subsection \<open>Irreversibility reaches every descendant\<close>

definition raise_bft :: "u32 \<Rightarrow> block_id_type set \<Rightarrow> block_state \<Rightarrow> block_state" where
  "raise_bft num X b =
     (if block_id b \<in> X \<and> bft_irreversible_blocknum b < num then b\<lparr>bft_irreversible_blocknum := num\<rparr> else b)"

lemma raise_bft_frame [simp]:
  "block_id (raise_bft num X b) = block_id b" "header (raise_bft num X b) = header b"
  by (simp_all add: raise_bft_def)

lemma raise_bft_union: "raise_bft num X (raise_bft num Y b) = raise_bft num (X \<union> Y) b"
  by (auto simp: raise_bft_def)

lemma raise_bft_empty [simp]: "raise_bft num {} = (\<lambda>b. b)"
  by (simp add: raise_bft_def fun_eq_iff)

definition children :: "block_state list \<Rightarrow> block_id_type \<Rightarrow> block_id_type set" where
  "children bs i = block_id ` {b \<in> set bs. previous (header b) = i}"

lemma children_map:
  assumes "\<And>b. block_id (f b) = block_id b" and "\<And>b. header (f b) = header b"
  shows "children (map f bs) i = children bs i"
proof -
  have "{x \<in> f ` set bs. previous (header x) = i} = f ` {b \<in> set bs. previous (header b) = i}"
    using assms(2) by auto
  then show ?thesis by (simp add: children_def image_image assms(1))
qed

lemma children_raise [simp]: "children (map (raise_bft num X) bs) i = children bs i"
  by (rule children_map) simp_all

lemma ids_distinct_raise [simp]: "ids_distinct (map (raise_bft num X) bs) = ids_distinct bs"
  by (simp add: ids_distinct_def comp_def)

lemma bft_update_block_raise:
  assumes "ids_distinct (index db)"
  shows "index (snd (bft_update_block num i (u, db))) = map (raise_bft num {i}) (index db)"
    and "set (fst (bft_update_block num i (u, db))) =
      set u \<union> block_id ` {b \<in> set (index db). block_id b = i \<and> bft_irreversible_blocknum b < num}"
proof -
  show "index (snd (bft_update_block num i (u, db))) = map (raise_bft num {i}) (index db)"
  proof (cases "get_block db i")
    case None
    then have "\<forall>x \<in> set (index db). block_id x \<noteq> i" by (auto simp: get_block_def find_None_iff)
    with None show ?thesis by (auto simp: bft_update_block_def raise_bft_def intro!: map_idI [symmetric])
  next
    case (Some b)
    have u: "block_id x = i \<Longrightarrow> x \<in> set (index db) \<Longrightarrow> x = b" for x
      using get_block_Some [OF Some] ids_distinct_unique [OF assms] by auto
    show ?thesis
    proof (cases "bft_irreversible_blocknum b < num")
      case True
      with Some u get_block_Some [OF Some] show ?thesis
        by (auto simp: bft_update_block_def raise_bft_def modify_block_def)
    next
      case False
      then have "raise_bft num {i} x = x" if "x \<in> set (index db)" for x
        using u [OF _ that] by (auto simp: raise_bft_def)
      with Some False show ?thesis by (auto simp: bft_update_block_def intro!: map_idI [symmetric])
    qed
  qed
  show "set (fst (bft_update_block num i (u, db))) =
      set u \<union> block_id ` {b \<in> set (index db). block_id b = i \<and> bft_irreversible_blocknum b < num}"
  proof (cases "get_block db i")
    case None
    then have "\<forall>x \<in> set (index db). block_id x \<noteq> i" by (auto simp: get_block_def find_None_iff)
    with None show ?thesis by (auto simp: bft_update_block_def)
  next
    case (Some b)
    have "block_id x = i \<Longrightarrow> x \<in> set (index db) \<Longrightarrow> x = b" for x
      using get_block_Some [OF Some] ids_distinct_unique [OF assms] by auto
    then show ?thesis
      using Some get_block_Some [OF Some] by (auto simp: bft_update_block_def)
  qed
qed

text \<open>The state of the search: the raised blocks and the list of those raised in this layer.\<close>

definition bft_state :: "u32 \<Rightarrow> fork_db \<Rightarrow> block_id_type set \<Rightarrow> block_id_type list \<times> fork_db \<Rightarrow> bool" where
  "bft_state num db X st \<longleftrightarrow> index (snd st) = map (raise_bft num X) (index db) \<and>
     set (fst st) = block_id ` {b \<in> set (index db). block_id b \<in> X \<and> bft_irreversible_blocknum b < num}"

lemma bft_state_block:
  assumes "ids_distinct (index db)" and "bft_state num db X st"
  shows "bft_state num db (insert i X) (bft_update_block num i st)"
proof -
  have d: "ids_distinct (index (snd st))" using assms by (simp add: bft_state_def)
  note step = bft_update_block_raise [OF d, of num i "fst st"]
  have "index (snd (bft_update_block num i st)) = map (raise_bft num (insert i X)) (index db)"
    using step(1) assms(2) by (simp add: bft_state_def raise_bft_union comp_def)
  moreover have "set (fst (bft_update_block num i st)) =
      block_id ` {b \<in> set (index db). block_id b \<in> insert i X \<and> bft_irreversible_blocknum b < num}"
  proof -
    have "block_id ` {b \<in> set (index (snd st)). block_id b = i \<and> bft_irreversible_blocknum b < num} =
        block_id ` {b \<in> set (index db). block_id b = i \<and> i \<notin> X \<and> bft_irreversible_blocknum b < num}"
      using assms(2) by (force simp: bft_state_def raise_bft_def image_def split: if_splits)
    then show ?thesis using step(2) assms(2) by (auto simp: bft_state_def)
  qed
  ultimately show ?thesis by (simp add: bft_state_def)
qed

lemma bft_state_children:
  assumes "ids_distinct (index db)" and "bft_state num db X st"
  shows "bft_state num db (X \<union> children (index db) i) (bft_update_children t num i st)"
proof -
  have fold: "bft_state num db (X \<union> set is) (fold (bft_update_block num) is st)"
    if "bft_state num db X st" for "is" X st using that
  proof (induction "is" arbitrary: X st)
    case (Cons i "is")
    from Cons.IH [OF bft_state_block [OF assms(1) Cons.prems]] show ?case by simp
  qed simp
  have "set (map block_id (by_prev t i (index (snd st)))) = children (index db) i"
    using assms(2) children_raise [of num X "index db" i] by (simp add: by_prev_def children_def bft_state_def)
  with fold [OF assms(2), of "map block_id (by_prev t i (index (snd st)))"] show ?thesis
    by (simp only: bft_update_children_def)
qed

lemma bft_update_state:
  assumes "ids_distinct (index db)"
  shows "bft_state num db (\<Union>i \<in> set ins. children (index db) i) (bft_update t num ins db)"
proof -
  have "bft_state num db (X \<union> (\<Union>i \<in> set ins. children (index db) i)) (fold (bft_update_children t num) ins st)"
    if "bft_state num db X st" for X st using that
  proof (induction ins arbitrary: X st)
    case (Cons i ins)
    from Cons.IH [OF bft_state_children [OF assms Cons.prems]] show ?case by (simp add: Un_assoc)
  qed simp
  from this [of "{}" "([], db)"] show ?thesis by (simp add: bft_update_def bft_state_def)
qed

lemma bft_below_descend:
  assumes d: "ids_distinct (index db)"
    and st: "index db1 = map (raise_bft num (\<Union>i \<in> set queue. children (index db) i)) (index db)"
      "set U = block_id ` {b \<in> set (index db). block_id b \<in> (\<Union>i \<in> set queue. children (index db) i) \<and> bft_irreversible_blocknum b < num}"
    and b: "below (set U) (index db1) b'"
  shows "\<forall>c \<in> set (index db). block_id c = block_id b' \<longrightarrow> below (set queue) (index db) c"
  using b
proof (induction rule: below.induct)
  have U: "below (set queue) (index db) k" if kin: "k \<in> set (index db)" and kU: "block_id k \<in> set U" for k
  proof -
    obtain x where x: "x \<in> set (index db)" "block_id k = block_id x" "block_id x \<in> (\<Union>i \<in> set queue. children (index db) i)"
      using kU st(2) by auto
    then obtain y where "y \<in> set (index db)" "block_id x = block_id y" "previous (header y) \<in> set queue"
      by (auto simp: children_def)
    then have "y = k" using x ids_distinct_unique [OF d kin] by auto
    then show ?thesis using \<open>previous (header y) \<in> set queue\<close> kin by (auto intro: below.child)
  qed
  {
    case (root b)
    then show ?case using U by auto
  next
    case (child b)
    show ?case
    proof (intro ballI impI)
      fix c assume c: "c \<in> set (index db)" "block_id c = block_id b"
      obtain b0 where b0: "b0 \<in> set (index db)" "b = raise_bft num (\<Union>i \<in> set queue. children (index db) i) b0"
        using child(1) st(1) by auto
      then have "c = b0" using c ids_distinct_unique [OF d] by auto
      then have "previous (header c) \<in> set U" using child(2) b0 by simp
      then obtain k where k: "k \<in> set (index db)" "previous (header c) = block_id k" "block_id k \<in> set U" using st(2) by auto
      then show "below (set queue) (index db) c" using U c(1) by (blast intro: below.step)
    qed
  next
    case (step p b)
    show ?case
    proof (intro ballI impI)
      fix c assume c: "c \<in> set (index db)" "block_id c = block_id b"
      obtain b0 where b0: "b0 \<in> set (index db)" "b = raise_bft num (\<Union>i \<in> set queue. children (index db) i) b0"
        using step(2) st(1) by auto
      then have "c = b0" using c ids_distinct_unique [OF d] by auto
      obtain p0 where p0: "p0 \<in> set (index db)" "p = raise_bft num (\<Union>i \<in> set queue. children (index db) i) p0"
        using below_in [OF step(1)] st(1) by auto
      then have "below (set queue) (index db) p0" using step.IH by auto
      then show "below (set queue) (index db) c"
        using c(1) step(3) \<open>c = b0\<close> b0 p0 by (auto intro: below.step)
    qed
  }
qed

lemma bft_loop_state:
  assumes "ids_distinct (index db)"
  shows "\<exists>Z. index (bft_loop t num queue db) = map (raise_bft num Z) (index db) \<and>
    (\<forall>i \<in> set queue. children (index db) i \<subseteq> Z) \<and>
    (\<forall>b \<in> set (index db). block_id b \<in> Z \<and> bft_irreversible_blocknum b < num \<longrightarrow> children (index db) (block_id b) \<subseteq> Z) \<and>
    (\<forall>b \<in> set (index db). block_id b \<in> Z \<longrightarrow> below (set queue) (index db) b)"
  using assms
proof (induction t num queue db rule: bft_loop.induct)
  case (1 t num queue db)
  show ?case
  proof (cases "queue = []")
    case True
    then show ?thesis by (intro exI [of _ "{}"]) (simp add: bft_loop.simps)
  next
    case False
    let ?Y = "\<Union>i \<in> set queue. children (index db) i"
    obtain U db1 where up: "bft_update t num queue db = (U, db1)" by fastforce
    have st: "index db1 = map (raise_bft num ?Y) (index db)"
      "set U = block_id ` {b \<in> set (index db). block_id b \<in> ?Y \<and> bft_irreversible_blocknum b < num}"
      using bft_update_state [OF 1(2), of num queue t] by (simp_all add: up bft_state_def)
    have "ids_distinct (index db1)" using 1(2) st(1) by simp
    from 1(1) [OF False, of "(U, db1)" U db1] up this obtain Z where
      Z: "index (bft_loop t num U db1) = map (raise_bft num Z) (index db1)"
        "\<forall>i \<in> set U. children (index db1) i \<subseteq> Z"
        "\<forall>b \<in> set (index db1). block_id b \<in> Z \<and> bft_irreversible_blocknum b < num \<longrightarrow> children (index db1) (block_id b) \<subseteq> Z"
        "\<forall>b \<in> set (index db1). block_id b \<in> Z \<longrightarrow> below (set U) (index db1) b"
      by auto
    show ?thesis
    proof (intro exI [of _ "Z \<union> ?Y"] conjI ballI impI)
      show "index (bft_loop t num queue db) = map (raise_bft num (Z \<union> ?Y)) (index db)"
        using False up Z(1) st(1) by (simp add: bft_loop.simps [of t num queue] raise_bft_union comp_def)
      show "children (index db) i \<subseteq> Z \<union> ?Y" if "i \<in> set queue" for i using that by auto
      show "children (index db) (block_id b) \<subseteq> Z \<union> ?Y"
        if b: "b \<in> set (index db)" and low: "block_id b \<in> Z \<union> ?Y \<and> bft_irreversible_blocknum b < num" for b
      proof (cases "block_id b \<in> ?Y")
        case True
        then have "block_id b \<in> set U" using b low st(2) by auto
        then show ?thesis using Z(2) st(1) by auto
      next
        case False
        then have "raise_bft num ?Y b = b" by (simp add: raise_bft_def)
        then have "b \<in> set (index db1)" using b st(1) by (metis image_eqI list.set_map)
        moreover have "block_id b \<in> Z \<and> bft_irreversible_blocknum b < num" using low False by blast
        ultimately have "children (index db1) (block_id b) \<subseteq> Z" using Z(3) by blast
        then show ?thesis unfolding st(1) children_raise by blast
      qed
      have raise_below: "below (set queue) (index db) c"
        if "below (set U) (index db1) (raise_bft num ?Y c)" and "c \<in> set (index db)" for c
        using bft_below_descend [OF 1(2) st that(1)] that(2) by simp
      show "below (set queue) (index db) b" if b: "b \<in> set (index db)" and z: "block_id b \<in> Z \<union> ?Y" for b
      proof (cases "block_id b \<in> ?Y")
        case True
        then obtain k i where "k \<in> set (index db)" "block_id b = block_id k" "previous (header k) = i" "i \<in> set queue"
          by (auto simp: children_def)
        then show ?thesis using ids_distinct_unique [OF 1(2) b] by (auto intro: below.child)
      next
        case False
        have "raise_bft num ?Y b \<in> set (index db1)" using b st(1) by simp
        with Z(4) z False show ?thesis using raise_below b by (metis Un_iff raise_bft_frame(1))
      qed
    qed
  qed
qed

text \<open>A block's confirmed number is at least its parent's.\<close>

definition bft_monotone :: "block_state list \<Rightarrow> bool" where
  "bft_monotone bs \<longleftrightarrow> (\<forall>b \<in> set bs. \<forall>p \<in> set bs. previous (header b) = block_id p \<longrightarrow>
     bft_irreversible_blocknum p \<le> bft_irreversible_blocknum b)"

lemma below_map:
  assumes f: "\<And>b. block_id (f b) = block_id b" "\<And>b. header (f b) = header b"
    and "below R (map f bs) c'" and "c' = f c" and "c \<in> set bs"
  shows "below R bs c"
  using assms(3-5)
proof (induction arbitrary: c rule: below.induct)
  case (root b)
  then show ?case by (auto simp: f intro: below.root)
next
  case (child b)
  then show ?case by (auto simp: f intro: below.child)
next
  case (step p b)
  obtain p0 where p0: "p = f p0" "p0 \<in> set bs" using below_in [OF step.hyps(1)] by auto
  then have "below R bs p0" by (rule step.IH)
  moreover have "previous (header c) = block_id p0" using step.hyps(3) step.prems(1) p0(1) by (simp add: f)
  ultimately show ?case using step.prems(2) by (blast intro: below.step)
qed

definition bft_spec :: "block_id_type \<Rightarrow> u32 \<Rightarrow> block_state list \<Rightarrow> block_state \<Rightarrow> block_state" where
  "bft_spec i num bs b =
     (if block_id b = i then b\<lparr>bft_irreversible_blocknum := block_num b\<rparr>
      else if below {i} bs b \<and> bft_irreversible_blocknum b < num then b\<lparr>bft_irreversible_blocknum := num\<rparr>
      else b)"

lemma set_bft_irreversible_spec:
  assumes "ids_distinct (index db)" and "bft_monotone (index db)" and "get_block db i = Some r"
  shows "\<exists>db'. set_bft_irreversible t i db = Inr db' \<and>
    index db' = map (bft_spec i (block_num r) (index db)) (index db)"
proof -
  let ?num = "block_num r" and ?bs = "index db"
  let ?f = "\<lambda>b :: block_state. if block_id b = i then b\<lparr>bft_irreversible_blocknum := block_num b\<rparr> else b"
  define db1 where "db1 = modify_block i (\<lambda>x. x\<lparr>bft_irreversible_blocknum := block_num x\<rparr>) db"
  have idx: "index db1 = map ?f ?bs" by (simp add: db1_def modify_block_def)
  have ids: "block_id (?f b) = block_id b" "header (?f b) = header b" for b by simp_all
  have d1: "ids_distinct (index db1)" using assms(1) by (simp add: idx ids_distinct_def comp_def ids)
  have ch: "children (index db1) j = children ?bs j" for j
    unfolding idx by (rule children_map) (simp_all add: ids)
  have r: "r \<in> set ?bs" "block_id r = i" using get_block_Some [OF assms(3)] by auto
  have rn: "block_id b = i \<Longrightarrow> b \<in> set ?bs \<Longrightarrow> b = r" for b using ids_distinct_unique [OF assms(1)] r by auto
  obtain Z where loop: "index (bft_loop t ?num [i] db1) = map (raise_bft ?num Z) (index db1) \<and>
    (\<forall>j \<in> set [i]. children (index db1) j \<subseteq> Z) \<and>
    (\<forall>b \<in> set (index db1). block_id b \<in> Z \<and> bft_irreversible_blocknum b < ?num \<longrightarrow> children (index db1) (block_id b) \<subseteq> Z) \<and>
    (\<forall>b \<in> set (index db1). block_id b \<in> Z \<longrightarrow> below (set [i]) (index db1) b)"
    using bft_loop_state [OF d1, of t ?num "[i]"] ..
  then have Z: "index (bft_loop t ?num [i] db1) = map (raise_bft ?num Z) (index db1)" "children ?bs i \<subseteq> Z"
    "\<And>b. b \<in> set (index db1) \<Longrightarrow> block_id b \<in> Z \<Longrightarrow> bft_irreversible_blocknum b < ?num \<Longrightarrow> children ?bs (block_id b) \<subseteq> Z"
    "\<And>b. b \<in> set (index db1) \<Longrightarrow> block_id b \<in> Z \<Longrightarrow> below {i} (index db1) b"
    by (simp_all add: ch)
  have into: "block_id b \<noteq> i \<Longrightarrow> bft_irreversible_blocknum b < ?num \<Longrightarrow> block_id b \<in> Z" if "below {i} ?bs b" for b
    using that
  proof (induction rule: below.induct)
    case (child b)
    then have "block_id b \<in> children ?bs i" by (auto simp: children_def)
    with Z(2) show ?case by blast
  next
    case (step p b)
    have bc: "block_id b \<in> children ?bs (block_id p)" using step.hyps by (auto simp: children_def)
    have p: "p \<in> set ?bs" by (rule below_in) fact
    show ?case
    proof (cases "block_id p = i")
      case True
      with bc Z(2) show ?thesis by auto
    next
      case False
      have low: "bft_irreversible_blocknum p < ?num"
        using assms(2) step.hyps(2,3) p step.prems(2) by (auto simp: bft_monotone_def intro: le_less_trans)
      have "p \<in> set (index db1)" using p False by (auto simp: idx image_def)
      with Z(3) [of p] step.IH [OF False low] low bc show ?thesis by blast
    qed
  qed simp
  have out: "below {i} ?bs b" if "b \<in> set ?bs" "block_id b \<in> Z" for b
  proof -
    have "below {i} (map ?f ?bs) (?f b)" unfolding idx [symmetric] by (rule Z(4)) (use that in \<open>simp_all add: idx ids\<close>)
    then show ?thesis by (rule below_map [where f = ?f, OF ids(1) ids(2) _ refl that(1)])
  qed
  have "raise_bft ?num Z (?f b) = bft_spec i ?num ?bs b" if "b \<in> set ?bs" for b
  proof (cases "block_id b = i")
    case True
    then have "b = r" using rn that by blast
    with True show ?thesis by (simp add: raise_bft_def bft_spec_def)
  next
    case False
    then show ?thesis using into [of b] out [OF that] by (auto simp: raise_bft_def bft_spec_def)
  qed
  then have "index (bft_loop t ?num [i] db1) = map (bft_spec i ?num ?bs) ?bs" by (simp add: Z(1) idx)
  moreover have "set_bft_irreversible t i db = Inr (bft_loop t ?num [i] db1)"
    using assms(3) by (simp add: set_bft_irreversible_def Let_def db1_def)
  ultimately show ?thesis by blast
qed

subsection \<open>The invariant of the database\<close>

text \<open>
  Every block state in the database is a state of some chain of headers, its identifier is that of
  its header, and the identifier carries its number.
\<close>

definition state_ok :: "crypto \<Rightarrow> block_state \<Rightarrow> bool" where
  "state_ok cr b \<longleftrightarrow> block_id b = header_id cr (header b) \<and> block_num b = num_from_id cr (block_id b) \<and>
     0 < block_num b \<and> (\<exists>ids. bhs_inv cr ids (block_header_state.truncate b))"

definition fork_inv :: "crypto \<Rightarrow> fork_db \<Rightarrow> bool" where
  "fork_inv cr db \<longleftrightarrow> ids_distinct (index db) \<and> (\<forall>b \<in> set (index db). state_ok cr b)"

definition endian_ok :: "crypto \<Rightarrow> bool" where
  "endian_ok cr \<longleftrightarrow> (\<forall>x. endian_reverse_u32 cr (endian_reverse_u32 cr x) = x)"

lemma num_of_header_id: "endian_ok cr \<Longrightarrow> num_from_id cr (header_id cr h) = num_from_id cr (previous h) + 1"
  by (simp add: endian_ok_def num_from_id_def header_id_def header_block_num_def Let_def mask_low_add)

lemma block_state_of_header_simps [simp]:
  "block_header_state.truncate (block_state_of_header s b) = s"
  "block_id (block_state_of_header s b) = block_id s" "block_num (block_state_of_header s b) = block_num s"
  "header (block_state_of_header s b) = header s" "blk (block_state_of_header s b) = b"
  by (cases s; simp add: block_state_of_header_def block_header_state.defs block_state.defs)+

lemma truncate_simps [simp]:
  "block_id (block_header_state.truncate b) = block_id b" "block_num (block_header_state.truncate b) = block_num b"
  "header (block_header_state.truncate b) = header b"
  "dpos_irreversible_blocknum (block_header_state.truncate b) = dpos_irreversible_blocknum b"
  "dpos_proposed_irreversible_blocknum (block_header_state.truncate b) = dpos_proposed_irreversible_blocknum b"
  by (simp_all add: block_header_state.defs)

lemma next_state_id: "next_state cr h skip s = Inr s' \<Longrightarrow> block_id s' = header_id cr (header s')"
  by (erule next_state_steps) (simp add: finish_header_def Let_def)

lemma new_block_state_ok:
  assumes "new_block_state cr prior b skip = Inr n" and "state_ok cr prior" and "endian_ok cr"
  shows "state_ok cr n" and "previous (header n) = block_id prior"
proof -
  obtain s where s: "next_state cr b skip (block_header_state.truncate prior) = Inr s" "n = block_state_of_header s b"
    using assms(1) by (auto simp: new_block_state_def exc_simps)
  obtain ids where inv: "bhs_inv cr ids (block_header_state.truncate prior)" using assms(2) by (auto simp: state_ok_def)
  note nx = next_state_inv [OF s(1) inv] and i = next_state_id [OF s(1)]
  show prev: "previous (header n) = block_id prior" using nx s(2) by simp
  have "num_from_id cr (block_id s) = num_from_id cr (block_id prior) + 1"
    using num_of_header_id [OF assms(3), of "header s"] i prev s(2) by simp
  also have "\<dots> = block_num prior + 1" using assms(2) by (simp add: state_ok_def)
  also have "\<dots> = block_num s"
  proof (rule word_unat_eq_iff [THEN iffD2])
    have "unat (block_num prior) + 1 < 2 ^ 32" using nx unat_u32_bound [of "block_num s"] by simp
    then show "unat (block_num prior + 1) = unat (block_num s)" using nx by (simp add: unat_add_no_overflow)
  qed
  finally have "num_from_id cr (block_id s) = block_num s" .
  moreover have "0 < block_num s" using nx by (simp add: word_less_nat_alt)
  ultimately show "state_ok cr n" using nx i s(2) by (auto simp: state_ok_def)
qed

lemma state_ok_nums: "state_ok cr b \<Longrightarrow> dpos_irreversible_blocknum b \<le> block_num b"
proof -
  assume "state_ok cr b"
  then obtain ids where "bhs_inv cr ids (block_header_state.truncate b)" by (auto simp: state_ok_def)
  then have "dpos_irreversible_blocknum b \<le> dpos_proposed_irreversible_blocknum b"
    "unat (dpos_proposed_irreversible_blocknum b) \<le> unat (block_num b)"
    by (auto simp: bhs_inv_def implied_ok_def counts_ok_def)
  then show ?thesis by (simp add: word_le_nat_alt)
qed

lemma fork_inv_linked:
  assumes "fork_inv cr db" and "endian_ok cr"
  shows "linked db"
  unfolding linked_def
proof (intro conjI ballI impI)
  show "ids_distinct (index db)" using assms(1) by (simp add: fork_inv_def)
  fix b p assume "b \<in> set (index db)" "p \<in> set (index db)" and prev: "previous (header b) = block_id p"
  then have ok: "state_ok cr b" "state_ok cr p" using assms(1) by (simp_all add: fork_inv_def)
  then have "block_num b = block_num p + 1"
    using num_of_header_id [OF assms(2), of "header b"] prev by (simp add: state_ok_def)
  moreover have "block_num b \<noteq> 0" using ok(1) by (auto simp: state_ok_def)
  ultimately show "unat (block_num b) = unat (block_num p) + 1" by (metis unatSuc add.commute Suc_eq_plus1)
qed

lemma add_signed_block_steps:
  assumes "add_signed_block cr t (Some b) skip db = Inr (n, db')"
  obtains prior where "get_block db (previous b) = Some prior" and "new_block_state cr prior b skip = Inr n"
    and "add_block_state t (Some n) True db = Inr (n, db')"
proof -
  obtain prior r where p: "get_block db (previous b) = Some prior" "new_block_state cr prior b skip = Inr r"
    and add: "add_block_state t (Some r) True db = Inr (n, db')"
    using assms by (auto simp: add_signed_block_def exc_simps split: option.splits)
  have "n = r"
    using add
    by (cases "by_block_num t (index db @ [r])")
      (auto simp: add_block_state_def index_insert_def exc_simps Let_def split: option.splits)
  with p add that show thesis by simp
qed

lemma add_new_state:
  assumes "fork_inv cr db" and "endian_ok cr" and prior: "get_block db (previous b) = Some prior"
    and new: "new_block_state cr prior b skip = Inr n" and add: "add_block_state t (Some n) True db = Inr (n, db')"
  shows "fork_inv cr db' \<and> best_head db' \<and> set (index db') \<subseteq> insert n (set (index db)) \<and>
    (\<exists>p \<in> set (index db). previous (header n) = block_id p \<and> unat (block_num n) = unat (block_num p) + 1) \<and>
    (\<exists>xs h. irreversible_signals db' = irreversible_signals db @ xs \<and> h \<in> insert n (set (index db)) \<and>
       (\<forall>x \<in> set xs. block_num x < dpos_irreversible_blocknum h))"
proof -
  have p: "prior \<in> set (index db)" "state_ok cr prior"
    using get_block_Some [OF prior] assms(1) by (auto simp: fork_inv_def)
  note n = new_block_state_ok [OF new p(2) assms(2)]
  have d: "ids_distinct (index db)" and ok: "\<forall>x \<in> set (index db @ [n]). state_ok cr x"
    using assms(1) n(1) by (auto simp: fork_inv_def)
  have "nums_ok (index db @ [n])" using ok state_ok_nums unfolding nums_ok_def by blast
  note res = add_block_state_best [OF add d this]
  have "fork_inv cr db'" using res ok by (auto simp: fork_inv_def)
  moreover have "unat (block_num n) = unat (block_num prior) + 1"
  proof -
    have "block_num n = block_num prior + 1"
      using n num_of_header_id [OF assms(2), of "header n"] p(2) by (simp add: state_ok_def)
    moreover have "block_num n \<noteq> 0" using n(1) by (auto simp: state_ok_def)
    ultimately show ?thesis by (metis unatSuc add.commute Suc_eq_plus1)
  qed
  ultimately show ?thesis using res n(2) p(1) by blast
qed

text \<open>Two branches meet when their last blocks have the same number and the same parent.\<close>

definition branches_meet :: "fork_db \<Rightarrow> block_state list \<Rightarrow> block_state list \<Rightarrow> bool" where
  "branches_meet db bs cs \<longleftrightarrow> branch db bs \<and> branch db cs \<and> block_num (last bs) = block_num (last cs) \<and>
     previous (header (last bs)) = previous (header (last cs))"

definition reaches_orphan :: "fork_db \<Rightarrow> block_state \<Rightarrow> bool" where
  "reaches_orphan db b \<longleftrightarrow> (\<exists>xs. branch db (b # xs) \<and> (\<exists>x \<in> set (b # xs). orphan db x))"

lemma walk_down_start:
  assumes l: "linked db" and b: "get_block db i = Some b"
  shows "(\<exists>b' bs xs. walk_down db num b [] = Some (Inr (b', bs)) \<and> branch db (bs @ [b']) \<and> b' \<in> set (index db) \<and>
      bs @ [b'] = b # xs \<and> block_num b' \<le> num \<and> (num \<le> block_num b \<longrightarrow> block_num b' = num)) \<or>
    walk_down db num b [] = Some (Inl undefined_behavior) \<and> reaches_orphan db b"
proof -
  have "branch db ([] @ [b])" "b \<in> set (index db)" using get_block_Some [OF b] by simp_all
  from walk_down_result [OF l this, of num] show ?thesis unfolding reaches_orphan_def by fastforce
qed

lemma fetch_branch_second:
  assumes l: "linked db" and b: "branch db (bs @ [b'])" "b' \<in> set (index db)" "bs @ [b'] = b # xs"
    and c: "branch db (cs @ [c'])" "c' \<in> set (index db)" "cs @ [c'] = c # ys" and num: "block_num b' = block_num c'"
  shows "(\<exists>xs ys. walk_both db b' c' bs cs = Some (Inr (b # xs, c # ys)) \<and> branches_meet db (b # xs) (c # ys)) \<or>
    walk_both db b' c' bs cs = Some (Inl undefined_behavior) \<and> (reaches_orphan db b \<or> reaches_orphan db c)"
proof -
  have shape: "bs @ [b'] @ us = b # xs @ us" "cs @ [c'] @ us = c # ys @ us" for us
    using b(3) c(3) by (metis append_Cons append_assoc)+
  have sub: "set (b' # us) \<subseteq> set (b # xs @ us)" "set (c' # us) \<subseteq> set (c # ys @ us)" for us
    unfolding shape [symmetric] by auto
  have last: "last (b' # us) = last (b # xs @ us)" "last (c' # us) = last (c # ys @ us)" for us
    unfolding shape [symmetric] by simp_all
  consider (ok) us vs where "walk_both db b' c' bs cs = Some (Inr (b # xs @ us, c # ys @ vs))"
      "branches_meet db (b # xs @ us) (c # ys @ vs)"
    | (stuckb) us o' where "walk_both db b' c' bs cs = Some (Inl undefined_behavior)"
      "branch db (b # xs @ us)" "o' \<in> set (b # xs @ us)" "orphan db o'"
    | (stuckc) us o' where "walk_both db b' c' bs cs = Some (Inl undefined_behavior)"
      "branch db (c # ys @ us)" "o' \<in> set (c # ys @ us)" "orphan db o'"
    using walk_both_result [OF l b(1) c(1) b(2) c(2) num] sub unfolding shape last branches_meet_def by blast
  then show ?thesis by cases (auto simp: reaches_orphan_def)
qed

subsection \<open>Confirmed blocks\<close>

definition confirmed_by :: "crypto \<Rightarrow> block_header_state \<Rightarrow> header_confirmation \<Rightarrow> bool" where
  "confirmed_by cr s c \<longleftrightarrow>
     (let key = get_producer_key (null_key cr) (active_schedule s) (conf_producer c) in
      key \<noteq> null_key cr \<and>
      (case sig_digest cr s of Inl e \<Rightarrow> False | Inr d \<Rightarrow> recover_key cr (conf_signature c) d (Some True) = Inr key))"

definition confirmed_ok :: "crypto \<Rightarrow> block_header_state \<Rightarrow> bool" where
  "confirmed_ok cr s \<longleftrightarrow> distinct (map conf_producer (confirmations s)) \<and> (\<forall>c \<in> set (confirmations s). confirmed_by cr s c)"

lemma add_confirmation_ok:
  assumes "add_confirmation cr c s = Inr s'" and "confirmed_ok cr s"
  shows "s' = s\<lparr>confirmations := confirmations s @ [c]\<rparr> \<and> confirmed_ok cr s'"
proof -
  have s': "s' = s\<lparr>confirmations := confirmations s @ [c]\<rparr>" and "confirmed_by cr s c"
    and "conf_producer c \<notin> conf_producer ` set (confirmations s)"
    using assms(1) by (auto simp: add_confirmation_def exc_simps Let_def confirmed_by_def list_all_iff)
  moreover have "confirmed_by cr s' x = confirmed_by cr s x" for x
    by (simp add: s' confirmed_by_def sig_digest_def)
  ultimately show ?thesis using assms(2) by (auto simp: confirmed_ok_def)
qed

subsection \<open>Properties\<close>

text \<open>
  C1: adding a signed block keeps the database consistent: identifiers stay unique, every state
  remains a state of a header chain with the number its identifier carries, the new block builds on
  a block of the database, the head is a block of the database that no other block beats (higher
  irreversible number first, then higher confirmed number, then higher block number), and only
  blocks below the irreversible number of a block of the database are reported irreversible.
\<close>

theorem add_signed_block_consistent:
  assumes "fork_inv cr db" and "endian_ok cr" and "add_signed_block cr t (Some b) skip db = Inr (n, db')"
  shows "fork_inv cr db' \<and> best_head db' \<and> set (index db') \<subseteq> insert n (set (index db)) \<and>
    (\<exists>p \<in> set (index db). previous (header n) = block_id p \<and> unat (block_num n) = unat (block_num p) + 1) \<and>
    (\<exists>xs h. irreversible_signals db' = irreversible_signals db @ xs \<and> h \<in> insert n (set (index db)) \<and>
       (\<forall>x \<in> set xs. block_num x < dpos_irreversible_blocknum h))"
  using assms(3) by (rule add_signed_block_steps) (rule add_new_state [OF assms(1,2)])

definition fork_genesis :: block_state where
  "fork_genesis = (let g = sample_genesis\<lparr>block_id := header_id sample_crypto (header sample_genesis)\<rparr>
     in block_state_of_header g (header g))"

definition no_ties :: index_ties where
  "no_ties = \<lparr>tie_num = (\<lambda>_. 0), tie_lib = (\<lambda>_. 0), tie_prev = (\<lambda>_. 0)\<rparr>"

definition fork_start :: fork_db where
  "fork_start = \<lparr>index = [fork_genesis], fork_head = Some fork_genesis, irreversible_signals = []\<rparr>"

definition fork_header :: "block_timestamp_type \<Rightarrow> account_name \<Rightarrow> block_id_type \<Rightarrow> signed_block_header" where
  "fork_header w p i = (default_header sample_crypto)
     \<lparr>timestamp := w, producer := p, confirmed := 0, previous := i, producer_signature := [ucast p]\<rparr>"

lemma sample_endian_ok: "endian_ok sample_crypto"
  by (simp add: endian_ok_def sample_crypto_def byte_swap_byte_swap)

lemma fork_start_inv: "fork_inv sample_crypto fork_start"
proof -
  let ?g = "sample_genesis\<lparr>block_id := header_id sample_crypto (header sample_genesis)\<rparr>"
  have "genesis_ok ?g" using sample_genesis_ok by (simp add: genesis_ok_def)
  then have "bhs_inv sample_crypto [] ?g" by (rule genesis_inv)
  moreover have "block_num ?g = num_from_id sample_crypto (block_id ?g) \<and> 0 < block_num ?g"
    by code_simp
  ultimately show ?thesis
    by (auto simp: fork_inv_def fork_start_def ids_distinct_def fork_genesis_def Let_def state_ok_def)
qed

theorem add_signed_block_consistent_witness:
  "\<exists>n db'. add_signed_block sample_crypto no_ties (Some (fork_header 2 1 (block_id fork_genesis))) False fork_start = Inr (n, db') \<and>
     fork_inv sample_crypto db' \<and> best_head db'"
proof -
  have "\<not> isl (add_signed_block sample_crypto no_ties (Some (fork_header 2 1 (block_id fork_genesis))) False fork_start)"
    by code_simp
  then obtain n db' where run:
    "add_signed_block sample_crypto no_ties (Some (fork_header 2 1 (block_id fork_genesis))) False fork_start = Inr (n, db')"
    by (auto simp: not_isl_iff)
  from add_signed_block_consistent [OF fork_start_inv sample_endian_ok run] run show ?thesis by blast
qed

text \<open>
  C19: declaring a block invalid removes exactly it and everything that builds on it, whatever the
  order in which blocks with equal keys are kept, and the head becomes the best of what is left.
\<close>

theorem invalid_block_removes_subtree:
  assumes "ids_distinct (index db)" and "set_validity t h False db = Inr db'"
  shows "index db' = filter (\<lambda>b. \<not> below {block_id h} (index db) b) (index db) \<and> best_head db' \<and>
    irreversible_signals db' = irreversible_signals db"
proof -
  have "fork_remove t (block_id h) db = Inr db'" using assms(2) by (simp add: set_validity_def)
  then have "index db' = remove_loop t [block_id h] (index db)" "best_head db'"
    "irreversible_signals db' = irreversible_signals db"
    using fork_remove_best fork_remove_frame by (auto simp: fork_remove_def Let_def exc_simps)
  then show ?thesis using remove_loop_below [OF assms(1)] by simp
qed

definition two_forks :: "fork_db result" where
  "two_forks =
     ebind (add_signed_block sample_crypto no_ties (Some (fork_header 2 1 (block_id fork_genesis))) False fork_start) (\<lambda>(a, db).
     ebind (add_signed_block sample_crypto no_ties (Some (fork_header 3 1 (block_id fork_genesis))) False db) (\<lambda>(b, db).
     ebind (add_signed_block sample_crypto no_ties (Some (fork_header 12 2 (block_id b))) False db) (\<lambda>(c, db). Inr db)))"

lemma two_forks_inv:
  obtains db where "two_forks = Inr db" and "fork_inv sample_crypto db"
proof -
  have "\<not> isl two_forks" by code_simp
  then obtain a db1 b db2 c db3 where run:
    "add_signed_block sample_crypto no_ties (Some (fork_header 2 1 (block_id fork_genesis))) False fork_start = Inr (a, db1)"
    "add_signed_block sample_crypto no_ties (Some (fork_header 3 1 (block_id fork_genesis))) False db1 = Inr (b, db2)"
    "add_signed_block sample_crypto no_ties (Some (fork_header 12 2 (block_id b))) False db2 = Inr (c, db3)"
    "two_forks = Inr db3"
    by (auto simp: not_isl_iff two_forks_def exc_simps)
  have "fork_inv sample_crypto db'" if "fork_inv sample_crypto db"
      "add_signed_block sample_crypto no_ties (Some h) False db = Inr (n, db')" for h n db db'
    using that(2)
  proof (rule add_signed_block_steps)
    fix prior
    assume "get_block db (previous h) = Some prior" "new_block_state sample_crypto prior h False = Inr n"
      "add_block_state no_ties (Some n) True db = Inr (n, db')"
    then show "fork_inv sample_crypto db'"
      using add_new_state [OF that(1) sample_endian_ok] by blast
  qed
  with run fork_start_inv that show thesis by metis
qed

theorem invalid_block_removes_subtree_witness:
  "\<exists>db db'. two_forks = Inr db \<and> set_validity no_ties (index db ! 2) False db = Inr db' \<and>
     index db' = filter (\<lambda>b. \<not> below {block_id (index db ! 2)} (index db) b) (index db) \<and> length (index db') = 2"
proof -
  obtain db where db: "two_forks = Inr db" "fork_inv sample_crypto db" by (rule two_forks_inv)
  have "(case two_forks of Inl e \<Rightarrow> False | Inr db \<Rightarrow>
      (case set_validity no_ties (index db ! 2) False db of Inl e \<Rightarrow> False | Inr db' \<Rightarrow> length (index db') = 2))"
    by code_simp
  then obtain db' where "set_validity no_ties (index db ! 2) False db = Inr db'" "length (index db') = 2"
    by (auto simp: db(1) split: sum.splits)
  with invalid_block_removes_subtree [of db no_ties "index db ! 2" db'] db show ?thesis
    by (auto simp: fork_inv_def)
qed



text \<open>
  C12: a confirmation is accepted only from a producer of the active schedule that has not yet
  confirmed the block and signed it with its scheduled key. Once more than two thirds of the
  schedule have confirmed, the confirmed number of the block becomes its own number, and spreads to
  exactly the blocks that build on it and have a lower one; nothing else in the database changes.
\<close>

theorem confirmation_quorum:
  assumes "ids_distinct (index db)" and "bft_monotone (index db)" and "get_block db (conf_block_id c) = Some b"
    and "bft_irreversible_blocknum b \<le> block_num b"
    and "confirmed_ok cr (block_header_state.truncate b)" and "add_header_confirmation cr t c db = Inr db'"
  shows "confirmed_ok cr (block_header_state.truncate (b\<lparr>confirmations := confirmations b @ [c]\<rparr>)) \<and>
    (let bs = map (\<lambda>x. if x = b then b\<lparr>confirmations := confirmations b @ [c]\<rparr> else x) (index db) in
     index db' = (if bft_irreversible_blocknum b < block_num b \<and>
         length (confirmations b) + 1 \<ge> length (producers (active_schedule b)) * 2 div 3 + 1
       then map (bft_spec (block_id b) (block_num b) bs) bs else bs))"
proof -
  let ?f = "\<lambda>x. if x = b then b\<lparr>confirmations := confirmations b @ [c]\<rparr> else x"
  let ?db = "modify_block (block_id b) (\<lambda>x. x\<lparr>confirmations := confirmations b @ [c]\<rparr>) db"
  have b: "b \<in> set (index db)" "block_id b = conf_block_id c" using get_block_Some [OF assms(3)] by auto
  then have only: "block_id x = conf_block_id c \<longleftrightarrow> x = b" if "x \<in> set (index db)" for x
    using that ids_distinct_unique [OF assms(1)] by auto
  have idx: "index ?db = map ?f (index db)" using b(2) only by (auto simp: modify_block_def)
  have fr: "block_id (?f x) = block_id x" "header (?f x) = header x"
    "bft_irreversible_blocknum (?f x) = bft_irreversible_blocknum x" for x by simp_all
  have d: "ids_distinct (index ?db)" using assms(1) unfolding idx by (simp add: ids_distinct_def comp_def fr)
  have mono: "bft_monotone (index ?db)"
    using assms(2) unfolding idx bft_monotone_def by (simp only: set_map ball_simps fr)
  have get: "get_block ?db (conf_block_id c) = Some (?f b)"
    using get_block_unique [OF d, of "?f b"] b unfolding idx by (simp add: fr)
  obtain s where s: "add_confirmation cr c (block_header_state.truncate b) = Inr s"
    and run: "(if bft_irreversible_blocknum b < block_num b \<and>
        length (confirmations s) \<ge> length (producers (active_schedule b)) * 2 div 3 + 1
      then set_bft_irreversible t (conf_block_id c) (modify_block (block_id b) (\<lambda>x. x\<lparr>confirmations := confirmations s\<rparr>) db)
      else Inr (modify_block (block_id b) (\<lambda>x. x\<lparr>confirmations := confirmations s\<rparr>) db)) = Inr db'"
    using assms(3,6) by (auto simp: add_header_confirmation_def ebind_Inr_iff Let_def)
  note conf = add_confirmation_ok [OF s assms(5)]
  have cs: "confirmations s = confirmations b @ [c]" using conf by (simp add: block_header_state.defs)
  have "confirmed_ok cr (block_header_state.truncate (b\<lparr>confirmations := confirmations b @ [c]\<rparr>))"
    using conf by (auto simp: block_header_state.defs)
  moreover have "index db' = (if bft_irreversible_blocknum b < block_num b \<and>
         length (confirmations b) + 1 \<ge> length (producers (active_schedule b)) * 2 div 3 + 1
       then map (bft_spec (block_id b) (block_num b) (index ?db)) (index ?db) else index ?db)"
    using run set_bft_irreversible_spec [OF d mono get, of t] b(2) unfolding cs by (auto split: if_splits)
  ultimately show ?thesis unfolding idx Let_def by blast
qed

definition forks_confirmed_once :: "fork_db result" where
  "forks_confirmed_once =
     ebind two_forks (\<lambda>db. add_header_confirmation sample_crypto no_ties
       \<lparr>conf_block_id = block_id (index db ! 2), conf_producer = 1, conf_signature = [1]\<rparr> db)"

text \<open>The second of two producers confirms the block: it and the block built on it are final.\<close>

theorem confirmation_quorum_witness:
  "\<exists>db db'. forks_confirmed_once = Inr db \<and>
     add_header_confirmation sample_crypto no_ties
       \<lparr>conf_block_id = block_id (index db ! 2), conf_producer = 2, conf_signature = [2]\<rparr> db = Inr db' \<and>
     length (index db') = 4 \<and> map bft_irreversible_blocknum (index db') = [0, 0, 2, 2]"
proof -
  let ?c = "\<lambda>db. \<lparr>conf_block_id = block_id (index db ! 2), conf_producer = 2, conf_signature = [2]\<rparr>"
  have "(case forks_confirmed_once of Inl e \<Rightarrow> False | Inr db \<Rightarrow>
      ids_distinct (index db) \<and> bft_monotone (index db) \<and> length (index db) = 4 \<and>
      get_block db (block_id (index db ! 2)) = Some (index db ! 2) \<and>
      bft_irreversible_blocknum (index db ! 2) < block_num (index db ! 2) \<and>
      length (confirmations (index db ! 2)) + 1 \<ge> length (producers (active_schedule (index db ! 2))) * 2 div 3 + 1 \<and>
      confirmed_ok sample_crypto (block_header_state.truncate (index db ! 2)) \<and>
      (case add_header_confirmation sample_crypto no_ties (?c db) db of Inl e \<Rightarrow> False | Inr db' \<Rightarrow>
         map bft_irreversible_blocknum (index db') = [0, 0, 2, 2]))"
    by code_simp
  then obtain db db' where db: "forks_confirmed_once = Inr db" "ids_distinct (index db)" "bft_monotone (index db)"
      "length (index db) = 4" "get_block db (conf_block_id (?c db)) = Some (index db ! 2)"
      "bft_irreversible_blocknum (index db ! 2) < block_num (index db ! 2)"
      "length (confirmations (index db ! 2)) + 1 \<ge> length (producers (active_schedule (index db ! 2))) * 2 div 3 + 1"
      "confirmed_ok sample_crypto (block_header_state.truncate (index db ! 2))"
      "add_header_confirmation sample_crypto no_ties (?c db) db = Inr db'"
      "map bft_irreversible_blocknum (index db') = [0, 0, 2, 2]"
    by (auto split: sum.splits)
  have "length (index db') = 4"
    using confirmation_quorum [OF db(2,3,5) _ db(8,9)] db(4,6,7) by (simp add: Let_def)
  with db show ?thesis by auto
qed

text \<open>
  The last loop of \<open>prune\<close> uses an iterator that \<open>remove\<close> may have erased: here the block after
  the removed sibling builds on it.
\<close>

definition dangling_db :: "fork_db result" where
  "dangling_db = ebind two_forks (\<lambda>db. Inr (db\<lparr>index := [index db ! 1, index db ! 2, index db ! 3]\<rparr>))"

lemma prune_dangling_iterator:
  "case dangling_db of Inl e \<Rightarrow> False | Inr db \<Rightarrow>
     prune no_ties (index db ! 0) db = Inl undefined_behavior"
  by code_simp

end
