(* ===== verification/Assets.thy ===== *)
theory Assets
  imports Names
begin

text \<open>
  Token symbols and asset amounts: \<open>symbol.hpp\<close>, \<open>asset.hpp\<close> and \<open>asset.cpp\<close>. A symbol is the
  64-bit value the class wraps, the number of decimals in its lowest byte and the letters of the
  name above. An amount is a signed 64-bit integer, kept as an integer; an operation whose exact
  result leaves 64 bits is undefined behaviour of the language and has that value here. Text
  functions of the \<open>fc\<close> library are the parameter \<open>fc_text\<close>; what the proofs use of them is
  \<open>fc_text_ok\<close>. The lemmas show that printing and parsing are inverse to each other and that
  the arithmetic is exact.
\<close>

type_synonym symbol = u64

record asset =
  amount :: int
  sym :: symbol

record fc_text =
  fc_trim :: "string \<Rightarrow> string"
  fc_to_int64 :: "string \<Rightarrow> int result"
  fc_to_string :: "int \<Rightarrow> string"
  fc_safe_mul :: "int \<Rightarrow> int \<Rightarrow> int result"
  fc_safe_add :: "int \<Rightarrow> int \<Rightarrow> int result"

subsection \<open>Text of the standard library\<close>

text \<open>\<open>std::to_string\<close> of an unsigned number; \<open>string::find\<close> of a character.\<close>

definition digit_char :: "nat \<Rightarrow> char" where
  "digit_char d = char_of (48 + d)"

fun std_to_string :: "nat \<Rightarrow> string" where
  "std_to_string n = (if n < 10 then [digit_char n] else std_to_string (n div 10) @ [digit_char (n mod 10)])"

declare std_to_string.simps [simp del]

fun find_char :: "char \<Rightarrow> string \<Rightarrow> nat option" where
  "find_char c [] = None"
| "find_char c (x # xs) = (if x = c then Some 0 else map_option Suc (find_char c xs))"

subsection \<open>Symbols\<close>

definition max_precision :: u8 where
  "max_precision = 18"

definition is_upper :: "char \<Rightarrow> bool" where
  "is_upper c \<longleftrightarrow> 65 \<le> (of_char c :: nat) \<and> (of_char c :: nat) \<le> 90"

text \<open>
  Shifting a 64-bit value by 64 bits or more is undefined, so an eighth letter is. The parameter
  of the C string ends at its first NUL byte.
\<close>

fun string_to_symbol_loop :: "nat \<Rightarrow> string \<Rightarrow> u64 \<Rightarrow> u64 result" where
  "string_to_symbol_loop i [] res = Inr res"
| "string_to_symbol_loop i (c # cs) res =
     EOS_ASSERT (is_upper c) symbol_type_exception
     (EOS_ASSERT (8 * (i + 1) < 64) undefined_behavior
     (string_to_symbol_loop (i + 1) cs (res OR push_bit (8 * (i + 1)) (of_nat (of_char c)))))"

definition string_to_symbol :: "u8 \<Rightarrow> string \<Rightarrow> u64 result" where
  "string_to_symbol precision str =
     ebind (string_to_symbol_loop 0 (c_string str) 0) (\<lambda>res. Inr (res OR ucast precision))"

definition sym_decimals :: "symbol \<Rightarrow> u8" where
  "sym_decimals v = ucast (v AND 0xFF)"

function sym_name_loop :: "u64 \<Rightarrow> string" where
  "sym_name_loop v = (if v > 0 then char_of (unat (v AND 0xFF)) # sym_name_loop (drop_bit 8 v) else [])"
  by pat_completeness auto
termination
proof (relation "measure unat")
  fix v :: u64 assume "v > 0"
  then show "(drop_bit 8 v, v) \<in> measure unat"
    by (simp add: drop_bit_eq_div word_less_nat_alt unat_div)
qed simp

declare sym_name_loop.simps [simp del]

definition sym_name :: "symbol \<Rightarrow> string" where
  "sym_name v = sym_name_loop (drop_bit 8 v)"

definition valid_name :: "string \<Rightarrow> bool" where
  "valid_name nm = list_all is_upper nm"

definition sym_valid :: "symbol \<Rightarrow> bool" where
  "sym_valid v \<longleftrightarrow> sym_decimals v \<le> max_precision \<and> valid_name (sym_name v)"

definition make_symbol :: "u64 \<Rightarrow> symbol result" where
  "make_symbol v = EOS_ASSERT (sym_valid v) symbol_type_exception (Inr v)"

definition make_symbol_of :: "u8 \<Rightarrow> string \<Rightarrow> symbol result" where
  "make_symbol_of p s = ebind (string_to_symbol p s) make_symbol"

definition sym_from_string :: "fc_text \<Rightarrow> string \<Rightarrow> symbol result" where
  "sym_from_string fc from =
     (let s = fc_trim fc from in
      EOS_ASSERT (s \<noteq> []) symbol_type_exception
      (case find_char (CHR '','') s of
         None \<Rightarrow> Inl symbol_type_exception
       | Some comma_pos \<Rightarrow>
           let prec_part = take comma_pos s in
           ebind (fc_to_int64 fc prec_part) (\<lambda>n.
           let p = word_of_int n :: u8; name_part = drop (comma_pos + 1) s in
           EOS_ASSERT (p \<le> max_precision) symbol_type_exception
           (ebind (string_to_symbol p name_part) make_symbol))))"

fun power_10_loop :: "nat \<Rightarrow> u64 \<Rightarrow> u64" where
  "power_10_loop 0 p10 = p10"
| "power_10_loop (Suc p) p10 = power_10_loop p (p10 * 10)"

definition sym_precision :: "symbol \<Rightarrow> u64 result" where
  "sym_precision v =
     EOS_ASSERT (sym_decimals v \<le> max_precision) symbol_type_exception
     (Inr (power_10_loop (unat (sym_decimals v)) 1))"

definition to_symbol_code :: "symbol \<Rightarrow> u64" where
  "to_symbol_code v = drop_bit 8 v"

definition sym_to_string :: "symbol \<Rightarrow> string" where
  "sym_to_string v = std_to_string (unat (sym_decimals v)) @ [CHR '',''] @ sym_name v"

definition sym_reflector_verify :: "symbol \<Rightarrow> unit result" where
  "sym_reflector_verify v =
     EOS_ASSERT (sym_decimals v \<le> max_precision) symbol_type_exception
     (EOS_ASSERT (valid_name (sym_name v)) symbol_type_exception (Inr ()))"

definition symbol_code_to_variant :: "u64 \<Rightarrow> string result" where
  "symbol_code_to_variant value = ebind (make_symbol (push_bit 8 value)) (\<lambda>v. Inr (sym_name v))"

definition symbol_code_from_variant :: "string \<Rightarrow> u64 result" where
  "symbol_code_from_variant s = ebind (make_symbol_of 0 s) (\<lambda>v. Inr (to_symbol_code v))"

subsection \<open>Assets\<close>

definition max_amount :: int where
  "max_amount = 2 ^ 62 - 1"

definition in_i64 :: "int \<Rightarrow> bool" where
  "in_i64 n \<longleftrightarrow> INT64_MIN \<le> n \<and> n \<le> INT64_MAX"

definition signed_result :: "int \<Rightarrow> int result" where
  "signed_result n = EOS_ASSERT (in_i64 n) undefined_behavior (Inr n)"

definition is_amount_within_range :: "asset \<Rightarrow> bool" where
  "is_amount_within_range a \<longleftrightarrow> - max_amount \<le> amount a \<and> amount a \<le> max_amount"

definition asset_is_valid :: "asset \<Rightarrow> bool" where
  "asset_is_valid a \<longleftrightarrow> is_amount_within_range a \<and> sym_valid (sym a)"

definition make_asset :: "int \<Rightarrow> symbol \<Rightarrow> asset result" where
  "make_asset n s =
     (let a = \<lparr>amount = n, sym = s\<rparr> in
      EOS_ASSERT (is_amount_within_range a) asset_type_exception
      (EOS_ASSERT (sym_valid (sym a)) asset_type_exception (Inr a)))"

definition asset_reflector_verify :: "asset \<Rightarrow> unit result" where
  "asset_reflector_verify a =
     EOS_ASSERT (is_amount_within_range a) asset_type_exception
     (EOS_ASSERT (sym_valid (sym a)) asset_type_exception (Inr ()))"

definition asset_add_assign :: "asset \<Rightarrow> asset \<Rightarrow> asset result" where
  "asset_add_assign a b =
     EOS_ASSERT (sym a = sym b) asset_type_exception
     (ebind (signed_result (amount a + amount b)) (\<lambda>n. Inr (a\<lparr>amount := n\<rparr>)))"

definition asset_sub_assign :: "asset \<Rightarrow> asset \<Rightarrow> asset result" where
  "asset_sub_assign a b =
     EOS_ASSERT (sym a = sym b) asset_type_exception
     (ebind (signed_result (amount a - amount b)) (\<lambda>n. Inr (a\<lparr>amount := n\<rparr>)))"

definition asset_uminus :: "asset \<Rightarrow> asset result" where
  "asset_uminus a = ebind (signed_result (- amount a)) (\<lambda>n. make_asset n (sym a))"

definition asset_eq :: "asset \<Rightarrow> asset \<Rightarrow> bool" where
  "asset_eq a b \<longleftrightarrow> (sym a, amount a) = (sym b, amount b)"

definition asset_less :: "asset \<Rightarrow> asset \<Rightarrow> bool result" where
  "asset_less a b =
     EOS_ASSERT (sym a = sym b) asset_type_exception
     (Inr (amount a < amount b \<or> amount a = amount b \<and> sym a < sym b))"

definition asset_le :: "asset \<Rightarrow> asset \<Rightarrow> bool result" where
  "asset_le a b = (if asset_eq a b then Inr True else asset_less a b)"

definition asset_gt :: "asset \<Rightarrow> asset \<Rightarrow> bool result" where
  "asset_gt a b = ebind (asset_le a b) (\<lambda>r. Inr (\<not> r))"

definition asset_ge :: "asset \<Rightarrow> asset \<Rightarrow> bool result" where
  "asset_ge a b = ebind (asset_less a b) (\<lambda>r. Inr (\<not> r))"

definition asset_minus :: "asset \<Rightarrow> asset \<Rightarrow> asset result" where
  "asset_minus a b =
     EOS_ASSERT (sym a = sym b) asset_type_exception
     (ebind (signed_result (amount a - amount b)) (\<lambda>n. make_asset n (sym a)))"

definition asset_plus :: "asset \<Rightarrow> asset \<Rightarrow> asset result" where
  "asset_plus a b =
     EOS_ASSERT (sym a = sym b) asset_type_exception
     (ebind (signed_result (amount a + amount b)) (\<lambda>n. make_asset n (sym a)))"

definition asset_precision :: "asset \<Rightarrow> int result" where
  "asset_precision a = ebind (sym_precision (sym a)) (\<lambda>p. Inr (sint p))"

definition asset_to_string :: "fc_text \<Rightarrow> asset \<Rightarrow> string result" where
  "asset_to_string fc a =
     (let sign = (if amount a < 0 then ''-'' else '''') in
      ebind (signed_result (\<bar>amount a\<bar>)) (\<lambda>abs_amount.
      ebind (asset_precision a) (\<lambda>prec.
      let res = fc_to_string fc (abs_amount div prec);
          res = (if sym_decimals (sym a) \<noteq> 0
                 then res @ ''.'' @ drop 1 (fc_to_string fc (prec + abs_amount mod prec)) else res)
      in Inr (sign @ res @ '' '' @ sym_name (sym a)))))"

definition asset_from_string :: "fc_text \<Rightarrow> string \<Rightarrow> asset result" where
  "asset_from_string fc from =
     (let s = fc_trim fc from in
      case find_char (CHR '' '') s of
        None \<Rightarrow> Inl asset_type_exception
      | Some space_pos \<Rightarrow>
          let symbol_str = fc_trim fc (drop (space_pos + 1) s);
              amount_str = take space_pos s;
              dot_pos = find_char (CHR ''.'') amount_str
          in EOS_ASSERT (case dot_pos of None \<Rightarrow> True | Some p \<Rightarrow> p \<noteq> length amount_str - 1) asset_type_exception
             (let precision_digit_str =
                    (case dot_pos of None \<Rightarrow> ''0'' | Some p \<Rightarrow> std_to_string (length amount_str - p - 1))
              in ebind (sym_from_string fc (precision_digit_str @ [CHR '',''] @ symbol_str)) (\<lambda>sy.
                 ebind (case dot_pos of
                     None \<Rightarrow> ebind (fc_to_int64 fc amount_str) (\<lambda>i. Inr (i, 0))
                   | Some p \<Rightarrow>
                       ebind (fc_to_int64 fc (take p amount_str)) (\<lambda>i.
                       ebind (fc_to_int64 fc (drop (p + 1) amount_str)) (\<lambda>f.
                       ebind (if amount_str ! 0 = CHR ''-'' then fc_safe_mul fc f (- 1) else Inr f) (\<lambda>f.
                       Inr (i, f))))) (\<lambda>(int_part, fract_part).
                 ebind (sym_precision sy) (\<lambda>prec.
                 ebind (fc_safe_mul fc int_part (sint prec)) (\<lambda>n.
                 ebind (fc_safe_add fc n fract_part) (\<lambda>n.
                 make_asset n sy)))))))"

subsection \<open>The encoding of names\<close>

primrec code_value :: "string \<Rightarrow> nat" where
  "code_value [] = 0"
| "code_value (c # cs) = of_char c + 256 * code_value cs"

lemma unat_u8_bound: "unat (p :: u8) < 256"
  using unsigned_less [of p] by simp

lemma char_code_bound: "(of_char c :: nat) < 256"
  by (cases c) simp

lemma code_value_bound: "code_value cs < 256 ^ length cs"
proof (induction cs)
  case (Cons c cs)
  have "of_char c + 256 * code_value cs < 256 + 256 * code_value cs" using char_code_bound [of c] by simp
  also have "\<dots> = 256 * (code_value cs + 1)" by simp
  also have "\<dots> \<le> 256 * 256 ^ length cs" using Cons by (intro mult_le_mono2) simp
  finally show ?case by simp
qed simp

lemma nat_or_push_bit: "a OR push_bit k c = a + push_bit k c" if "a < 2 ^ k" for a c :: nat
proof -
  have "\<not> bit a n" if "k \<le> n" for n
    using that \<open>a < 2 ^ k\<close> by (metis bit_take_bit_iff leD take_bit_nat_eq_self)
  then show ?thesis by (intro disjunctive_add [symmetric]) (auto simp: bit_push_bit_iff)
qed

lemma unat_or_push_byte:
  assumes "unat a < 2 ^ k" and "c < 256" and "k + 8 \<le> 64"
  shows "unat (a OR push_bit k (of_nat c :: u64)) = unat a + 2 ^ k * c"
proof -
  have "2 ^ k * c < 2 ^ k * 2 ^ 8" using assms(2) by simp
  also have "\<dots> \<le> 2 ^ 64" using power_increasing [OF assms(3), of "2 :: nat"] by (simp add: power_add)
  finally have "take_bit 64 (push_bit k c) = push_bit k c" by (simp add: push_bit_eq_mult take_bit_nat_eq_self mult.commute)
  moreover have "unat (of_nat c :: u64) = c" using assms(2) by (simp add: unsigned_of_nat take_bit_nat_eq_self)
  ultimately have "unat (push_bit k (of_nat c :: u64)) = push_bit k c" by (simp add: unsigned_push_bit_eq)
  then show ?thesis
    using nat_or_push_bit [OF assms(1), of c] by (simp add: unsigned_or_eq push_bit_eq_mult mult.commute)
qed

lemma string_to_symbol_loop_value:
  assumes "list_all is_upper cs" and "i + length cs \<le> 7" and "unat res < 2 ^ (8 * (i + 1))"
  shows "\<exists>r. string_to_symbol_loop i cs res = Inr r \<and> unat r = unat res + 2 ^ (8 * (i + 1)) * code_value cs"
  using assms
proof (induction cs arbitrary: i res)
  case (Cons c cs)
  let ?r = "res OR push_bit (8 * (i + 1)) (of_nat (of_char c))"
  have r: "unat ?r = unat res + 2 ^ (8 * (i + 1)) * of_char c"
    using Cons.prems char_code_bound by (intro unat_or_push_byte) auto
  have "unat res + 2 ^ (8 * (i + 1)) * of_char c < 2 ^ (8 * (i + 1)) * (1 + of_char c)"
    using Cons.prems(3) by (simp add: algebra_simps)
  also have "\<dots> \<le> 2 ^ (8 * (i + 1)) * 256" using char_code_bound [of c] by (intro mult_le_mono2) linarith
  finally have "unat ?r < 2 ^ (8 * (i + 1 + 1))" using r by (simp add: power_add)
  with Cons.IH [of "i + 1" ?r] Cons.prems
  obtain r' where "string_to_symbol_loop (i + 1) cs ?r = Inr r'"
    and "unat r' = unat ?r + 2 ^ (8 * (i + 1 + 1)) * code_value cs" by auto
  with r Cons.prems show ?case by (simp add: power_add algebra_simps)
qed simp

lemma string_to_symbol_value:
  assumes "list_all is_upper nm" and "length nm \<le> 7"
  shows "\<exists>v. string_to_symbol p nm = Inr v \<and> unat v = unat p + 256 * code_value nm"
proof -
  have cs: "c_string nm = nm"
    using assms(1) by (auto simp: c_string_def list_all_iff is_upper_def takeWhile_eq_all_conv)
  obtain r where r: "string_to_symbol_loop 0 nm 0 = Inr r" "unat r = 256 * code_value nm"
    using string_to_symbol_loop_value [of nm 0 0] assms by auto
  have p: "unat (ucast p :: u64) = unat p" "unat p < 2 ^ 8"
    using unat_u8_bound [of p] by (simp_all add: unsigned_ucast_eq take_bit_nat_eq_self)
  have "unat (r OR ucast p) = unat p OR push_bit 8 (code_value nm)"
    by (simp add: unsigned_or_eq p r(2) push_bit_eq_mult or.commute mult.commute)
  then have "unat (r OR ucast p) = unat p + 256 * code_value nm"
    using nat_or_push_bit [OF p(2), of "code_value nm"] by (simp add: push_bit_eq_mult mult.commute)
  with r(1) show ?thesis by (simp add: string_to_symbol_def cs)
qed

lemma unat_byte: "unat (v AND 0xFF :: u64) = unat v mod 256"
proof -
  have "v AND 0xFF = take_bit 8 v" by (simp add: take_bit_eq_mask mask_eq_exp_minus_1)
  then show ?thesis by (simp add: take_bit_eq_mod unat_mod)
qed

lemma unat_shift_byte: "unat (drop_bit 8 v :: u64) = unat v div 256"
  by (simp add: drop_bit_eq_div unat_div)

lemma code_value_name_loop: "code_value (sym_name_loop v) = unat v"
proof (induction v rule: sym_name_loop.induct)
  case (1 v)
  show ?case
  proof (cases "v > 0")
    case True
    then have "code_value (sym_name_loop v) = unat v mod 256 + 256 * (unat v div 256)"
      using 1 by (simp add: sym_name_loop.simps [of v] unat_byte unat_shift_byte)
    then show ?thesis by simp
  qed (simp add: sym_name_loop.simps word_less_nat_alt)
qed

lemma length_name_loop: "unat v < 256 ^ n \<Longrightarrow> length (sym_name_loop v) \<le> n"
proof (induction n arbitrary: v)
  case 0
  then show ?case by (simp add: sym_name_loop.simps unat_eq_0)
next
  case (Suc n)
  have "length (sym_name_loop (drop_bit 8 v)) \<le> n"
    using Suc by (intro Suc.IH) (simp add: unat_shift_byte less_mult_imp_div_less mult.commute)
  then show ?case by (simp add: sym_name_loop.simps [of v])
qed

lemma name_loop_code_value: "list_all is_upper cs \<Longrightarrow> unat v = code_value cs \<Longrightarrow> sym_name_loop v = cs"
proof (induction cs arbitrary: v)
  case Nil
  then show ?case by (simp add: sym_name_loop.simps unat_eq_0)
next
  case (Cons c cs)
  have "unat v mod 256 = of_char c" "unat v div 256 = code_value cs" "0 < unat v"
    using Cons.prems char_code_bound [of c] by (simp_all add: is_upper_def)
  then show ?case
    using Cons by (simp add: sym_name_loop.simps [of v] unat_byte unat_shift_byte word_less_nat_alt)
qed

lemma unat_decimals: "unat (sym_decimals v) = unat v mod 256"
proof -
  have "unat (ucast (v AND 0xFF) :: u8) = unat (v AND 0xFF) mod 256"
    by (simp add: unsigned_ucast_eq take_bit_eq_mod)
  then show ?thesis by (simp add: sym_decimals_def unat_byte)
qed

lemma symbol_of_parts:
  assumes "unat v = unat p + 256 * code_value nm" and "list_all is_upper nm"
  shows "sym_decimals v = p" and "sym_name v = nm"
proof -
  have "unat p < 256" using unat_u8_bound [of p] by simp
  then have "unat v mod 256 = unat p" "unat v div 256 = code_value nm" using assms(1) by simp_all
  then show "sym_decimals v = p" "sym_name v = nm"
    using name_loop_code_value [OF assms(2)] by (simp_all add: word_unat_eq_iff unat_decimals sym_name_def unat_shift_byte)
qed

lemma symbol_parts:
  "unat v = unat (sym_decimals v) + 256 * code_value (sym_name v)" "length (sym_name v) \<le> 7"
proof -
  show "unat v = unat (sym_decimals v) + 256 * code_value (sym_name v)"
    by (simp add: unat_decimals sym_name_def code_value_name_loop unat_shift_byte)
  have "unat v div 256 < 256 ^ 7" using unat_u64_bound [of v] by (simp add: less_mult_imp_div_less)
  then show "length (sym_name v) \<le> 7" by (simp add: sym_name_def length_name_loop unat_shift_byte)
qed

lemma string_to_symbol_parts:
  assumes "valid_name (sym_name v)"
  shows "string_to_symbol (sym_decimals v) (sym_name v) = Inr v"
proof -
  obtain v' where "string_to_symbol (sym_decimals v) (sym_name v) = Inr v'"
    "unat v' = unat (sym_decimals v) + 256 * code_value (sym_name v)"
    using string_to_symbol_value assms symbol_parts(2) unfolding valid_name_def by blast
  moreover from this have "v' = v" using symbol_parts(1) [of v] by (simp add: word_unat_eq_iff)
  ultimately show ?thesis by simp
qed

subsection \<open>Decimal text\<close>

definition is_digit :: "char \<Rightarrow> bool" where
  "is_digit c \<longleftrightarrow> 48 \<le> (of_char c :: nat) \<and> (of_char c :: nat) \<le> 57"

definition is_space :: "char \<Rightarrow> bool" where
  "is_space c \<longleftrightarrow> (of_char c :: nat) = 32 \<or> 9 \<le> (of_char c :: nat) \<and> (of_char c :: nat) \<le> 13"

definition digits_value :: "string \<Rightarrow> nat" where
  "digits_value ds = foldl (\<lambda>v c. 10 * v + (of_char c - 48)) 0 ds"

text \<open>
  What the proofs use of the \<open>fc\<close> library: trimming leaves a string alone that neither starts
  nor ends with white space, numbers are printed and read in decimal, and \<open>fc::safe\<close> is exact
  when the result fits.
\<close>

definition fc_text_ok :: "fc_text \<Rightarrow> bool" where
  "fc_text_ok fc \<longleftrightarrow>
     (\<forall>s. s \<noteq> [] \<and> \<not> is_space (s ! 0) \<and> \<not> is_space (last s) \<longrightarrow> fc_trim fc s = s) \<and>
     (\<forall>n. n < 2 ^ 63 \<longrightarrow> fc_to_string fc (int n) = std_to_string n) \<and>
     (\<forall>ds. ds \<noteq> [] \<and> list_all is_digit ds \<and> digits_value ds < 2 ^ 63 \<longrightarrow>
        fc_to_int64 fc ds = Inr (int (digits_value ds)) \<and>
        fc_to_int64 fc (CHR ''-'' # ds) = Inr (- int (digits_value ds))) \<and>
     (\<forall>a b. in_i64 a \<and> in_i64 b \<and> in_i64 (a * b) \<longrightarrow> fc_safe_mul fc a b = Inr (a * b)) \<and>
     (\<forall>a b. in_i64 a \<and> in_i64 b \<and> in_i64 (a + b) \<longrightarrow> fc_safe_add fc a b = Inr (a + b))"

lemma digit_char_0: "digit_char 0 = CHR ''0''"
  by code_simp

lemma code_digit_char: "d < 10 \<Longrightarrow> of_char (digit_char d) = 48 + d"
  by (simp add: digit_char_def)

lemma digits_value_snoc: "digits_value (ds @ [c]) = 10 * digits_value ds + (of_char c - 48)"
  by (simp add: digits_value_def)

lemma std_to_string_digits:
  "std_to_string n \<noteq> [] \<and> list_all is_digit (std_to_string n) \<and> digits_value (std_to_string n) = n"
proof (induction n rule: std_to_string.induct)
  case (1 n)
  show ?case
  proof (cases "n < 10")
    case True
    then show ?thesis by (simp add: std_to_string.simps [of n] is_digit_def code_digit_char digits_value_def)
  next
    case False
    then show ?thesis
      using 1 by (simp add: std_to_string.simps [of n] is_digit_def code_digit_char digits_value_snoc)
  qed
qed

lemma length_std_to_string: "10 ^ d \<le> n \<Longrightarrow> n < 10 ^ (d + 1) \<Longrightarrow> length (std_to_string n) = d + 1"
proof (induction d arbitrary: n)
  case 0
  then show ?case by (simp add: std_to_string.simps [of n])
next
  case (Suc d)
  have "10 ^ d \<le> n div 10" "n div 10 < 10 ^ (d + 1)"
    using div_le_mono [OF Suc.prems(1), of 10] Suc.prems(2) by (simp_all add: less_mult_imp_div_less)
  moreover have "\<not> n < 10" using Suc.prems(1) self_le_power [of "10 :: nat" "Suc d"] by linarith
  ultimately show ?case using Suc.IH by (simp add: std_to_string.simps [of n])
qed

lemma digits_value_Cons: "digits_value (c # ds) = (of_char c - 48) * 10 ^ length ds + digits_value ds"
proof (induction ds rule: rev_induct)
  case Nil
  then show ?case by (simp add: digits_value_def)
next
  case (snoc x ds)
  have "digits_value ((c # ds) @ [x]) = 10 * digits_value (c # ds) + (of_char x - 48)" by (rule digits_value_snoc)
  with snoc show ?case by (simp add: digits_value_snoc algebra_simps)
qed

lemma digits_value_bound: "list_all is_digit ds \<Longrightarrow> digits_value ds < 10 ^ length ds"
proof (induction ds)
  case (Cons c ds)
  then have "(of_char c - 48) * 10 ^ length ds + digits_value ds < 9 * 10 ^ length ds + 10 ^ length ds"
    by (intro add_le_less_mono mult_le_mono1) (auto simp: is_digit_def)
  then show ?case by (simp add: digits_value_Cons)
qed (simp add: digits_value_def)

text \<open>Dropping the leading one of \<open>10\<^sup>d + f\<close> leaves \<open>f\<close> padded to \<open>d\<close> digits.\<close>

lemma padded_digits:
  assumes "f < 10 ^ d"
  obtains ds where "drop 1 (std_to_string (10 ^ d + f)) = ds" and "length ds = d" and "list_all is_digit ds" and "digits_value ds = f"
proof -
  note str = std_to_string_digits [of "10 ^ d + f"]
  have len: "length (std_to_string (10 ^ d + f)) = d + 1" using assms by (intro length_std_to_string) auto
  then obtain c ds where cds: "std_to_string (10 ^ d + f) = c # ds" "length ds = d"
    by (cases "std_to_string (10 ^ d + f)") auto
  have ds: "list_all is_digit ds" using str cds by simp
  have "(of_char c - 48) * 10 ^ d + digits_value ds = 10 ^ d + f"
    using str cds by (simp add: digits_value_Cons)
  then have "((of_char c - 48) * 10 ^ d + digits_value ds) mod 10 ^ d = (10 ^ d + f) mod 10 ^ d" by simp
  then have "digits_value ds = f" using digits_value_bound [OF ds] assms cds(2) by simp
  with cds ds that show thesis by simp
qed

lemma find_char_append: "c \<notin> set xs \<Longrightarrow> find_char c (xs @ c # ys) = Some (length xs)"
  by (induction xs) auto

lemma find_char_None: "c \<notin> set xs \<Longrightarrow> find_char c xs = None"
  by (induction xs) auto

lemma digits_no_char: "list_all is_digit ds \<Longrightarrow> \<not> is_digit c \<Longrightarrow> c \<notin> set ds"
  by (auto simp: list_all_iff)

lemma digits_last: "ds \<noteq> [] \<Longrightarrow> list_all is_digit ds \<Longrightarrow> is_digit (ds ! 0) \<and> is_digit (last ds)"
  by (auto simp: list_all_iff)

lemma class_disjoint: "is_digit c \<Longrightarrow> \<not> is_space c" "is_upper c \<Longrightarrow> \<not> is_space c"
  by (auto simp: is_digit_def is_upper_def is_space_def)

lemma sym_from_string_parts:
  assumes fc: "fc_text_ok fc" and v: "sym_valid v"
    and ds: "ds = std_to_string (unat (sym_decimals v))"
  shows "sym_from_string fc (ds @ [CHR '',''] @ sym_name v) = Inr v"
proof -
  let ?s = "ds @ [CHR '',''] @ sym_name v"
  have str: "ds \<noteq> []" "list_all is_digit ds" "digits_value ds = unat (sym_decimals v)"
    using std_to_string_digits ds by simp_all
  have up: "list_all is_upper (sym_name v)" using v by (simp add: sym_valid_def valid_name_def)
  have "\<not> is_space (?s ! 0)" using digits_last [OF str(1,2)] str(1) class_disjoint by (simp add: nth_append)
  moreover have "\<not> is_space (last ?s)"
    using up class_disjoint(2) by (cases "sym_name v = []") (auto simp: list_all_iff is_space_def)
  ultimately have trim: "fc_trim fc ?s = ?s" using fc by (simp add: fc_text_ok_def)
  have "CHR '','' \<notin> set ds" using digits_no_char [OF str(2)] by (simp add: is_digit_def)
  then have pos: "find_char (CHR '','') ?s = Some (length ds)" using find_char_append by simp
  have "digits_value ds < 2 ^ 63" using str(3) unat_u8_bound [of "sym_decimals v"] by simp
  then have num: "fc_to_int64 fc ds = Inr (int (unat (sym_decimals v)))" using fc str by (simp add: fc_text_ok_def)
  have "string_to_symbol (sym_decimals v) (sym_name v) = Inr v"
    using v by (intro string_to_symbol_parts) (simp add: sym_valid_def)
  then show ?thesis
    using trim pos num v by (simp add: sym_from_string_def Let_def make_symbol_def sym_valid_def)
qed

lemma power_10_loop_eq: "power_10_loop n x = x * 10 ^ n"
  by (induction n arbitrary: x) (simp_all add: algebra_simps)

lemma ten_power_bound: "d \<le> 18 \<Longrightarrow> (10 :: int) ^ d < 2 ^ 63"
proof -
  assume "d \<le> 18"
  then have "(10 :: int) ^ d \<le> 10 ^ 18" by (intro power_increasing) auto
  then show ?thesis by simp
qed

lemma sym_precision_value:
  assumes "sym_valid v"
  shows "\<exists>p. sym_precision v = Inr p \<and> sint p = 10 ^ unat (sym_decimals v)"
proof -
  let ?d = "unat (sym_decimals v)"
  have d: "?d \<le> 18" using assms by (simp add: sym_valid_def max_precision_def word_le_nat_alt)
  have "sint (word_of_int (10 ^ ?d) :: u64) = signed_take_bit 63 (10 ^ ?d)" by (simp only: signed_of_int) simp
  also have "\<dots> = 10 ^ ?d" using ten_power_bound [OF d] by (intro signed_take_bit_int_eq_self) (auto intro: order_trans [of _ 0])
  finally have "sint (10 ^ ?d :: u64) = 10 ^ ?d" by simp
  with assms show ?thesis by (simp add: sym_precision_def sym_valid_def power_10_loop_eq)
qed

definition amount_text :: "bool \<Rightarrow> string \<Rightarrow> string \<Rightarrow> string" where
  "amount_text neg qs ds = (if neg then ''-'' else '''') @ qs @ (if ds = [] then '''' else ''.'' @ ds)"

lemma amount_text_chars:
  assumes "qs \<noteq> []" and "list_all is_digit qs" and "list_all is_digit ds"
  shows "CHR '' '' \<notin> set (amount_text neg qs ds)" and "amount_text neg qs ds \<noteq> []"
    and "\<not> is_space (amount_text neg qs ds ! 0)" and "amount_text neg qs ds ! 0 = CHR ''-'' \<longleftrightarrow> neg"
    and "find_char (CHR ''.'') (amount_text neg qs ds) =
      (if ds = [] then None else Some (length ((if neg then ''-'' else '''') @ qs)))"
proof -
  let ?sg = "if neg then ''-'' else ''''"
  have none: "CHR ''.'' \<notin> set (?sg @ qs)" "CHR '' '' \<notin> set qs" "CHR '' '' \<notin> set ds"
    using digits_no_char [OF assms(2)] digits_no_char [OF assms(3)] by (auto simp: is_digit_def)
  then show "CHR '' '' \<notin> set (amount_text neg qs ds)" by (auto simp: amount_text_def)
  show "amount_text neg qs ds \<noteq> []" using assms(1) by (simp add: amount_text_def)
  have hd: "is_digit (qs ! 0)" using digits_last [OF assms(1,2)] by simp
  then show "\<not> is_space (amount_text neg qs ds ! 0)" "amount_text neg qs ds ! 0 = CHR ''-'' \<longleftrightarrow> neg"
    using assms(1) class_disjoint(1) by (auto simp: amount_text_def nth_append is_space_def is_digit_def)
  show "find_char (CHR ''.'') (amount_text neg qs ds) = (if ds = [] then None else Some (length (?sg @ qs)))"
    using find_char_append [OF none(1), of ds] find_char_None [OF none(1)] by (auto simp: amount_text_def)
qed

lemma int64_of_digits:
  assumes "fc_text_ok fc" and "ds \<noteq> []" and "list_all is_digit ds" and "digits_value ds < 2 ^ 63"
  shows "fc_to_int64 fc ((if neg then ''-'' else '''') @ ds) = Inr ((if neg then - 1 else 1) * int (digits_value ds))"
  using assms by (simp add: fc_text_ok_def)

lemma safe_sum:
  assumes "fc_text_ok fc" and "q * int p + f \<le> max_amount" and "0 \<le> q" and "0 \<le> f" and "0 < p" and "int p < 2 ^ 63"
    and "s = 1 \<or> s = - 1"
  shows "ebind (fc_safe_mul fc (s * q) (int p)) (\<lambda>n. fc_safe_add fc n (s * f)) = Inr (s * (q * int p + f))"
proof -
  define m where "m = q * int p"
  have "q * 1 \<le> m" using assms(3,5) unfolding m_def by (intro mult_left_mono) auto
  then have "q \<le> max_amount" "0 \<le> m" "m \<le> max_amount" "f \<le> max_amount"
    using assms(2,3,4) unfolding m_def by linarith+
  then have "in_i64 (s * q)" "in_i64 (int p)" "in_i64 (s * m)" "in_i64 (s * f)" "in_i64 (s * m + s * f)"
    using assms(2-7) unfolding m_def [symmetric]
    by (auto simp: in_i64_def INT64_MIN_def INT64_MAX_def max_amount_def)
  then have range: "in_i64 (s * q)" "in_i64 (int p)" "in_i64 (s * q * int p)" "in_i64 (s * f)" "in_i64 (s * q * int p + s * f)"
    by (simp_all add: m_def mult.assoc)
  then have "fc_safe_mul fc (s * q) (int p) = Inr (s * q * int p)" using assms(1) by (simp add: fc_text_ok_def)
  moreover have "fc_safe_add fc (s * q * int p) (s * f) = Inr (s * q * int p + s * f)"
    using assms(1) range by (simp add: fc_text_ok_def)
  ultimately show ?thesis by (simp add: algebra_simps)
qed

lemma parse_amount_parts:
  assumes fc: "fc_text_ok fc" and qs: "qs \<noteq> []" "list_all is_digit qs" and ds: "list_all is_digit ds"
    and range: "int (digits_value qs) * int p + int (digits_value ds) \<le> max_amount" "0 < p"
    and s: "s = (if neg then - 1 else 1)" and A: "A = amount_text neg qs ds"
  shows "(case find_char (CHR ''.'') A of
        None \<Rightarrow> ebind (fc_to_int64 fc A) (\<lambda>i. Inr (i, 0))
      | Some p \<Rightarrow>
          ebind (fc_to_int64 fc (take p A)) (\<lambda>i.
          ebind (fc_to_int64 fc (drop (p + 1) A)) (\<lambda>f.
          ebind (if A ! 0 = CHR ''-'' then fc_safe_mul fc f (- 1) else Inr f) (\<lambda>f. Inr (i, f))))) =
    Inr (s * int (digits_value qs), s * int (digits_value ds))"
proof -
  let ?sg = "if neg then ''-'' else ''''"
  have "int (digits_value qs) * 1 \<le> int (digits_value qs) * int p" using range(2) by (intro mult_left_mono) auto
  then have "int (digits_value qs) \<le> max_amount" "int (digits_value ds) \<le> max_amount" using range(1) by linarith+
  then have small: "digits_value qs < 2 ^ 62" "digits_value ds < 2 ^ 62" unfolding max_amount_def by simp_all
  note chars = amount_text_chars [OF qs ds, of neg, folded A]
  have int: "fc_to_int64 fc (?sg @ qs) = Inr (s * int (digits_value qs))"
    using int64_of_digits [OF fc qs, of neg] small s by simp
  show ?thesis
  proof (cases "ds = []")
    case True
    then have "A = ?sg @ qs" by (simp add: A amount_text_def)
    with True chars(5) int show ?thesis by (simp add: digits_value_def)
  next
    case False
    have parts: "take (length (?sg @ qs)) A = ?sg @ qs" "drop (length (?sg @ qs) + 1) A = ds"
      using False by (simp_all add: A amount_text_def)
    have f: "fc_to_int64 fc ds = Inr (int (digits_value ds))"
      using int64_of_digits [OF fc False ds, of False] small by simp
    have "fc_safe_mul fc (int (digits_value ds)) (- 1) = Inr (- int (digits_value ds))"
      using fc small by (simp add: fc_text_ok_def in_i64_def INT64_MIN_def INT64_MAX_def)
    then show ?thesis
      using False chars(4,5) int f parts s by simp
  qed
qed

lemma asset_from_string_parts:
  assumes fc: "fc_text_ok fc" and v: "sym_valid v" "sym_name v \<noteq> []"
    and qs: "qs \<noteq> []" "list_all is_digit qs" and ds: "list_all is_digit ds" "length ds = unat (sym_decimals v)"
    and range: "int (digits_value qs) * 10 ^ length ds + int (digits_value ds) \<le> max_amount"
    and s: "s = (if neg then - 1 else 1)"
  shows "asset_from_string fc (amount_text neg qs ds @ '' '' @ sym_name v) =
    Inr \<lparr>amount = s * (int (digits_value qs) * 10 ^ length ds + int (digits_value ds)), sym = v\<rparr>"
proof -
  define A where "A = amount_text neg qs ds"
  let ?s = "A @ '' '' @ sym_name v"
  note chars = amount_text_chars [OF qs ds(1), of neg, folded A_def]
  have up: "list_all is_upper (sym_name v)" using v by (simp add: sym_valid_def valid_name_def)
  have ends: "\<not> is_space (last (sym_name v))" "\<not> is_space (sym_name v ! 0)"
    using up v(2) class_disjoint(2) by (auto simp: list_all_iff)
  have trim: "fc_trim fc ?s = ?s" "fc_trim fc (sym_name v) = sym_name v"
    using fc chars(2,3) ends v(2) by (simp_all add: fc_text_ok_def nth_append)
  have space: "find_char (CHR '' '') ?s = Some (length A)" using find_char_append [OF chars(1)] by simp
  have tk: "take (length A) ?s = A" "drop (length A + 1) ?s = sym_name v" by simp_all
  have dot: "case find_char (CHR ''.'') A of None \<Rightarrow> True | Some p \<Rightarrow> p \<noteq> length A - 1"
    using chars(5) by (auto simp: A_def amount_text_def)
  have prec: "(case find_char (CHR ''.'') A of None \<Rightarrow> ''0'' | Some p \<Rightarrow> std_to_string (length A - p - 1)) =
      std_to_string (unat (sym_decimals v))"
    using chars(5) ds(2) by (auto simp: A_def amount_text_def std_to_string.simps [of 0] digit_char_0)
  have sy: "sym_from_string fc (std_to_string (unat (sym_decimals v)) @ [CHR '',''] @ sym_name v) = Inr v"
    using fc v(1) by (rule sym_from_string_parts) simp
  obtain p where p: "sym_precision v = Inr p" "sint p = int (10 ^ length ds)"
    using sym_precision_value [OF v(1)] ds(2) by auto
  have range': "int (digits_value qs) * int (10 ^ length ds) + int (digits_value ds) \<le> max_amount" using range by simp
  have parsed: "(case find_char (CHR ''.'') A of
        None \<Rightarrow> ebind (fc_to_int64 fc A) (\<lambda>i. Inr (i, 0))
      | Some p \<Rightarrow>
          ebind (fc_to_int64 fc (take p A)) (\<lambda>i.
          ebind (fc_to_int64 fc (drop (p + 1) A)) (\<lambda>f.
          ebind (if A ! 0 = CHR ''-'' then fc_safe_mul fc f (- 1) else Inr f) (\<lambda>f. Inr (i, f))))) =
      Inr (s * int (digits_value qs), s * int (digits_value ds))"
    by (rule parse_amount_parts [OF fc qs ds(1) range' _ s A_def]) simp
  have "ebind (fc_safe_mul fc (s * int (digits_value qs)) (int (10 ^ length ds))) (\<lambda>n. fc_safe_add fc n (s * int (digits_value ds))) =
      Inr (s * (int (digits_value qs) * int (10 ^ length ds) + int (digits_value ds)))"
    using ds(2) v(1) s ten_power_bound [of "length ds"]
    by (intro safe_sum [OF fc range']) (auto simp: sym_valid_def max_precision_def word_le_nat_alt)
  then have sum: "ebind (fc_safe_mul fc (s * int (digits_value qs)) (sint p)) (\<lambda>n. ebind (fc_safe_add fc n (s * int (digits_value ds))) g) =
      g (s * (int (digits_value qs) * 10 ^ length ds + int (digits_value ds)))" for g :: "int \<Rightarrow> asset result"
    by (simp add: p(2) ebind_assoc [symmetric])
  have mk: "make_asset (s * (int (digits_value qs) * 10 ^ length ds + int (digits_value ds))) v =
      Inr \<lparr>amount = s * (int (digits_value qs) * 10 ^ length ds + int (digits_value ds)), sym = v\<rparr>"
  proof -
    define m where "m = int (digits_value qs) * 10 ^ length ds + int (digits_value ds)"
    have "0 \<le> m" "m \<le> max_amount" using range by (simp_all add: m_def)
    then show ?thesis unfolding m_def [symmetric]
      using v(1) s by (auto simp: make_asset_def is_amount_within_range_def max_amount_def)
  qed
  have "asset_from_string fc ?s = Inr \<lparr>amount = s * (int (digits_value qs) * 10 ^ length ds + int (digits_value ds)), sym = v\<rparr>"
    unfolding asset_from_string_def Let_def trim(1) space option.case tk trim(2) prec sy ebind_simps parsed
      prod.case p(1) sum mk
    using dot by simp
  then show ?thesis by (simp add: A_def)
qed

lemma asset_to_string_parts:
  assumes fc: "fc_text_ok fc" and a: "asset_is_valid a"
  obtains qs ds where "asset_to_string fc a = Inr (amount_text (amount a < 0) qs ds @ '' '' @ sym_name (sym a))"
    and "qs \<noteq> []" and "list_all is_digit qs" and "list_all is_digit ds" and "length ds = unat (sym_decimals (sym a))"
    and "int (digits_value qs) * 10 ^ length ds + int (digits_value ds) = \<bar>amount a\<bar>"
proof -
  let ?d = "unat (sym_decimals (sym a))"
  define n where "n = nat \<bar>amount a\<bar>"
  have n: "int n = \<bar>amount a\<bar>" "n < 2 ^ 62"
    using a by (auto simp: n_def asset_is_valid_def is_amount_within_range_def max_amount_def)
  have v: "sym_valid (sym a)" and d: "?d \<le> 18"
    using a by (simp_all add: asset_is_valid_def sym_valid_def max_precision_def word_le_nat_alt)
  obtain p where p: "sym_precision (sym a) = Inr p" "sint p = int (10 ^ ?d)" using sym_precision_value [OF v] by auto
  have mod: "n mod 10 ^ ?d < 10 ^ ?d" by simp
  obtain ds where ds: "drop 1 (std_to_string (10 ^ ?d + n mod 10 ^ ?d)) = ds" "length ds = ?d" "list_all is_digit ds"
      "digits_value ds = n mod 10 ^ ?d"
    using padded_digits [OF mod] .
  have ten: "(10 :: nat) ^ ?d \<le> 10 ^ 18" using d by (intro power_increasing) auto
  have qs: "fc_to_string fc (\<bar>amount a\<bar> div sint p) = std_to_string (n div 10 ^ ?d)"
  proof -
    have "n div 10 ^ ?d < 2 ^ 63"
      using le_less_trans [OF div_le_dividend [of n "10 ^ ?d"], of "2 ^ 63"] n(2) by simp
    moreover have "\<bar>amount a\<bar> div sint p = int (n div 10 ^ ?d)" using n(1) p(2) by (simp add: zdiv_int)
    ultimately show ?thesis using fc by (simp add: fc_text_ok_def)
  qed
  have fr: "fc_to_string fc (sint p + \<bar>amount a\<bar> mod sint p) = std_to_string (10 ^ ?d + n mod 10 ^ ?d)"
  proof -
    have "10 ^ ?d + n mod 10 ^ ?d < 10 ^ ?d + 10 ^ ?d" using mod by (rule add_strict_left_mono)
    also have "\<dots> \<le> 2 ^ 63" using ten by simp
    finally have "10 ^ ?d + n mod 10 ^ ?d < 2 ^ 63" .
    moreover have "sint p + \<bar>amount a\<bar> mod sint p = int (10 ^ ?d + n mod 10 ^ ?d)" using n(1) p(2) by (simp add: zmod_int)
    ultimately show ?thesis using fc by (simp add: fc_text_ok_def del: of_nat_add)
  qed
  have "signed_result \<bar>amount a\<bar> = Inr \<bar>amount a\<bar>"
    using n by (simp add: signed_result_def in_i64_def INT64_MIN_def INT64_MAX_def)
  then have "asset_to_string fc a = Inr (amount_text (amount a < 0) (std_to_string (n div 10 ^ ?d)) ds @ '' '' @ sym_name (sym a))"
    using p(1) qs fr ds(1,2) by (auto simp: asset_to_string_def asset_precision_def Let_def amount_text_def unat_eq_0 dest: sym)
  moreover have "int (n div 10 ^ ?d) * 10 ^ ?d + int (n mod 10 ^ ?d) = \<bar>amount a\<bar>"
  proof -
    have "int (n div 10 ^ ?d * 10 ^ ?d + n mod 10 ^ ?d) = int n" by (simp only: div_mult_mod_eq)
    then show ?thesis using n(1) by (simp only: of_nat_add of_nat_mult of_nat_power of_nat_numeral)
  qed
  ultimately show thesis using that std_to_string_digits [of "n div 10 ^ ?d"] ds by simp
qed

subsection \<open>Properties\<close>

text \<open>
  symbols and their text correspond one to one. A valid symbol printed and read back is the
  same symbol, and a precision of at most 18 with a name of at most seven upper-case letters makes
  a valid symbol with exactly these parts.
\<close>

theorem symbol_roundtrip:
  assumes "fc_text_ok fc"
  shows "(sym_valid v \<longrightarrow> sym_from_string fc (sym_to_string v) = Inr v) \<and>
    (p \<le> max_precision \<and> valid_name nm \<and> length nm \<le> 7 \<longrightarrow>
       (\<exists>v. make_symbol_of p nm = Inr v \<and> sym_valid v \<and> sym_decimals v = p \<and> sym_name v = nm))"
proof (intro conjI impI)
  assume "sym_valid v"
  then show "sym_from_string fc (sym_to_string v) = Inr v"
    unfolding sym_to_string_def by (rule sym_from_string_parts [OF assms]) simp
next
  assume nm: "p \<le> max_precision \<and> valid_name nm \<and> length nm \<le> 7"
  then obtain v where v: "string_to_symbol p nm = Inr v" "unat v = unat p + 256 * code_value nm"
    using string_to_symbol_value [of nm p] by (auto simp: valid_name_def)
  with nm have "sym_decimals v = p" "sym_name v = nm" by (simp_all add: symbol_of_parts valid_name_def)
  with v(1) nm show "\<exists>v. make_symbol_of p nm = Inr v \<and> sym_valid v \<and> sym_decimals v = p \<and> sym_name v = nm"
    by (simp add: make_symbol_of_def make_symbol_def sym_valid_def)
qed

definition sample_to_int64 :: "string \<Rightarrow> int result" where
  "sample_to_int64 s =
     (let (neg, ds) = (case s of [] \<Rightarrow> (False, []) | c # cs \<Rightarrow> if c = CHR ''-'' then (True, cs) else (False, s));
          n = (if neg then - 1 else 1) * int (digits_value ds)
      in if ds \<noteq> [] \<and> list_all is_digit ds \<and> in_i64 n then Inr n else Inl fc_parse_error_exception)"

definition sample_fc :: fc_text where
  "sample_fc =
     \<lparr>fc_trim = (\<lambda>s. rev (dropWhile is_space (rev (dropWhile is_space s)))),
      fc_to_int64 = sample_to_int64,
      fc_to_string = (\<lambda>n. (if n < 0 then ''-'' else '''') @ std_to_string (nat \<bar>n\<bar>)),
      fc_safe_mul = (\<lambda>a b. if in_i64 (a * b) then Inr (a * b) else Inl fc_overflow_exception),
      fc_safe_add = (\<lambda>a b. if in_i64 (a + b) then Inr (a + b) else Inl fc_overflow_exception)\<rparr>"

lemma sample_fc_ok: "fc_text_ok sample_fc"
proof -
  have trim: "fc_trim sample_fc s = s" if "s \<noteq> []" "\<not> is_space (s ! 0)" "\<not> is_space (last s)" for s
  proof -
    have "dropWhile is_space s = s" using that by (cases s) auto
    moreover have "dropWhile is_space (rev s) = rev s"
      using that by (cases "rev s") (auto simp: last_rev [symmetric] simp del: last_rev)
    ultimately show ?thesis by (simp add: sample_fc_def)
  qed
  have num: "sample_to_int64 ds = Inr (int (digits_value ds))" "sample_to_int64 (CHR ''-'' # ds) = Inr (- int (digits_value ds))"
    if "ds \<noteq> []" "list_all is_digit ds" "digits_value ds < 2 ^ 63" for ds
    using that by (cases ds; auto simp: sample_to_int64_def Let_def in_i64_def INT64_MIN_def INT64_MAX_def is_digit_def)+
  show ?thesis using trim num by (auto simp: fc_text_ok_def) (simp_all add: sample_fc_def)
qed

theorem symbol_roundtrip_witness:
  "sym_valid 0x534F4504 \<and> sym_to_string 0x534F4504 = ''4,EOS'' \<and> sym_from_string sample_fc ''4,EOS'' = Inr 0x534F4504"
proof -
  have "sym_valid 0x534F4504" "sym_to_string 0x534F4504 = ''4,EOS''" by code_simp+
  with symbol_roundtrip [OF sample_fc_ok, of "0x534F4504"] show ?thesis by simp
qed

text \<open>
  C38: an asset printed and read back is the same asset: for every amount within range, negative
  amounts and amounts below one included, every precision and every non-empty name.
\<close>

theorem asset_roundtrip:
  assumes "fc_text_ok fc" and "asset_is_valid a" and "sym_name (sym a) \<noteq> []"
  shows "ebind (asset_to_string fc a) (asset_from_string fc) = Inr a"
  using assms(1,2)
proof (rule asset_to_string_parts)
  fix qs ds
  assume str: "asset_to_string fc a = Inr (amount_text (amount a < 0) qs ds @ '' '' @ sym_name (sym a))"
    and d: "qs \<noteq> []" "list_all is_digit qs" "list_all is_digit ds" "length ds = unat (sym_decimals (sym a))"
    and sum: "int (digits_value qs) * 10 ^ length ds + int (digits_value ds) = \<bar>amount a\<bar>"
  have v: "sym_valid (sym a)" using assms(2) by (simp add: asset_is_valid_def)
  have "\<bar>amount a\<bar> \<le> max_amount" using assms(2) by (auto simp: asset_is_valid_def is_amount_within_range_def)
  then have "asset_from_string fc (amount_text (amount a < 0) qs ds @ '' '' @ sym_name (sym a)) =
      Inr \<lparr>amount = (if amount a < 0 then - 1 else 1) * \<bar>amount a\<bar>, sym = sym a\<rparr>"
    using asset_from_string_parts [OF assms(1) v assms(3) d, of _ "amount a < 0"] sum by simp
  with str show ?thesis by (cases a) (auto split: if_splits)
qed

theorem asset_roundtrip_witness:
  "asset_to_string sample_fc \<lparr>amount = - 5, sym = 0x534F4501\<rparr> = Inr ''-0.5 EOS'' \<and>
   asset_from_string sample_fc ''-0.5 EOS'' = Inr \<lparr>amount = - 5, sym = 0x534F4501\<rparr>"
proof -
  have "asset_is_valid \<lparr>amount = - 5, sym = 0x534F4501\<rparr>" "sym_name 0x534F4501 \<noteq> []"
    "asset_to_string sample_fc \<lparr>amount = - 5, sym = 0x534F4501\<rparr> = Inr ''-0.5 EOS''" by code_simp+
  with asset_roundtrip [OF sample_fc_ok, of "\<lparr>amount = - 5, sym = 0x534F4501\<rparr>"] show ?thesis by simp
qed

text \<open>
  C37: arithmetic on valid assets is exact and never overflows. Sum and difference are the exact
  amounts when both assets have the same symbol and the result stays within range, and throw
  otherwise; negation always succeeds; comparison of amounts of the same symbol is the order of the
  integers.
\<close>

theorem asset_arithmetic_exact:
  assumes "asset_is_valid a" and "asset_is_valid b"
  shows "asset_plus a b = (if sym a = sym b \<and> \<bar>amount a + amount b\<bar> \<le> max_amount
      then Inr (a\<lparr>amount := amount a + amount b\<rparr>) else Inl asset_type_exception) \<and>
    asset_minus a b = (if sym a = sym b \<and> \<bar>amount a - amount b\<bar> \<le> max_amount
      then Inr (a\<lparr>amount := amount a - amount b\<rparr>) else Inl asset_type_exception) \<and>
    asset_uminus a = Inr (a\<lparr>amount := - amount a\<rparr>) \<and>
    (sym a = sym b \<longrightarrow> asset_less a b = Inr (amount a < amount b) \<and> asset_le a b = Inr (amount a \<le> amount b) \<and>
       asset_gt a b = Inr (amount a > amount b) \<and> asset_ge a b = Inr (amount a \<ge> amount b))"
proof -
  have range: "\<bar>amount a\<bar> \<le> 2 ^ 62 - 1" "\<bar>amount b\<bar> \<le> 2 ^ 62 - 1" and v: "sym_valid (sym a)"
    using assms by (auto simp: asset_is_valid_def is_amount_within_range_def max_amount_def)
  then have i64: "in_i64 (amount a + amount b)" "in_i64 (amount a - amount b)" "in_i64 (- amount a)"
    by (auto simp: in_i64_def INT64_MIN_def INT64_MAX_def)
  have mk: "make_asset n (sym a) = (if \<bar>n\<bar> \<le> max_amount then Inr (a\<lparr>amount := n\<rparr>) else Inl asset_type_exception)" for n
    using v by (auto simp: make_asset_def is_amount_within_range_def EOS_ASSERT_def abs_le_iff)
  have "\<bar>- amount a\<bar> \<le> max_amount" using range(1) by (simp add: max_amount_def)
  with i64 mk show ?thesis
    by (auto simp: asset_plus_def asset_minus_def asset_uminus_def signed_result_def asset_less_def asset_le_def asset_gt_def
        asset_ge_def asset_eq_def EOS_ASSERT_def not_less)
qed

theorem asset_arithmetic_exact_witness:
  "asset_plus \<lparr>amount = max_amount, sym = 0x534F4504\<rparr> \<lparr>amount = 1, sym = 0x534F4504\<rparr> = Inl asset_type_exception \<and>
   asset_minus \<lparr>amount = max_amount, sym = 0x534F4504\<rparr> \<lparr>amount = 1, sym = 0x534F4504\<rparr> =
     Inr \<lparr>amount = 2 ^ 62 - 2, sym = 0x534F4504\<rparr>"
proof -
  have "sym_valid 0x534F4504" by code_simp
  then have "asset_is_valid \<lparr>amount = max_amount, sym = 0x534F4504\<rparr>" "asset_is_valid \<lparr>amount = 1, sym = 0x534F4504\<rparr>"
    by (simp_all add: asset_is_valid_def is_amount_within_range_def max_amount_def)
  from asset_arithmetic_exact [OF this] show ?thesis by (simp add: max_amount_def)
qed

text \<open>
  what reading a symbol name does on every string. Seven upper-case letters or fewer are
  encoded; another character among the first eight throws; a name that starts with eight letters
  is shifted out of the 64 bits, which is undefined.
\<close>

theorem string_to_symbol_outcome:
  "string_to_symbol p s =
     (let cs = c_string s; letters = takeWhile is_upper cs in
      if length letters \<ge> 8 then Inl undefined_behavior
      else if letters \<noteq> cs then Inl symbol_type_exception
      else Inr (of_nat (unat p + 256 * code_value cs)))"
proof -
  have err: "string_to_symbol_loop i cs r = Inl (if 8 \<le> i + length (takeWhile is_upper cs) then undefined_behavior else symbol_type_exception)"
    if "i \<le> 7" "8 \<le> i + length (takeWhile is_upper cs) \<or> takeWhile is_upper cs \<noteq> cs" for i cs r
    using that
  proof (induction cs arbitrary: i r)
    case (Cons c cs)
    show ?case
    proof (cases "is_upper c \<and> i < 7")
      case True
      then have "string_to_symbol_loop i (c # cs) r =
          string_to_symbol_loop (i + 1) cs (r OR push_bit (8 * (i + 1)) (of_nat (of_char c)))" by simp
      with True Cons show ?thesis by simp
    next
      case False
      then show ?thesis using Cons.prems by auto
    qed
  qed simp
  let ?cs = "c_string s"
  show ?thesis
  proof (cases "8 \<le> length (takeWhile is_upper ?cs) \<or> takeWhile is_upper ?cs \<noteq> ?cs")
    case True
    then show ?thesis using err [of 0 ?cs 0] by (auto simp: string_to_symbol_def Let_def)
  next
    case False
    then have whole: "takeWhile is_upper ?cs = ?cs" and "length (takeWhile is_upper ?cs) \<le> 7" by auto
    from this(2) have "length ?cs \<le> 7" unfolding whole .
    moreover have "list_all is_upper ?cs" using whole by (simp add: takeWhile_eq_all_conv list_all_iff)
    ultimately have cs: "list_all is_upper ?cs" "length ?cs \<le> 7" by simp_all
    have "c_string ?cs = ?cs" by (simp add: c_string_def)
    then have "string_to_symbol p ?cs = string_to_symbol p s" by (simp add: string_to_symbol_def)
    then obtain v where "string_to_symbol p s = Inr v" "unat v = unat p + 256 * code_value ?cs"
      using string_to_symbol_value [OF cs, of p] by auto
    moreover from this have "v = of_nat (unat p + 256 * code_value ?cs)" by (metis ucast_id of_nat_unat)
    ultimately show ?thesis using False by (simp add: Let_def)
  qed
qed

text \<open>The precision is cut to eight bits before it is checked.\<close>

lemma precision_truncated: "sym_from_string sample_fc ''260,EOS'' = Inr 0x534F4504"
  by code_simp

end
