(* ===== verification/Authority.thy ===== *)
theory Authority
  imports Flat_Map Block_Header
begin

text \<open>
  Authorities and whether provided keys, permissions and delays satisfy them: \<open>authority.hpp\<close> and
  \<open>authority_checker.hpp\<close>. An authority weighs keys, other permissions and waiting times against a
  threshold; a permission names another authority, so the check recurses, up to a depth limit and
  through a cache of permissions already decided. The order of public keys and the order of
  equivalent elements of \<open>boost::container::flat_multiset\<close> are parameters. The lemmas show what
  \<open>validate\<close> accepts, and that a satisfied authority is granted by what was provided.
\<close>

type_synonym weight_type = u16
type_synonym permission_level = "account_name \<times> permission_name"

record permission_level_weight =
  plw_permission :: permission_level
  plw_weight :: weight_type

record key_weight =
  kw_key :: public_key_type
  kw_weight :: weight_type

record wait_weight =
  ww_wait_sec :: u32
  ww_weight :: weight_type

record authority =
  threshold :: u32
  keys :: "key_weight list"
  accounts :: "permission_level_weight list"
  waits :: "wait_weight list"

definition key_authority :: "public_key_type \<Rightarrow> u32 \<Rightarrow> authority" where
  "key_authority k delay_sec =
     (if delay_sec > 0
      then \<lparr>threshold = 2, keys = [\<lparr>kw_key = k, kw_weight = 1\<rparr>], accounts = [],
            waits = [\<lparr>ww_wait_sec = delay_sec, ww_weight = 1\<rparr>]\<rparr>
      else \<lparr>threshold = 1, keys = [\<lparr>kw_key = k, kw_weight = 1\<rparr>], accounts = [], waits = []\<rparr>)"

text \<open>The serialized size of a key is that of the \<open>fc\<close> library.\<close>

definition billable_alignment :: u64 where
  "billable_alignment = 16"

definition billable_size_v :: "u64 \<Rightarrow> u64" where
  "billable_size_v v = ((v + billable_alignment - 1) div billable_alignment) * billable_alignment"

definition billable_plw :: u64 where "billable_plw = billable_size_v 24"

definition billable_kw :: u64 where "billable_kw = billable_size_v 8"

definition billable_ww :: u64 where "billable_ww = billable_size_v 16"

definition get_billable_size :: "(public_key_type \<Rightarrow> u64) \<Rightarrow> authority \<Rightarrow> u64" where
  "get_billable_size pack_size auth =
     (let accounts_size = of_nat (length (accounts auth)) * billable_plw;
          waits_size = of_nat (length (waits auth)) * billable_ww;
          keys_size = fold (\<lambda>k s. s + billable_kw + pack_size (kw_key k)) (keys auth) 0
      in accounts_size + waits_size + keys_size)"

subsection \<open>Validation\<close>

text \<open>One of the three loops of \<open>validate\<close>; \<open>None\<close> is its \<open>return false\<close>.\<close>

fun validate_loop :: "('a \<Rightarrow> 'a \<Rightarrow> bool) \<Rightarrow> ('a \<Rightarrow> weight_type) \<Rightarrow> 'a option \<Rightarrow> 'a list \<Rightarrow> u32 \<Rightarrow> u32 option" where
  "validate_loop bad weight prev [] total_weight = Some total_weight"
| "validate_loop bad weight prev (x # xs) total_weight =
     (if (case prev of None \<Rightarrow> False | Some p \<Rightarrow> bad p x) then None
      else validate_loop bad weight (Some x) xs (total_weight + ucast (weight x)))"

definition validate :: "(public_key_type \<Rightarrow> public_key_type \<Rightarrow> bool) \<Rightarrow> authority \<Rightarrow> bool" where
  "validate key_less auth =
     (if length (keys auth) + length (accounts auth) + length (waits auth) > 2 ^ 16 then False
      else if threshold auth = 0 then False
      else case validate_loop (\<lambda>p k. \<not> key_less (kw_key p) (kw_key k)) kw_weight None (keys auth) 0 of
        None \<Rightarrow> False
      | Some total_weight \<Rightarrow>
      case validate_loop (\<lambda>p a. plw_permission p \<ge> plw_permission a) plw_weight None (accounts auth) total_weight of
        None \<Rightarrow> False
      | Some total_weight \<Rightarrow>
      if waits auth \<noteq> [] \<and> ww_wait_sec (waits auth ! 0) = 0 then False
      else case validate_loop (\<lambda>p w. ww_wait_sec p \<ge> ww_wait_sec w) ww_weight None (waits auth) total_weight of
        None \<Rightarrow> False
      | Some total_weight \<Rightarrow> total_weight \<ge> threshold auth)"

subsection \<open>The authority checker\<close>

datatype meta_permission =
    Account_Permission permission_level weight_type
  | Key_Permission public_key_type weight_type
  | Wait_Permission u32 weight_type

fun meta_weight :: "meta_permission \<Rightarrow> u32" where
  "meta_weight (Account_Permission p w) = ucast w"
| "meta_weight (Key_Permission k w) = ucast w"
| "meta_weight (Wait_Permission s w) = ucast w"

fun meta_which :: "meta_permission \<Rightarrow> nat" where
  "meta_which (Account_Permission p w) = 0"
| "meta_which (Key_Permission k w) = 1"
| "meta_which (Wait_Permission s w) = 2"

definition meta_permission_comparator :: "meta_permission \<Rightarrow> meta_permission \<Rightarrow> bool" where
  "meta_permission_comparator l r \<longleftrightarrow> (meta_weight l, meta_which l) > (meta_weight r, meta_which r)"

datatype permission_cache_status = being_evaluated | permission_unsatisfied | permission_satisfied

type_synonym permission_cache_type = "(permission_level, permission_cache_status) flat_map"

text \<open>
  What a checker is made with. \<open>arrange\<close> is the multiset the entries of an authority are put in,
  as the sequence it is traversed in. Delays are microseconds.
\<close>

record authority_checker =
  permission_to_authority :: "permission_level \<Rightarrow> authority result"
  recursion_depth_limit :: u16
  provided_keys :: "public_key_type list"
  provided_permissions :: "permission_level list"
  provided_delay :: int
  arrange :: "meta_permission list \<Rightarrow> meta_permission list"

definition seconds :: "u32 \<Rightarrow> int" where
  "seconds s = uint s * 1000000"

definition authority_entries :: "authority \<Rightarrow> meta_permission list" where
  "authority_entries auth =
     map (\<lambda>w. Wait_Permission (ww_wait_sec w) (ww_weight w)) (waits auth) @
     map (\<lambda>k. Key_Permission (kw_key k) (kw_weight k)) (keys auth) @
     map (\<lambda>a. Account_Permission (plw_permission a) (plw_weight a)) (accounts auth)"

definition permission_status_in_cache :: "permission_cache_type \<Rightarrow> permission_level \<Rightarrow> permission_cache_status option" where
  "permission_status_in_cache permissions lvl =
     (case fm_lookup permissions lvl of
        Some st \<Rightarrow> Some st
      | None \<Rightarrow> fm_lookup permissions (fst lvl, 0))"

definition initialize_permission_cache :: "authority_checker \<Rightarrow> permission_cache_type" where
  "initialize_permission_cache ch =
     fold (\<lambda>p c. fm_emplace p permission_satisfied c) (provided_permissions ch) []"

text \<open>The state of a visitor: the weight so far, the cache and the marks of the used keys.\<close>

type_synonym tally = "u32 \<times> permission_cache_type \<times> bool list"

definition visit_wait :: "authority_checker \<Rightarrow> u32 \<Rightarrow> weight_type \<Rightarrow> tally \<Rightarrow> tally" where
  "visit_wait ch wait_sec w st =
     (let (total_weight, cache, used) = st in
      if provided_delay ch \<ge> seconds wait_sec then (total_weight + ucast w, cache, used) else st)"

fun index_of :: "'a \<Rightarrow> 'a list \<Rightarrow> nat" where
  "index_of x [] = 0"
| "index_of x (y # ys) = (if x = y then 0 else Suc (index_of x ys))"

definition visit_key :: "authority_checker \<Rightarrow> public_key_type \<Rightarrow> weight_type \<Rightarrow> tally \<Rightarrow> tally" where
  "visit_key ch k w st =
     (let (total_weight, cache, used) = st; i = index_of k (provided_keys ch) in
      if i < length (provided_keys ch) then (total_weight + ucast w, cache, used[i := True]) else st)"

text \<open>
  The permission visitor, the loop over the entries of an authority, and the check of an
  authority. A failed check restores the marks of the used keys.
\<close>

function (sequential)
  visit_account :: "authority_checker \<Rightarrow> u16 \<Rightarrow> permission_level \<Rightarrow> weight_type \<Rightarrow> tally \<Rightarrow> tally result" and
  tally_loop :: "authority_checker \<Rightarrow> u16 \<Rightarrow> u32 \<Rightarrow> meta_permission list \<Rightarrow> tally \<Rightarrow> (bool \<times> tally) result" and
  satisfied_at :: "authority_checker \<Rightarrow> authority \<Rightarrow> permission_cache_type \<Rightarrow> u16 \<Rightarrow> bool list \<Rightarrow>
     (bool \<times> permission_cache_type \<times> bool list) result" where
  "visit_account ch depth p w (total_weight, cache, used) =
     (case permission_status_in_cache cache p of
        Some status \<Rightarrow>
          Inr (if status = permission_satisfied then (total_weight + ucast w, cache, used) else (total_weight, cache, used))
      | None \<Rightarrow>
          if depth < recursion_depth_limit ch then
            (case permission_to_authority ch p of
               Inl e \<Rightarrow> if e = permission_query_exception then Inr (total_weight, cache, used) else Inl e
             | Inr auth \<Rightarrow>
                 ebind (satisfied_at ch auth (fm_emplace p being_evaluated cache) (depth + 1) used) (\<lambda>(r, cache, used).
                 if r then Inr (total_weight + ucast w, fm_update p permission_satisfied cache, used)
                 else Inr (total_weight, fm_update p permission_unsatisfied cache, used)))
          else Inr (total_weight, cache, used))"
| "tally_loop ch depth thr [] st = Inr (False, st)"
| "tally_loop ch depth thr (p # ps) st =
     ebind (case p of
              Wait_Permission s w \<Rightarrow> Inr (visit_wait ch s w st)
            | Key_Permission k w \<Rightarrow> Inr (visit_key ch k w st)
            | Account_Permission l w \<Rightarrow> visit_account ch depth l w st) (\<lambda>st.
     if fst st \<ge> thr then Inr (True, st) else tally_loop ch depth thr ps st)"
| "satisfied_at ch auth cache depth used =
     ebind (tally_loop ch depth (threshold auth) (arrange ch (authority_entries auth)) (0, cache, used))
       (\<lambda>(r, total_weight, cache, used'). Inr (r, cache, if r then used' else used))"
  by pat_completeness auto
termination
proof (relation "measures [\<lambda>x. case x of
      Inl (ch, d, _) \<Rightarrow> unat (recursion_depth_limit ch) - unat d
    | Inr (Inl (ch, d, _)) \<Rightarrow> unat (recursion_depth_limit ch) - unat d
    | Inr (Inr (ch, _, _, d, _)) \<Rightarrow> unat (recursion_depth_limit ch) - unat d,
  \<lambda>x. case x of Inl _ \<Rightarrow> 0 | Inr (Inl (ch, d, thr, ps, _)) \<Rightarrow> 1 + length ps
    | Inr (Inr (ch, auth, _)) \<Rightarrow> 2 + length (arrange ch (authority_entries auth))]")
  fix ch :: authority_checker and d :: u16
  assume "d < recursion_depth_limit ch"
  then have "unat d < unat (recursion_depth_limit ch)" by (simp add: word_less_nat_alt)
  moreover from this have "unat (d + 1) = unat d + 1"
    using unat_u16_bound [of "recursion_depth_limit ch"] by (simp add: unat_add_no_overflow)
  ultimately have "unat (recursion_depth_limit ch) - unat (d + 1) < unat (recursion_depth_limit ch) - unat d" by simp
  then show "(Inr (Inr (ch, auth, fm_emplace p being_evaluated cache, d + 1, used)), Inl (ch, d, p, w, t, cache, used))
    \<in> measures [\<lambda>x. case x of
      Inl (ch, d, _) \<Rightarrow> unat (recursion_depth_limit ch) - unat d
    | Inr (Inl (ch, d, _)) \<Rightarrow> unat (recursion_depth_limit ch) - unat d
    | Inr (Inr (ch, _, _, d, _)) \<Rightarrow> unat (recursion_depth_limit ch) - unat d,
  \<lambda>x. case x of Inl _ \<Rightarrow> 0 | Inr (Inl (ch, d, thr, ps, _)) \<Rightarrow> 1 + length ps
    | Inr (Inr (ch, auth, _)) \<Rightarrow> 2 + length (arrange ch (authority_entries auth))]" for auth p cache used w t
    by simp
qed simp_all

declare visit_account.simps [simp del] tally_loop.simps(2) [simp del] satisfied_at.simps [simp del]

text \<open>The public operations. \<open>satisfied\<close> of a permission is one visit with weight one.\<close>

definition satisfied :: "authority_checker \<Rightarrow> permission_level \<Rightarrow> bool list \<Rightarrow> (bool \<times> bool list) result" where
  "satisfied ch permission used =
     ebind (visit_account ch 0 permission 1 (0, initialize_permission_cache ch, used))
       (\<lambda>(total_weight, cache, used). Inr (total_weight > 0, used))"

definition satisfied_with_delay ::
  "authority_checker \<Rightarrow> permission_level \<Rightarrow> int \<Rightarrow> bool list \<Rightarrow> (bool \<times> bool list) result" where
  "satisfied_with_delay ch permission override_provided_delay used =
     satisfied (ch\<lparr>provided_delay := override_provided_delay\<rparr>) permission used"

definition satisfied_authority :: "authority_checker \<Rightarrow> authority \<Rightarrow> bool list \<Rightarrow> (bool \<times> bool list) result" where
  "satisfied_authority ch auth used =
     ebind (satisfied_at ch auth (initialize_permission_cache ch) 0 used) (\<lambda>(r, cache, used). Inr (r, used))"

definition initial_used :: "authority_checker \<Rightarrow> bool list" where
  "initial_used ch = replicate (length (provided_keys ch)) False"

definition all_keys_used :: "bool list \<Rightarrow> bool" where
  "all_keys_used used = list_all (\<lambda>b. b) used"

definition filter_data_by_marker :: "'d list \<Rightarrow> 'm list \<Rightarrow> 'm \<Rightarrow> 'd list" where
  "filter_data_by_marker data markers mark = map fst (filter (\<lambda>(d, m). m = mark) (zip data markers))"

definition checker_used_keys :: "authority_checker \<Rightarrow> bool list \<Rightarrow> public_key_type list" where
  "checker_used_keys ch used = filter_data_by_marker (provided_keys ch) used True"

definition checker_unused_keys :: "authority_checker \<Rightarrow> bool list \<Rightarrow> public_key_type list" where
  "checker_unused_keys ch used = filter_data_by_marker (provided_keys ch) used False"

subsection \<open>What validation accepts\<close>

definition weight_sum :: "('a \<Rightarrow> weight_type) \<Rightarrow> 'a list \<Rightarrow> nat" where
  "weight_sum weight xs = sum_list (map (\<lambda>x. unat (weight x)) xs)"

lemma weight_sum_simps [simp]:
  "weight_sum weight [] = 0" "weight_sum weight (x # xs) = unat (weight x) + weight_sum weight xs"
  "weight_sum weight (xs @ ys) = weight_sum weight xs + weight_sum weight ys"
  by (simp_all add: weight_sum_def)

lemma weight_sum_bound: "weight_sum weight xs \<le> 65535 * length xs"
proof (induction xs)
  case (Cons x xs)
  then show ?case using unat_u16_bound [of "weight x"] by simp
qed simp

definition linked_by :: "('a \<Rightarrow> 'a \<Rightarrow> bool) \<Rightarrow> 'a list \<Rightarrow> bool" where
  "linked_by P xs \<longleftrightarrow> (\<forall>i. i + 1 < length xs \<longrightarrow> P (xs ! i) (xs ! (i + 1)))"

lemma linked_by_Cons: "linked_by P (x # xs) \<longleftrightarrow> (case xs of [] \<Rightarrow> True | y # _ \<Rightarrow> P x y) \<and> linked_by P xs"
proof (cases xs)
  case (Cons y ys)
  have "(\<forall>i. i + 1 < length (x # xs) \<longrightarrow> P ((x # xs) ! i) (xs ! i)) \<longleftrightarrow>
      P x (xs ! 0) \<and> (\<forall>i. i + 1 < length xs \<longrightarrow> P (xs ! i) (xs ! (i + 1)))"
    using Cons by (auto simp: nth_Cons split: nat.splits)
  then show ?thesis using Cons by (simp add: linked_by_def)
qed (simp add: linked_by_def)

lemma unat_u16_to_u32_add:
  assumes "unat (t :: u32) + unat (w :: u16) < 2 ^ 32"
  shows "unat (t + ucast w) = unat t + unat w"
  using assms by (simp add: unat_add_no_overflow)

lemma validate_loop_spec:
  assumes "unat t + weight_sum weight xs < 2 ^ 32"
  shows "validate_loop bad weight prev xs t =
    (if linked_by (\<lambda>a b. \<not> bad a b) (case prev of None \<Rightarrow> xs | Some p \<Rightarrow> p # xs)
     then Some (of_nat (unat t + weight_sum weight xs)) else None)"
  using assms
proof (induction bad weight prev xs t rule: validate_loop.induct)
  case (1 bad weight prev t)
  then show ?case by (auto simp: linked_by_def split: option.splits)
next
  case (2 bad weight prev x xs t)
  have t: "unat (t + ucast (weight x)) = unat t + unat (weight x)"
    using "2.prems" by (intro unat_u16_to_u32_add) simp
  show ?case
  proof (cases "case prev of None \<Rightarrow> False | Some p \<Rightarrow> bad p x")
    case True
    then show ?thesis by (auto simp: linked_by_Cons split: option.splits)
  next
    case False
    have "validate_loop bad weight (Some x) xs (t + ucast (weight x)) =
      (if linked_by (\<lambda>a b. \<not> bad a b) (x # xs) then Some (of_nat (unat t + weight_sum weight (x # xs))) else None)"
      using "2.IH" [OF False] "2.prems" t by (simp add: add.assoc)
    with False show ?thesis by (auto simp: linked_by_Cons [of _ _ "x # xs"] split: option.splits)
  qed
qed

lemma linked_by_trans:
  assumes "transp P"
  shows "linked_by P xs \<longleftrightarrow> sorted_wrt P xs"
proof (induction xs)
  case (Cons x xs)
  show ?case
  proof (cases xs)
    case (Cons y ys)
    then show ?thesis using Cons.IH assms \<open>linked_by P xs \<longleftrightarrow> sorted_wrt P xs\<close>
      by (auto simp: linked_by_Cons dest: transpD)
  qed (simp add: linked_by_def)
qed (simp add: linked_by_def)

definition authority_weight :: "authority \<Rightarrow> nat" where
  "authority_weight auth = weight_sum kw_weight (keys auth) + weight_sum plw_weight (accounts auth) + weight_sum ww_weight (waits auth)"

lemma authority_weight_bound:
  assumes "length (keys auth) + length (accounts auth) + length (waits auth) \<le> 2 ^ 16"
  shows "authority_weight auth < 2 ^ 32"
proof -
  have "authority_weight auth \<le> 65535 * (length (keys auth) + length (accounts auth) + length (waits auth))"
    using weight_sum_bound [of kw_weight "keys auth"] weight_sum_bound [of plw_weight "accounts auth"]
      weight_sum_bound [of ww_weight "waits auth"] by (simp add: authority_weight_def)
  also have "\<dots> \<le> 65535 * 2 ^ 16" using assms by (intro mult_le_mono2)
  finally show ?thesis by simp
qed

definition authority_ok :: "(public_key_type \<Rightarrow> public_key_type \<Rightarrow> bool) \<Rightarrow> authority \<Rightarrow> bool" where
  "authority_ok key_less auth \<longleftrightarrow>
     length (keys auth) + length (accounts auth) + length (waits auth) \<le> 2 ^ 16 \<and>
     0 < threshold auth \<and> unat (threshold auth) \<le> authority_weight auth \<and>
     sorted_wrt key_less (map kw_key (keys auth)) \<and>
     sorted_wrt (<) (map plw_permission (accounts auth)) \<and>
     sorted_wrt (<) (map ww_wait_sec (waits auth)) \<and> (\<forall>w \<in> set (waits auth). 0 < ww_wait_sec w)"

lemma linked_by_sorted:
  "transp R \<Longrightarrow> linked_by (\<lambda>a b. R (f a) (f b)) xs \<longleftrightarrow> sorted_wrt R (map f xs)"
  by (subst linked_by_trans) (auto simp: transp_def sorted_wrt_map)

lemma validate_iff:
  assumes "transp key_less"
  shows "validate key_less auth \<longleftrightarrow> authority_ok key_less auth"
proof (cases "length (keys auth) + length (accounts auth) + length (waits auth) \<le> 2 ^ 16 \<and> threshold auth \<noteq> 0")
  case False
  then show ?thesis by (auto simp: validate_def authority_ok_def)
next
  case True
  let ?k = "weight_sum kw_weight (keys auth)" and ?a = "weight_sum plw_weight (accounts auth)"
    and ?w = "weight_sum ww_weight (waits auth)"
  have sum: "?k + ?a + ?w < 2 ^ 32" using authority_weight_bound [of auth] True by (simp add: authority_weight_def)
  have nat32: "unat (of_nat n :: u32) = n" if "n < 2 ^ 32" for n
    using that by (simp add: unsigned_of_nat take_bit_nat_eq_self)
  have ks: "validate_loop (\<lambda>p k. \<not> key_less (kw_key p) (kw_key k)) kw_weight None (keys auth) 0 =
      (if sorted_wrt key_less (map kw_key (keys auth)) then Some (of_nat ?k) else None)"
    using sum linked_by_sorted [OF assms, of kw_key "keys auth"] by (subst validate_loop_spec) auto
  have acc: "validate_loop (\<lambda>p a. plw_permission p \<ge> plw_permission a) plw_weight None (accounts auth) (of_nat ?k) =
      (if sorted_wrt (<) (map plw_permission (accounts auth)) then Some (of_nat (?k + ?a)) else None)"
    using sum linked_by_sorted [of "(<)" plw_permission "accounts auth"] nat32 [of ?k]
    by (subst validate_loop_spec) (auto simp: not_le)
  have ws: "validate_loop (\<lambda>p w. ww_wait_sec p \<ge> ww_wait_sec w) ww_weight None (waits auth) (of_nat (?k + ?a)) =
      (if sorted_wrt (<) (map ww_wait_sec (waits auth)) then Some (of_nat (?k + ?a + ?w)) else None)"
    using sum linked_by_sorted [of "(<)" ww_wait_sec "waits auth"] nat32 [of "?k + ?a"]
    by (subst validate_loop_spec) (auto simp: not_le)
  have first: "sorted_wrt (<) (map ww_wait_sec (waits auth)) \<Longrightarrow>
      \<not> (waits auth \<noteq> [] \<and> ww_wait_sec (waits auth ! 0) = 0) \<longleftrightarrow> (\<forall>w \<in> set (waits auth). 0 < ww_wait_sec w)"
    by (cases "waits auth") (auto simp: word_neq_0_conv intro: less_trans)
  have "of_nat (?k + ?a + ?w) \<ge> threshold auth \<longleftrightarrow> unat (threshold auth) \<le> authority_weight auth"
    using nat32 [OF sum] by (simp add: word_le_nat_alt authority_weight_def del: of_nat_add)
  then show ?thesis
    using True first unfolding validate_def ks authority_ok_def
    by (auto simp: acc ws word_neq_0_conv simp del: of_nat_add)
qed

subsection \<open>What a satisfied permission means\<close>

text \<open>
  The specification: an entry is granted by a provided key, an elapsed delay or a granted
  permission; a permission is granted when it or its whole account is provided, or when entries of
  its authority are granted whose weights reach the threshold.
\<close>

inductive granted :: "authority_checker \<Rightarrow> permission_level \<Rightarrow> bool" and
  entry_granted :: "authority_checker \<Rightarrow> meta_permission \<Rightarrow> bool" for ch where
  granted_provided: "p \<in> set (provided_permissions ch) \<Longrightarrow> granted ch p"
| granted_account: "granted ch (actor, 0) \<Longrightarrow> granted ch (actor, perm)"
| granted_authority: "permission_to_authority ch p = Inr auth \<Longrightarrow> mset ps \<subseteq># mset (authority_entries auth) \<Longrightarrow>
    (\<forall>q \<in> set ps. entry_granted ch q) \<Longrightarrow> unat (threshold auth) \<le> sum_list (map (unat \<circ> meta_weight) ps) \<Longrightarrow> granted ch p"
| granted_key: "k \<in> set (provided_keys ch) \<Longrightarrow> entry_granted ch (Key_Permission k w)"
| granted_wait: "seconds s \<le> provided_delay ch \<Longrightarrow> entry_granted ch (Wait_Permission s w)"
| granted_permission: "granted ch p \<Longrightarrow> entry_granted ch (Account_Permission p w)"

definition authority_granted :: "authority_checker \<Rightarrow> authority \<Rightarrow> bool" where
  "authority_granted ch auth \<longleftrightarrow> (\<exists>ps. mset ps \<subseteq># mset (authority_entries auth) \<and> (\<forall>q \<in> set ps. entry_granted ch q) \<and>
     unat (threshold auth) \<le> sum_list (map (unat \<circ> meta_weight) ps))"

lemma granted_authorityI: "permission_to_authority ch p = Inr auth \<Longrightarrow> authority_granted ch auth \<Longrightarrow> granted ch p"
  by (auto simp: authority_granted_def intro: granted_authority)

text \<open>The order the entries are checked in is a permutation of them.\<close>

definition arrange_ok :: "authority_checker \<Rightarrow> bool" where
  "arrange_ok ch \<longleftrightarrow> (\<forall>ps. mset (arrange ch ps) = mset ps \<and>
     sorted_wrt (\<lambda>a b. \<not> meta_permission_comparator b a) (arrange ch ps))"

definition cache_sound :: "authority_checker \<Rightarrow> permission_cache_type \<Rightarrow> bool" where
  "cache_sound ch cache \<longleftrightarrow> fm_ok cache \<and> (\<forall>p. fm_lookup cache p = Some permission_satisfied \<longrightarrow> granted ch p)"

lemma cache_sound_status:
  "cache_sound ch cache \<Longrightarrow> permission_status_in_cache cache p = Some permission_satisfied \<Longrightarrow> granted ch p"
  by (cases p) (auto simp: cache_sound_def permission_status_in_cache_def intro: granted_account split: option.splits)

lemma cache_sound_update:
  "cache_sound ch cache \<Longrightarrow> (st = permission_satisfied \<Longrightarrow> granted ch p) \<Longrightarrow> cache_sound ch (fm_update p st cache)"
  by (auto simp: cache_sound_def fm_laws)

lemma cache_sound_emplace:
  "cache_sound ch cache \<Longrightarrow> (st = permission_satisfied \<Longrightarrow> granted ch p) \<Longrightarrow> cache_sound ch (fm_emplace p st cache)"
  by (auto simp: fm_emplace_def cache_sound_update split: option.splits)

lemma cache_sound_initial: "cache_sound ch (initialize_permission_cache ch)"
proof -
  have "cache_sound ch (fold (\<lambda>p c. fm_emplace p permission_satisfied c) ps c)"
    if "cache_sound ch c" "set ps \<subseteq> set (provided_permissions ch)" for ps c
    using that
    by (induction ps arbitrary: c) (auto intro!: cache_sound_emplace granted_provided)
  moreover have "cache_sound ch []" by (simp add: cache_sound_def fm_laws)
  ultimately show ?thesis by (simp add: initialize_permission_cache_def)
qed

lemma index_of_found: "index_of x xs < length xs \<longleftrightarrow> x \<in> set xs"
  by (induction xs) auto

lemma unat_add_le: "unat (x + y :: u32) \<le> unat x + unat y"
  by (simp add: unat_word_ariths mod_less_eq_dividend)

lemma visit_key_sound:
  "visit_key ch k w (t, c, u) = (t', c', u') \<Longrightarrow> c' = c \<and> (t' = t \<or> t' = t + ucast w \<and> entry_granted ch (Key_Permission k w))"
  by (auto simp: visit_key_def Let_def index_of_found intro: granted_key split: if_splits)

lemma visit_wait_sound:
  "visit_wait ch s w (t, c, u) = (t', c', u') \<Longrightarrow> c' = c \<and> (t' = t \<or> t' = t + ucast w \<and> entry_granted ch (Wait_Permission s w))"
  by (auto simp: visit_wait_def Let_def intro: granted_wait split: if_splits)

text \<open>The weight a visitor has added is covered by granted entries.\<close>

definition covered :: "authority_checker \<Rightarrow> meta_permission list \<Rightarrow> u32 \<Rightarrow> u32 \<Rightarrow> bool" where
  "covered ch ps t t' \<longleftrightarrow> (\<exists>qs. mset qs \<subseteq># mset ps \<and> (\<forall>q \<in> set qs. entry_granted ch q) \<and>
     unat t' \<le> unat t + sum_list (map (unat \<circ> meta_weight) qs))"

lemma covered_refl: "covered ch ps t t"
  unfolding covered_def by (intro exI [of _ "[]"]) simp

lemma covered_step:
  assumes "t1 = t \<or> t1 = t + meta_weight p \<and> entry_granted ch p" and "covered ch ps t1 t2"
  shows "covered ch (p # ps) t t2"
proof -
  obtain qs where qs: "mset qs \<subseteq># mset ps" "\<forall>q \<in> set qs. entry_granted ch q"
    "unat t2 \<le> unat t1 + sum_list (map (unat \<circ> meta_weight) qs)" using assms(2) by (auto simp: covered_def)
  show ?thesis
  proof (cases "t1 = t")
    case True
    have "mset qs \<subseteq># mset (p # ps)" using qs(1) by (auto simp: subseteq_mset_def intro: le_SucI)
    with True qs show ?thesis unfolding covered_def by blast
  next
    case False
    then have g: "t1 = t + meta_weight p" "entry_granted ch p" using assms(1) by auto
    have "unat t1 \<le> unat t + unat (meta_weight p)" unfolding g(1) by (rule unat_add_le)
    with qs g show ?thesis unfolding covered_def by (intro exI [of _ "p # qs"]) auto
  qed
qed

lemma covered_here: "t1 = t \<or> t1 = t + meta_weight p \<and> entry_granted ch p \<Longrightarrow> covered ch (p # ps) t t1"
  by (rule covered_step [OF _ covered_refl])

lemma checker_sound:
  assumes "arrange_ok ch0"
  shows "visit_account ch d p w st = Inr st' \<Longrightarrow> ch = ch0 \<Longrightarrow> cache_sound ch0 (fst (snd st)) \<Longrightarrow>
      cache_sound ch0 (fst (snd st')) \<and> (fst st' = fst st \<or> fst st' = fst st + ucast w \<and> granted ch0 p)"
    and "tally_loop ch d thr ps st = Inr (r, st') \<Longrightarrow> ch = ch0 \<Longrightarrow> cache_sound ch0 (fst (snd st)) \<Longrightarrow>
      cache_sound ch0 (fst (snd st')) \<and> covered ch0 ps (fst st) (fst st') \<and> (r \<longrightarrow> thr \<le> fst st')"
    and "satisfied_at ch auth cache d used = Inr (r, cache', used') \<Longrightarrow> ch = ch0 \<Longrightarrow> cache_sound ch0 cache \<Longrightarrow>
      cache_sound ch0 cache' \<and> (r \<longrightarrow> authority_granted ch0 auth)"
proof (induction ch d p w st and ch d thr ps st and ch auth cache d used
    arbitrary: st' and r st' and r cache' used'
    rule: visit_account_tally_loop_satisfied_at.induct)
  case (1 ch d p w t cache used)
  show ?case
  proof (cases "permission_status_in_cache cache p")
    case (Some status)
    then show ?thesis
      using 1(2-) cache_sound_status [of ch0 cache p] by (auto simp: visit_account.simps split: if_splits)
  next
    case None
    show ?thesis
    proof (cases "\<exists>auth. d < recursion_depth_limit ch \<and> permission_to_authority ch p = Inr auth")
      case False
      then have "st' = (t, cache, used)"
        using None 1(2) by (auto simp: visit_account.simps split: if_splits sum.splits)
      then show ?thesis using "1.prems" by simp
    next
      case True
      then obtain auth where auth: "d < recursion_depth_limit ch" "permission_to_authority ch p = Inr auth" by auto
      then obtain r c u where sat: "satisfied_at ch auth (fm_emplace p being_evaluated cache) (d + 1) used = Inr (r, c, u)"
        and st': "st' = (if r then (t + ucast w, fm_update p permission_satisfied c, u)
          else (t, fm_update p permission_unsatisfied c, u))"
        using None 1(2) by (auto simp: visit_account.simps exc_simps split: if_splits)
      have "cache_sound ch0 (fm_emplace p being_evaluated cache)" using "1.prems" by (intro cache_sound_emplace) auto
      with 1(1) [OF None auth sat] "1.prems" have "cache_sound ch0 c" "r \<longrightarrow> authority_granted ch0 auth" by auto
      moreover from this have "r \<longrightarrow> granted ch0 p" using auth(2) "1.prems" granted_authorityI by blast
      ultimately show ?thesis by (auto simp: st' intro!: cache_sound_update)
    qed
  qed
next
  case (2 ch d thr st)
  then show ?case by (auto simp: covered_refl)
next
  case (3 ch d thr p ps st)
  obtain st1 where first: "(case p of
        Wait_Permission s w \<Rightarrow> Inr (visit_wait ch s w st)
      | Key_Permission k w \<Rightarrow> Inr (visit_key ch k w st)
      | Account_Permission l w \<Rightarrow> visit_account ch d l w st) = Inr st1"
    and rest: "(if thr \<le> fst st1 then Inr (True, st1) else tally_loop ch d thr ps st1) = Inr (r, st')"
    using 3(3) by (auto simp: tally_loop.simps(2) exc_simps)
  have step: "cache_sound ch0 (fst (snd st1)) \<and> (fst st1 = fst st \<or> fst st1 = fst st + meta_weight p \<and> entry_granted ch0 p)"
  proof (cases p)
    case (Account_Permission l w)
    then show ?thesis using 3(1) [of l w st1] first 3(4,5) by (auto intro: granted_permission)
  next
    case (Key_Permission k w)
    then show ?thesis using visit_key_sound [of ch0 k w "fst st" "fst (snd st)" "snd (snd st)"] first 3(4,5)
      by (cases st1) auto
  next
    case (Wait_Permission s w)
    then show ?thesis using visit_wait_sound [of ch0 s w "fst st" "fst (snd st)" "snd (snd st)"] first 3(4,5)
      by (cases st1) auto
  qed
  show ?case
  proof (cases "thr \<le> fst st1")
    case True
    then show ?thesis using rest step covered_here by auto
  next
    case False
    then have "tally_loop ch d thr ps st1 = Inr (r, st')" using rest by simp
    with 3(2) [OF first False] step 3(4)
    have "cache_sound ch0 (fst (snd st')) \<and> covered ch0 ps (fst st1) (fst st') \<and> (r \<longrightarrow> thr \<le> fst st')" by auto
    with covered_step [of "fst st1" "fst st" p ch0 ps "fst st'"] step show ?thesis by auto
  qed
next
  case (4 ch auth cache d used)
  obtain t u where loop: "tally_loop ch d (threshold auth) (arrange ch (authority_entries auth)) (0, cache, used) = Inr (r, t, cache', u)"
    using 4(2) by (auto simp: satisfied_at.simps exc_simps)
  from 4(1) [OF this] 4(3,4)
  have "cache_sound ch0 cache'" and cov: "covered ch0 (arrange ch0 (authority_entries auth)) 0 t" and thr: "r \<longrightarrow> threshold auth \<le> t"
    by auto
  moreover have "r \<longrightarrow> authority_granted ch0 auth"
    using cov thr assms by (auto simp: covered_def authority_granted_def arrange_ok_def word_le_nat_alt intro: order_trans)
  ultimately show ?case by simp
qed

subsection \<open>Used keys\<close>

definition marks_grow :: "bool list \<Rightarrow> bool list \<Rightarrow> bool" where
  "marks_grow u u' \<longleftrightarrow> length u' = length u \<and> (\<forall>i < length u. u ! i \<longrightarrow> u' ! i)"

lemma marks_grow_refl [simp]: "marks_grow u u"
  by (simp add: marks_grow_def)

lemma marks_grow_trans: "marks_grow u v \<Longrightarrow> marks_grow v w \<Longrightarrow> marks_grow u w"
  by (simp add: marks_grow_def)

lemma marks_grow_key: "marks_grow (snd (snd st)) (snd (snd (visit_key ch k w st)))"
proof -
  have "marks_grow u (u[i := True])" for u i
    by (cases "i < length u") (auto simp: marks_grow_def nth_list_update list_update_beyond)
  then show ?thesis by (cases st) (simp add: visit_key_def Let_def)
qed

lemma marks_wait: "snd (snd (visit_wait ch s w st)) = snd (snd st)"
  by (cases st) (simp add: visit_wait_def Let_def)

lemma checker_marks:
  "visit_account ch d p w st = Inr st' \<Longrightarrow> marks_grow (snd (snd st)) (snd (snd st'))"
  "tally_loop ch d thr ps st = Inr (r, st') \<Longrightarrow> marks_grow (snd (snd st)) (snd (snd st'))"
  "satisfied_at ch auth cache d used = Inr (r, cache', used') \<Longrightarrow> marks_grow used used' \<and> (\<not> r \<longrightarrow> used' = used)"
proof (induction ch d p w st and ch d thr ps st and ch auth cache d used
    arbitrary: st' and r st' and r cache' used'
    rule: visit_account_tally_loop_satisfied_at.induct)
  case (1 ch d p w t cache used)
  then show ?case
    by (cases "permission_status_in_cache cache p")
      (auto simp: visit_account.simps exc_simps split: if_splits sum.splits)
next
  case (3 ch d thr p ps st)
  obtain st1 where first: "(case p of
        Wait_Permission s w \<Rightarrow> Inr (visit_wait ch s w st)
      | Key_Permission k w \<Rightarrow> Inr (visit_key ch k w st)
      | Account_Permission l w \<Rightarrow> visit_account ch d l w st) = Inr st1"
    and rest: "(if thr \<le> fst st1 then Inr (True, st1) else tally_loop ch d thr ps st1) = Inr (r, st')"
    using 3(3) by (auto simp: tally_loop.simps(2) exc_simps)
  have "marks_grow (snd (snd st)) (snd (snd st1))"
    using first 3(1) by (cases p) (auto simp: marks_grow_key marks_wait)
  with 3(2) [OF first] rest show ?case by (auto intro: marks_grow_trans split: if_splits)
next
  case (4 ch auth cache d used)
  then show ?case by (force simp: satisfied_at.simps exc_simps)
qed simp

lemma visit_account_marks:
  assumes "visit_account ch d p w (t, c, u) = Inr (t', c', u')"
  shows "u' = u \<or> t' = t + ucast w"
proof (cases "permission_status_in_cache c p")
  case None
  then show ?thesis
    using assms checker_marks(3) [of ch _ "fm_emplace p being_evaluated c" "d + 1" u]
    by (fastforce simp: visit_account.simps exc_simps split: if_splits sum.splits)
qed (use assms in \<open>auto simp: visit_account.simps split: if_splits\<close>)

subsection \<open>Authorities without permissions\<close>

fun flat_entry :: "authority_checker \<Rightarrow> meta_permission \<Rightarrow> bool" where
  "flat_entry ch (Key_Permission k w) \<longleftrightarrow> k \<in> set (provided_keys ch)"
| "flat_entry ch (Wait_Permission s w) \<longleftrightarrow> seconds s \<le> provided_delay ch"
| "flat_entry ch (Account_Permission p w) \<longleftrightarrow> False"

fun is_account :: "meta_permission \<Rightarrow> bool" where
  "is_account (Account_Permission p w) \<longleftrightarrow> True"
| "is_account q \<longleftrightarrow> False"

definition flat_weight :: "authority_checker \<Rightarrow> meta_permission list \<Rightarrow> nat" where
  "flat_weight ch ps = sum_list (map (unat \<circ> meta_weight) (filter (flat_entry ch) ps))"

lemma flat_weight_mset: "mset ps = mset qs \<Longrightarrow> flat_weight ch ps = flat_weight ch qs"
  unfolding flat_weight_def by (metis mset_filter mset_map sum_mset_sum_list)

lemma visit_flat:
  assumes "\<not> is_account p"
  shows "\<exists>u'. (case p of
        Wait_Permission s w \<Rightarrow> Inr (visit_wait ch s w (t, c, u))
      | Key_Permission k w \<Rightarrow> Inr (visit_key ch k w (t, c, u))
      | Account_Permission l w \<Rightarrow> visit_account ch d l w (t, c, u)) =
      Inr (if flat_entry ch p then t + meta_weight p else t, c, u')"
  using assms by (cases p) (auto simp: visit_wait_def visit_key_def Let_def index_of_found)

lemma tally_loop_flat:
  assumes "\<forall>p \<in> set ps. \<not> is_account p" and "t < thr" and "unat t + flat_weight ch ps < 2 ^ 32"
  shows "\<exists>st. tally_loop ch d thr ps (t, c, u) = Inr (unat thr \<le> unat t + flat_weight ch ps, st)"
  using assms
proof (induction ps arbitrary: t u)
  case Nil
  then show ?case by (simp add: flat_weight_def word_less_nat_alt)
next
  case (Cons p ps)
  let ?t = "if flat_entry ch p then t + meta_weight p else t"
  obtain u' where v: "(case p of
        Wait_Permission s w \<Rightarrow> Inr (visit_wait ch s w (t, c, u))
      | Key_Permission k w \<Rightarrow> Inr (visit_key ch k w (t, c, u))
      | Account_Permission l w \<Rightarrow> visit_account ch d l w (t, c, u)) = Inr (?t, c, u')"
    using visit_flat [where p = p and ch = ch and t = t and c = c and u = u and d = d] Cons.prems(1) by auto
  have sum: "unat ?t + flat_weight ch ps = unat t + flat_weight ch (p # ps)"
    using Cons.prems(3) by (cases "flat_entry ch p") (simp_all add: flat_weight_def unat_add_no_overflow)
  have run: "tally_loop ch d thr (p # ps) (t, c, u) =
      (if thr \<le> ?t then Inr (True, (?t, c, u')) else tally_loop ch d thr ps (?t, c, u'))"
    by (simp only: tally_loop.simps(2) v ebind_simps fst_conv)
  show ?case
  proof (cases "thr \<le> ?t")
    case True
    then have "unat thr \<le> unat t + flat_weight ch (p # ps)" using sum by (simp add: word_le_nat_alt)
    with True run show ?thesis by auto
  next
    case False
    then obtain st where "tally_loop ch d thr ps (?t, c, u') = Inr (unat thr \<le> unat t + flat_weight ch (p # ps), st)"
      using Cons.IH [of ?t u'] Cons.prems(1,3) sum by (auto simp: not_le)
    with run False show ?thesis by (simp only: if_False) blast
  qed
qed

lemma flat_weight_entries:
  assumes "accounts auth = []" and "authority_ok key_less auth"
  shows "flat_weight ch (authority_entries auth) < 2 ^ 32"
proof -
  have le: "flat_weight ch ps \<le> sum_list (map (unat \<circ> meta_weight) ps)" for ps
    by (induction ps) (auto simp: flat_weight_def)
  have "sum_list (map (unat \<circ> meta_weight) (authority_entries auth)) = authority_weight auth"
    using assms(1) by (simp add: authority_entries_def authority_weight_def weight_sum_def comp_def)
  with le [of "authority_entries auth"] authority_weight_bound [of auth] assms(2) show ?thesis
    by (simp add: authority_ok_def)
qed

subsection \<open>Properties\<close>

text \<open>
  C32: \<open>validate\<close> accepts exactly the authorities that make sense: at most 65536 entries, a
  positive threshold that the weights together reach, keys, permissions and waiting times each
  strictly ascending, and no waiting time of zero. The sum of the weights never wraps.
\<close>

theorem validate_exact:
  assumes "transp key_less"
  shows "validate key_less auth \<longleftrightarrow> authority_ok key_less auth"
  using assms by (rule validate_iff)

definition sample_key_less :: "public_key_type \<Rightarrow> public_key_type \<Rightarrow> bool" where
  "sample_key_less a b \<longleftrightarrow> length a < length b"

definition sample_authority :: authority where
  "sample_authority = \<lparr>threshold = 2, keys = [\<lparr>kw_key = [1], kw_weight = 1\<rparr>, \<lparr>kw_key = [1, 2], kw_weight = 1\<rparr>],
     accounts = [], waits = [\<lparr>ww_wait_sec = 60, ww_weight = 1\<rparr>]\<rparr>"

theorem validate_exact_witness: "validate sample_key_less sample_authority \<and> authority_ok sample_key_less sample_authority"
proof -
  have "transp sample_key_less" by (auto simp: transp_def sample_key_less_def)
  moreover have "validate sample_key_less sample_authority"
    by (simp add: validate_def sample_authority_def sample_key_less_def)
  ultimately show ?thesis using validate_exact by blast
qed

lemma satisfied_granted:
  assumes "arrange_ok ch" and "satisfied ch p used = Inr (True, used')"
  shows "granted ch p"
  using assms(2) checker_sound(1) [OF assms(1)] cache_sound_initial by (fastforce simp: satisfied_def exc_simps)

text \<open>A longer delay grants at least as much.\<close>

lemma granted_delay_mono:
  assumes "d \<le> d'"
  shows "granted ch p \<Longrightarrow> ch = c\<lparr>provided_delay := d\<rparr> \<Longrightarrow> granted (c\<lparr>provided_delay := d'\<rparr>) p"
    and "entry_granted ch q \<Longrightarrow> ch = c\<lparr>provided_delay := d\<rparr> \<Longrightarrow> entry_granted (c\<lparr>provided_delay := d'\<rparr>) q"
proof (induction rule: granted_entry_granted.inducts)
  case (granted_account actor perm)
  then show ?case by (auto intro: granted_entry_granted.granted_account)
next
  case (granted_authority p auth ps)
  then show ?case by (auto intro: granted_entry_granted.granted_authority)
qed (use assms in \<open>auto intro: granted_entry_granted.intros\<close>)

text \<open>
  C30: the checker is sound. If it reports a permission as satisfied then the permission is granted
  by the provided keys, permissions and delay, however deep the permissions refer to each other,
  also in cycles, and whatever is in the cache; if not, no key is marked as used. Marks of used keys
  are only ever added.
\<close>

theorem satisfied_sound:
  assumes "arrange_ok ch" and "satisfied ch p used = Inr (ok, used')"
  shows "(ok \<longrightarrow> granted ch p) \<and> (\<not> ok \<longrightarrow> used' = used) \<and> marks_grow used used'"
proof -
  obtain t c where run: "visit_account ch 0 p 1 (0, initialize_permission_cache ch, used) = Inr (t, c, used')"
    and ok: "ok \<longleftrightarrow> t > 0"
    using assms(2) by (auto simp: satisfied_def exc_simps)
  have "t > 0 \<longrightarrow> granted ch p" using satisfied_granted [OF assms(1), of p used used'] assms(2) ok by simp
  moreover have "marks_grow used used'" using checker_marks(1) [OF run] by simp
  moreover have "used' = used" if "\<not> t > 0" using visit_account_marks [OF run] that by auto
  ultimately show ?thesis using ok by blast
qed

text \<open>Two permissions that refer to each other; one of them also accepts a key.\<close>

definition sample_pta :: "permission_level \<Rightarrow> authority result" where
  "sample_pta p =
     (if p = (1, 1) then Inr \<lparr>threshold = 1, keys = [], accounts = [\<lparr>plw_permission = (2, 1), plw_weight = 1\<rparr>], waits = []\<rparr>
      else if p = (2, 1) then Inr \<lparr>threshold = 1, keys = [\<lparr>kw_key = [7], kw_weight = 1\<rparr>],
        accounts = [\<lparr>plw_permission = (1, 1), plw_weight = 1\<rparr>], waits = []\<rparr>
      else Inl permission_query_exception)"

definition meta_key :: "meta_permission \<Rightarrow> int \<times> int" where
  "meta_key p = (- uint (meta_weight p), - int (meta_which p))"

definition sample_checker :: authority_checker where
  "sample_checker = \<lparr>permission_to_authority = sample_pta, recursion_depth_limit = 6, provided_keys = [[7], [8]],
     provided_permissions = [], provided_delay = 0, arrange = sort_key meta_key\<rparr>"

lemma sort_meta_ok: "arrange ch = sort_key meta_key \<Longrightarrow> arrange_ok ch"
proof -
  assume arr: "arrange ch = sort_key meta_key"
  have anti: "\<not> meta_permission_comparator b a" if "meta_key a \<le> meta_key b" for a b
  proof -
    have "uint (meta_weight b) < uint (meta_weight a) \<or>
        uint (meta_weight b) = uint (meta_weight a) \<and> meta_which b \<le> meta_which a"
      using that by (auto simp: meta_key_def less_eq_prod_simp)
    then have "(meta_weight b, meta_which b) \<le> (meta_weight a, meta_which a)"
      by (auto simp: less_eq_prod_simp word_less_def word_le_def)
    then show ?thesis unfolding meta_permission_comparator_def by (simp only: not_less)
  qed
  have "sorted_wrt (\<lambda>a b. \<not> meta_permission_comparator b a) (sort_key meta_key ps)" for ps
    using sorted_sort_key [of meta_key ps] unfolding sorted_map
    by (rule sorted_wrt_mono_rel [rotated]) (rule anti)
  then show ?thesis by (simp add: arrange_ok_def arr)
qed

theorem satisfied_sound_witness:
  "satisfied sample_checker (1, 1) [False, False] = Inr (True, [True, False]) \<and> granted sample_checker (1, 1)"
proof -
  have run: "satisfied sample_checker (1, 1) [False, False] = Inr (True, [True, False])" by code_simp
  have "arrange_ok sample_checker" by (rule sort_meta_ok) (simp add: sample_checker_def)
  from satisfied_sound [OF this run] run show ?thesis by simp
qed

text \<open>
  C33: on an authority of keys and waiting times alone the checker is exact: it reports satisfied
  exactly when the weights of the provided keys and elapsed waiting times reach the threshold.
\<close>

theorem flat_authority_exact:
  assumes "arrange_ok ch" and "authority_ok key_less auth" and "accounts auth = []"
  shows "\<exists>used'. satisfied_authority ch auth used =
    Inr (unat (threshold auth) \<le> flat_weight ch (authority_entries auth), used')"
proof -
  let ?ps = "arrange ch (authority_entries auth)"
  have m: "mset ?ps = mset (authority_entries auth)" using assms(1) by (simp add: arrange_ok_def)
  then have "set ?ps = set (authority_entries auth)" by (metis set_mset_mset)
  then have flat: "\<forall>p \<in> set ?ps. \<not> is_account p" using assms(3) by (auto simp: authority_entries_def)
  have w: "flat_weight ch ?ps = flat_weight ch (authority_entries auth)" using m by (rule flat_weight_mset)
  obtain st where "tally_loop ch 0 (threshold auth) ?ps (0, initialize_permission_cache ch, used) =
      Inr (unat (threshold auth) \<le> flat_weight ch (authority_entries auth), st)"
    using tally_loop_flat [OF flat, of 0 "threshold auth" ch 0 "initialize_permission_cache ch" used]
      flat_weight_entries [OF assms(3,2), of ch] assms(2) w by (auto simp: authority_ok_def)
  then show ?thesis by (cases st) (simp add: satisfied_authority_def satisfied_at.simps)
qed

theorem flat_authority_exact_witness:
  "authority_ok sample_key_less sample_authority \<and>
   (\<exists>used. satisfied_authority (sample_checker\<lparr>provided_keys := [[1]], provided_delay := 60000000\<rparr>) sample_authority [False] = Inr (True, used))"
proof -
  let ?ch = "sample_checker\<lparr>provided_keys := [[1]], provided_delay := 60000000\<rparr>"
  have "arrange_ok ?ch" by (rule sort_meta_ok) (simp add: sample_checker_def)
  moreover have ok: "authority_ok sample_key_less sample_authority"
    by (simp add: authority_ok_def sample_authority_def authority_weight_def sample_key_less_def)
  moreover have "accounts sample_authority = []" by (simp add: sample_authority_def)
  moreover have "unat (threshold sample_authority) \<le> flat_weight ?ch (authority_entries sample_authority)"
    by (simp add: flat_weight_def authority_entries_def sample_authority_def sample_checker_def seconds_def)
  ultimately show ?thesis using flat_authority_exact [of ?ch sample_key_less sample_authority "[False]"] by simp
qed

end
