(* ===== verification/Authorization.thy ===== *)
theory Authorization
  imports Authority
begin

text \<open>
  The authorization manager: \<open>authorization_manager.cpp\<close>, \<open>permission_object.hpp\<close> and
  \<open>permission_link_object.hpp\<close>. Permissions of an account form a tree under its \<open>owner\<close>
  permission; links name the permission an action needs at least. The tables of the database are
  ordered containers; an identifier of a new row is chosen by the database library and is a
  parameter, as are the unpacking of action data and the clock behind \<open>checktime\<close>, whose calls are
  counted. The lemmas show that the walk up the tree decides the ancestor relation, and that an
  accepted transaction carries the authorizations its actions declare.
\<close>

subsection \<open>Tables\<close>

type_synonym time_point = int
type_synonym permission_id_type = nat
type_synonym transaction_id_type = digest_type

record permission_object =
  po_usage_id :: nat
  po_parent :: permission_id_type
  po_owner :: account_name
  po_name :: permission_name
  po_last_updated :: time_point
  po_auth :: authority

type_synonym permission_index = "(permission_id_type, permission_object) flat_map"
type_synonym permission_link_index = "(account_name \<times> account_name \<times> action_name, permission_name) flat_map"

record action =
  act_account :: account_name
  act_name :: action_name
  authorization :: "permission_level list"
  act_data :: "u8 list"

record generated_transaction_object =
  gto_trx_id :: transaction_id_type
  gto_sender :: account_name
  gto_sender_id :: u128
  gto_payer :: account_name
  gto_delay_until :: time_point
  gto_expiration :: time_point
  gto_published :: time_point
  gto_packed_trx :: "u8 list"

record auth_db =
  permissions :: permission_index
  usages :: "(nat, time_point) flat_map"
  links :: permission_link_index
  generated :: "generated_transaction_object list"

record updateauth =
  ua_account :: account_name
  ua_permission :: permission_name
  ua_parent :: permission_name
  ua_auth :: authority

record deleteauth =
  da_account :: account_name
  da_permission :: permission_name

record linkauth =
  la_account :: account_name
  la_code :: account_name
  la_type :: action_name
  la_requirement :: permission_name

record unlinkauth =
  ul_account :: account_name
  ul_code :: account_name
  ul_type :: action_name

record canceldelay =
  cd_canceling_auth :: permission_level
  cd_trx_id :: transaction_id_type

record auth_env =
  pending_block_time :: time_point
  fresh_usage_id :: "(nat, time_point) flat_map \<Rightarrow> nat"
  fresh_permission_id :: "permission_index \<Rightarrow> permission_id_type"
  max_transaction_delay :: u32
  max_authority_depth :: u16
  env_arrange :: "meta_permission list \<Rightarrow> meta_permission list"
  checktime :: "nat \<Rightarrow> unit result"
  unpack_updateauth :: "u8 list \<Rightarrow> updateauth result"
  unpack_deleteauth :: "u8 list \<Rightarrow> deleteauth result"
  unpack_linkauth :: "u8 list \<Rightarrow> linkauth result"
  unpack_unlinkauth :: "u8 list \<Rightarrow> unlinkauth result"
  unpack_canceldelay :: "u8 list \<Rightarrow> canceldelay result"
  unpack_transaction :: "u8 list \<Rightarrow> action list result"

definition system_account_name :: account_name where
  "system_account_name = string_to_name ''eonio''"

definition active_name :: permission_name where
  "active_name = string_to_name ''active''"

definition owner_name :: permission_name where
  "owner_name = string_to_name ''owner''"

definition eosio_any_name :: permission_name where
  "eosio_any_name = string_to_name ''eonio.any''"

definition eosio_code_name :: permission_name where
  "eosio_code_name = string_to_name ''eonio.code''"

definition updateauth_name :: action_name where
  "updateauth_name = string_to_name ''updateauth''"

definition deleteauth_name :: action_name where
  "deleteauth_name = string_to_name ''deleteauth''"

definition linkauth_name :: action_name where
  "linkauth_name = string_to_name ''linkauth''"

definition unlinkauth_name :: action_name where
  "unlinkauth_name = string_to_name ''unlinkauth''"

definition canceldelay_name :: action_name where
  "canceldelay_name = string_to_name ''canceldelay''"

text \<open>The names as numbers, for evaluation.\<close>

lemma name_values [code]:
  "system_account_name = 6135848828059779072"
  "active_name = 3617214756542218240"
  "owner_name = 12044502819693133824"
  "eosio_any_name = 6135848831615500288"
  "eosio_code_name = 6135848832695173120"
  "updateauth_name = 15371467950649982976"
  "deleteauth_name = 5378050746259030016"
  "linkauth_name = 10063015651234021376"
  "unlinkauth_name = 15340080295291076608"
  "canceldelay_name = 4730614990712192000"
  by code_simp+

subsection \<open>Permissions\<close>

definition find_by_owner :: "permission_index \<Rightarrow> permission_level \<Rightarrow> (permission_id_type \<times> permission_object) option" where
  "find_by_owner t lvl = find (\<lambda>(i, p). po_owner p = fst lvl \<and> po_name p = snd lvl) t"

text \<open>
  The walk of \<open>satisfies\<close>. Following more parents than there are permissions means that the walk
  is in a cycle and never ends.
\<close>

fun parent_walk :: "nat \<Rightarrow> permission_index \<Rightarrow> permission_id_type \<Rightarrow> permission_object \<Rightarrow> bool result" where
  "parent_walk 0 t i parent = Inl nontermination"
| "parent_walk (Suc n) t i parent =
     (if i = po_parent parent then Inr True
      else if po_parent parent = 0 then Inr False
      else case fm_lookup t (po_parent parent) of
        None \<Rightarrow> Inl undefined_behavior
      | Some parent \<Rightarrow> parent_walk n t i parent)"

definition satisfies ::
  "permission_index \<Rightarrow> permission_id_type \<times> permission_object \<Rightarrow> permission_id_type \<times> permission_object \<Rightarrow> bool result" where
  "satisfies t self other =
     (if po_owner (snd self) \<noteq> po_owner (snd other) then Inr False
      else if fst self = fst other \<or> fst self = po_parent (snd other) then Inr True
      else case fm_lookup t (po_parent (snd other)) of
        None \<Rightarrow> Inl undefined_behavior
      | Some parent \<Rightarrow> parent_walk (length t + 1) t (fst self) parent)"

definition initialize_permission_database :: "auth_env \<Rightarrow> 'a auth_db_scheme \<Rightarrow> 'a auth_db_scheme" where
  "initialize_permission_database env db =
     db\<lparr>permissions := fm_update (fresh_permission_id env (permissions db))
          \<lparr>po_usage_id = 0, po_parent = 0, po_owner = 0, po_name = 0, po_last_updated = 0,
           po_auth = \<lparr>threshold = 0, keys = [], accounts = [], waits = []\<rparr>\<rparr> (permissions db)\<rparr>"

definition create_permission ::
  "auth_env \<Rightarrow> account_name \<Rightarrow> permission_name \<Rightarrow> permission_id_type \<Rightarrow> authority \<Rightarrow> time_point \<Rightarrow> 'a auth_db_scheme \<Rightarrow>
   ((permission_id_type \<times> permission_object) \<times> 'a auth_db_scheme) result" where
  "create_permission env account nm parent auth initial_creation_time db =
     (let creation_time = (if initial_creation_time = 0 then pending_block_time env else initial_creation_time);
          usage_id = fresh_usage_id env (usages db);
          db = db\<lparr>usages := fm_update usage_id creation_time (usages db)\<rparr>;
          perm = \<lparr>po_usage_id = usage_id, po_parent = parent, po_owner = account, po_name = nm,
                  po_last_updated = creation_time, po_auth = auth\<rparr>;
          i = fresh_permission_id env (permissions db)
      in EOS_ASSERT (find_by_owner (permissions db) (account, nm) = None) table_uniqueness_violation
         (Inr ((i, perm), db\<lparr>permissions := fm_update i perm (permissions db)\<rparr>)))"

definition modify_permission ::
  "auth_env \<Rightarrow> permission_id_type \<times> permission_object \<Rightarrow> authority \<Rightarrow> 'a auth_db_scheme \<Rightarrow> 'a auth_db_scheme" where
  "modify_permission env permission auth db =
     db\<lparr>permissions := fm_update (fst permission)
          ((snd permission)\<lparr>po_auth := auth, po_last_updated := pending_block_time env\<rparr>) (permissions db)\<rparr>"

definition has_children :: "permission_index \<Rightarrow> permission_id_type \<Rightarrow> bool" where
  "has_children t i \<longleftrightarrow> list_ex (\<lambda>(j, p). po_parent p = i) t"

definition remove_permission :: "permission_id_type \<times> permission_object \<Rightarrow> 'a auth_db_scheme \<Rightarrow> 'a auth_db_scheme result" where
  "remove_permission permission db =
     EOS_ASSERT (\<not> has_children (permissions db) (fst permission)) action_validate_exception
     (EOS_ASSERT (fm_lookup (usages db) (po_usage_id (snd permission)) \<noteq> None) table_key_not_found
     (Inr (db\<lparr>usages := fm_erase (po_usage_id (snd permission)) (usages db),
             permissions := fm_erase (fst permission) (permissions db)\<rparr>)))"

definition update_permission_usage :: "auth_env \<Rightarrow> permission_object \<Rightarrow> 'a auth_db_scheme \<Rightarrow> 'a auth_db_scheme result" where
  "update_permission_usage env permission db =
     ebind (db_get (usages db) (po_usage_id permission)) (\<lambda>_.
     Inr (db\<lparr>usages := fm_update (po_usage_id permission) (pending_block_time env) (usages db)\<rparr>))"

definition get_permission_last_used :: "permission_object \<Rightarrow> 'a auth_db_scheme \<Rightarrow> time_point result" where
  "get_permission_last_used permission db = db_get (usages db) (po_usage_id permission)"

definition find_permission :: "permission_level \<Rightarrow> 'a auth_db_scheme \<Rightarrow> (permission_id_type \<times> permission_object) option result" where
  "find_permission lvl db =
     EOS_ASSERT (fst lvl \<noteq> 0 \<and> snd lvl \<noteq> 0) invalid_permission (Inr (find_by_owner (permissions db) lvl))"

definition get_permission :: "permission_level \<Rightarrow> 'a auth_db_scheme \<Rightarrow> (permission_id_type \<times> permission_object) result" where
  "get_permission lvl db =
     EOS_ASSERT (fst lvl \<noteq> 0 \<and> snd lvl \<noteq> 0) invalid_permission
     (case find_by_owner (permissions db) lvl of None \<Rightarrow> Inl permission_query_exception | Some p \<Rightarrow> Inr p)"

definition lookup_linked_permission ::
  "account_name \<Rightarrow> account_name \<Rightarrow> action_name \<Rightarrow> 'a auth_db_scheme \<Rightarrow> permission_name option" where
  "lookup_linked_permission authorizer_account scope nm db =
     (case fm_lookup (links db) (authorizer_account, scope, nm) of
        Some p \<Rightarrow> Some p
      | None \<Rightarrow> fm_lookup (links db) (authorizer_account, scope, 0))"

definition lookup_minimum_permission ::
  "account_name \<Rightarrow> account_name \<Rightarrow> action_name \<Rightarrow> 'a auth_db_scheme \<Rightarrow> permission_name option result" where
  "lookup_minimum_permission authorizer_account scope nm db =
     EOS_ASSERT (scope = system_account_name \<longrightarrow>
         nm \<noteq> updateauth_name \<and> nm \<noteq> deleteauth_name \<and> nm \<noteq> linkauth_name \<and> nm \<noteq> unlinkauth_name \<and> nm \<noteq> canceldelay_name)
       unlinkable_min_permission_action
     (case lookup_linked_permission authorizer_account scope nm db of
        None \<Rightarrow> Inr (Some active_name)
      | Some p \<Rightarrow> if p = eosio_any_name then Inr None else Inr (Some p))"

subsection \<open>Checks of the native actions\<close>

text \<open>
  The check that ends every one of them: the declared permission reaches the minimum, which is
  either a permission already found or one that is looked up.
\<close>

definition check_satisfies :: "permission_level \<Rightarrow> permission_id_type \<times> permission_object \<Rightarrow> 'a auth_db_scheme \<Rightarrow> unit result" where
  "check_satisfies auth min_permission db =
     ebind (get_permission auth db) (\<lambda>p.
     ebind (satisfies (permissions db) p min_permission) (\<lambda>ok.
     EOS_ASSERT ok irrelevant_auth_exception (Inr ())))"

definition check_level_satisfies :: "permission_level \<Rightarrow> permission_level \<Rightarrow> 'a auth_db_scheme \<Rightarrow> unit result" where
  "check_level_satisfies auth min_level db =
     ebind (get_permission auth db) (\<lambda>p.
     ebind (get_permission min_level db) (\<lambda>q.
     ebind (satisfies (permissions db) p q) (\<lambda>ok.
     EOS_ASSERT ok irrelevant_auth_exception (Inr ()))))"

definition check_updateauth_authorization :: "updateauth \<Rightarrow> permission_level list \<Rightarrow> 'a auth_db_scheme \<Rightarrow> unit result" where
  "check_updateauth_authorization update auths db =
     EOS_ASSERT (length auths = 1) irrelevant_auth_exception
     (let auth = auths ! 0 in
      EOS_ASSERT (fst auth = ua_account update) irrelevant_auth_exception
      (ebind (find_permission (ua_account update, ua_permission update) db) (\<lambda>found.
       ebind (case found of Some p \<Rightarrow> Inr p | None \<Rightarrow> get_permission (ua_account update, ua_parent update) db) (\<lambda>min_permission.
       check_satisfies auth min_permission db))))"

definition check_deleteauth_authorization :: "deleteauth \<Rightarrow> permission_level list \<Rightarrow> 'a auth_db_scheme \<Rightarrow> unit result" where
  "check_deleteauth_authorization del auths db =
     EOS_ASSERT (length auths = 1) irrelevant_auth_exception
     (let auth = auths ! 0 in
      EOS_ASSERT (fst auth = da_account del) irrelevant_auth_exception
      (ebind (get_permission (da_account del, da_permission del) db) (\<lambda>min_permission.
       check_satisfies auth min_permission db)))"

definition check_linkauth_authorization :: "linkauth \<Rightarrow> permission_level list \<Rightarrow> 'a auth_db_scheme \<Rightarrow> unit result" where
  "check_linkauth_authorization link auths db =
     EOS_ASSERT (length auths = 1) irrelevant_auth_exception
     (let auth = auths ! 0 in
      EOS_ASSERT (fst auth = la_account link) irrelevant_auth_exception
      (EOS_ASSERT (la_type link \<noteq> updateauth_name) action_validate_exception
      (EOS_ASSERT (la_type link \<noteq> deleteauth_name) action_validate_exception
      (EOS_ASSERT (la_type link \<noteq> linkauth_name) action_validate_exception
      (EOS_ASSERT (la_type link \<noteq> unlinkauth_name) action_validate_exception
      (EOS_ASSERT (la_type link \<noteq> canceldelay_name) action_validate_exception
      (ebind (lookup_minimum_permission (la_account link) (la_code link) (la_type link) db) (\<lambda>linked.
       case linked of
         None \<Rightarrow> Inr ()
       | Some nm \<Rightarrow>
           check_level_satisfies auth (la_account link, nm) db))))))))"

definition check_unlinkauth_authorization :: "unlinkauth \<Rightarrow> permission_level list \<Rightarrow> 'a auth_db_scheme \<Rightarrow> unit result" where
  "check_unlinkauth_authorization unlink auths db =
     EOS_ASSERT (length auths = 1) irrelevant_auth_exception
     (let auth = auths ! 0 in
      EOS_ASSERT (fst auth = ul_account unlink) irrelevant_auth_exception
      (case lookup_linked_permission (ul_account unlink) (ul_code unlink) (ul_type unlink) db of
         None \<Rightarrow> Inl transaction_exception
       | Some nm \<Rightarrow>
           if nm = eosio_any_name then Inr ()
           else check_level_satisfies auth (ul_account unlink, nm) db))"

definition check_canceldelay_authorization ::
  "auth_env \<Rightarrow> canceldelay \<Rightarrow> permission_level list \<Rightarrow> 'a auth_db_scheme \<Rightarrow> int result" where
  "check_canceldelay_authorization env cancel auths db =
     EOS_ASSERT (length auths = 1) irrelevant_auth_exception
     (let auth = auths ! 0 in
      ebind (check_level_satisfies auth (cd_canceling_auth cancel) db) (\<lambda>_.
      (case find (\<lambda>g. gto_trx_id g = cd_trx_id cancel) (generated db) of
         None \<Rightarrow> Inl tx_not_found
       | Some itr \<Rightarrow>
           EOS_ASSERT (gto_sender itr = 0) tx_not_found
           (ebind (unpack_transaction env (gto_packed_trx itr)) (\<lambda>acts.
            EOS_ASSERT (list_ex (\<lambda>act. list_ex (\<lambda>a. a = cd_canceling_auth cancel) (authorization act)) acts)
              action_validate_exception
            (Inr (gto_delay_until itr - gto_published itr)))))))"

subsection \<open>Checking a transaction\<close>

definition make_checker ::
  "auth_env \<Rightarrow> 'a auth_db_scheme \<Rightarrow> public_key_type list \<Rightarrow> permission_level list \<Rightarrow> int \<Rightarrow> authority_checker" where
  "make_checker env db ks ps delay =
     \<lparr>permission_to_authority = (\<lambda>p. ebind (get_permission p db) (\<lambda>q. Inr (po_auth (snd q)))),
      recursion_depth_limit = max_authority_depth env, provided_keys = ks, provided_permissions = ps,
      provided_delay = delay, arrange = env_arrange env\<rparr>"

definition effective_delay :: "auth_env \<Rightarrow> int \<Rightarrow> int" where
  "effective_delay env delay = (if delay \<ge> seconds (max_transaction_delay env) then INT64_MAX else delay)"

text \<open>The special cases of one action: whether it is one, and the delay its authorizations need.\<close>

definition check_special :: "auth_env \<Rightarrow> action \<Rightarrow> int \<Rightarrow> 'a auth_db_scheme \<Rightarrow> (bool \<times> int) result" where
  "check_special env act delay db =
     (if act_account act = system_account_name then
        if act_name act = updateauth_name then
          ebind (unpack_updateauth env (act_data act)) (\<lambda>d.
          ebind (check_updateauth_authorization d (authorization act) db) (\<lambda>_. Inr (True, delay)))
        else if act_name act = deleteauth_name then
          ebind (unpack_deleteauth env (act_data act)) (\<lambda>d.
          ebind (check_deleteauth_authorization d (authorization act) db) (\<lambda>_. Inr (True, delay)))
        else if act_name act = linkauth_name then
          ebind (unpack_linkauth env (act_data act)) (\<lambda>d.
          ebind (check_linkauth_authorization d (authorization act) db) (\<lambda>_. Inr (True, delay)))
        else if act_name act = unlinkauth_name then
          ebind (unpack_unlinkauth env (act_data act)) (\<lambda>d.
          ebind (check_unlinkauth_authorization d (authorization act) db) (\<lambda>_. Inr (True, delay)))
        else if act_name act = canceldelay_name then
          ebind (unpack_canceldelay env (act_data act)) (\<lambda>d.
          ebind (check_canceldelay_authorization env d (authorization act) db) (\<lambda>r. Inr (True, max delay r)))
        else Inr (False, delay)
      else Inr (False, delay))"

type_synonym to_satisfy = "(permission_level, int) flat_map \<times> nat"

definition check_declared ::
  "auth_env \<Rightarrow> action \<Rightarrow> bool \<Rightarrow> int \<Rightarrow> permission_level list \<Rightarrow> 'a auth_db_scheme \<Rightarrow> permission_level \<Rightarrow>
   to_satisfy \<Rightarrow> to_satisfy result" where
  "check_declared env act special_case delay satisfied_authorizations db declared_auth st =
     (let (to_satisfy, clock) = st in
      ebind (checktime env clock) (\<lambda>_.
      ebind (if special_case then Inr ()
             else ebind (lookup_minimum_permission (fst declared_auth) (act_account act) (act_name act) db) (\<lambda>nm.
               case nm of
                 None \<Rightarrow> Inr ()
               | Some nm \<Rightarrow>
                   ebind (get_permission (fst declared_auth, nm) db) (\<lambda>min_permission.
                   check_satisfies declared_auth min_permission db))) (\<lambda>_.
      Inr (if declared_auth \<in> set satisfied_authorizations then to_satisfy
           else case fm_lookup to_satisfy declared_auth of
             None \<Rightarrow> fm_update declared_auth delay to_satisfy
           | Some d \<Rightarrow> if d > delay then fm_update declared_auth delay to_satisfy else to_satisfy,
           clock + 1))))"

definition check_action ::
  "auth_env \<Rightarrow> int \<Rightarrow> permission_level list \<Rightarrow> 'a auth_db_scheme \<Rightarrow> action \<Rightarrow> to_satisfy \<Rightarrow> to_satisfy result" where
  "check_action env delay satisfied_authorizations db act st =
     ebind (check_special env act delay db) (\<lambda>(special_case, delay).
     efold (check_declared env act special_case delay satisfied_authorizations db) (authorization act) st)"

definition check_to_satisfy ::
  "auth_env \<Rightarrow> authority_checker \<Rightarrow> permission_level \<times> int \<Rightarrow> bool list \<times> nat \<Rightarrow> (bool list \<times> nat) result" where
  "check_to_satisfy env ch p st =
     (let (used, clock) = st in
      ebind (checktime env clock) (\<lambda>_.
      ebind (satisfied_with_delay ch (fst p) (snd p) used) (\<lambda>(ok, used).
      EOS_ASSERT ok unsatisfied_authorization (Inr (used, clock + 1)))))"

definition check_authorization ::
  "auth_env \<Rightarrow> action list \<Rightarrow> public_key_type list \<Rightarrow> permission_level list \<Rightarrow> int \<Rightarrow> bool \<Rightarrow> permission_level list \<Rightarrow>
   'a auth_db_scheme \<Rightarrow> unit result" where
  "check_authorization env actions ks ps delay allow_unused_keys satisfied_authorizations db =
     (let effective = effective_delay env delay;
          ch = make_checker env db ks ps effective in
      ebind (efold (check_action env effective satisfied_authorizations db) actions ([], 0)) (\<lambda>(to_satisfy, clock).
      ebind (efold (check_to_satisfy env ch) to_satisfy (initial_used ch, clock)) (\<lambda>(used, clock).
      EOS_ASSERT (allow_unused_keys \<or> all_keys_used used) tx_irrelevant_sig (Inr ()))))"

definition check_authorization_of ::
  "auth_env \<Rightarrow> permission_level \<Rightarrow> public_key_type list \<Rightarrow> permission_level list \<Rightarrow> int \<Rightarrow> bool \<Rightarrow>
   'a auth_db_scheme \<Rightarrow> unit result" where
  "check_authorization_of env lvl ks ps delay allow_unused_keys db =
     (let ch = make_checker env db ks ps (effective_delay env delay) in
      ebind (satisfied ch lvl (initial_used ch)) (\<lambda>(ok, used).
      EOS_ASSERT ok unsatisfied_authorization
      (EOS_ASSERT (allow_unused_keys \<or> all_keys_used used) tx_irrelevant_sig (Inr ()))))"

definition get_required_keys ::
  "auth_env \<Rightarrow> action list \<Rightarrow> public_key_type list \<Rightarrow> int \<Rightarrow> 'a auth_db_scheme \<Rightarrow> public_key_type list result" where
  "get_required_keys env actions candidate_keys delay db =
     (let ch = make_checker env db candidate_keys [] delay in
      ebind (efold (\<lambda>act used. efold (\<lambda>declared_auth used.
          ebind (satisfied ch declared_auth used) (\<lambda>(ok, used).
          EOS_ASSERT ok unsatisfied_authorization (Inr used))) (authorization act) used) actions (initial_used ch)) (\<lambda>used.
      Inr (checker_used_keys ch used)))"

subsection \<open>Snapshots\<close>

record snapshot_permission_object =
  sp_parent :: permission_name
  sp_owner :: account_name
  sp_name :: permission_name
  sp_last_updated :: time_point
  sp_last_used :: time_point
  sp_auth :: authority

definition to_snapshot_row :: "permission_object \<Rightarrow> 'a auth_db_scheme \<Rightarrow> snapshot_permission_object result" where
  "to_snapshot_row v db =
     ebind (db_get (permissions db) (po_parent v)) (\<lambda>parent.
     ebind (db_get (usages db) (po_usage_id v)) (\<lambda>usage.
     Inr \<lparr>sp_parent = po_name parent, sp_owner = po_owner v, sp_name = po_name v,
          sp_last_updated = po_last_updated v, sp_last_used = usage, sp_auth = po_auth v\<rparr>))"

definition from_snapshot_row ::
  "auth_env \<Rightarrow> snapshot_permission_object \<Rightarrow> permission_id_type \<Rightarrow> 'a auth_db_scheme \<Rightarrow>
   (permission_object \<times> 'a auth_db_scheme) result" where
  "from_snapshot_row env row value_id db =
     ebind
       (if value_id = 0 then
          EOS_ASSERT (sp_parent row = 0) snapshot_exception
          (EOS_ASSERT (sp_name row = 0) snapshot_exception
          (EOS_ASSERT (sp_owner row = 0) snapshot_exception
          (EOS_ASSERT (length (accounts (sp_auth row)) = 0) snapshot_exception
          (EOS_ASSERT (length (keys (sp_auth row)) = 0) snapshot_exception
          (EOS_ASSERT (length (waits (sp_auth row)) = 0) snapshot_exception
          (EOS_ASSERT (threshold (sp_auth row) = 0) snapshot_exception
          (EOS_ASSERT (sp_last_updated row = 0) snapshot_exception
          (Inr 0))))))))
        else if sp_parent row \<noteq> 0 then
          case find_by_owner (permissions db) (sp_owner row, sp_parent row) of
            None \<Rightarrow> Inl table_key_not_found
          | Some parent \<Rightarrow> EOS_ASSERT (fst parent \<noteq> 0) snapshot_exception (Inr (fst parent))
        else Inr 0) (\<lambda>parent.
     let usage_id = (if value_id \<noteq> 0 then fresh_usage_id env (usages db) else 0);
         db = (if value_id \<noteq> 0 then db\<lparr>usages := fm_update usage_id (sp_last_used row) (usages db)\<rparr> else db)
     in Inr (\<lparr>po_usage_id = usage_id, po_parent = parent, po_owner = sp_owner row, po_name = sp_name row,
              po_last_updated = sp_last_updated row, po_auth = sp_auth row\<rparr>, db))"

definition read_permission_row :: "auth_env \<Rightarrow> snapshot_permission_object \<Rightarrow> 'a auth_db_scheme \<Rightarrow> 'a auth_db_scheme result" where
  "read_permission_row env row db =
     (let i = fresh_permission_id env (permissions db) in
      ebind (from_snapshot_row env row i db) (\<lambda>(perm, db).
      EOS_ASSERT (find_by_owner (permissions db) (po_owner perm, po_name perm) = None) table_uniqueness_violation
      (Inr (db\<lparr>permissions := fm_update i perm (permissions db)\<rparr>))))"

definition add_to_snapshot :: "'a auth_db_scheme \<Rightarrow> (snapshot_permission_object list \<times> permission_link_index) result" where
  "add_to_snapshot db =
     ebind (efold (\<lambda>(i, p) rows. ebind (to_snapshot_row p db) (\<lambda>row. Inr (rows @ [row]))) (permissions db) []) (\<lambda>rows.
     Inr (rows, links db))"

definition read_from_snapshot ::
  "auth_env \<Rightarrow> snapshot_permission_object list \<times> permission_link_index \<Rightarrow> 'a auth_db_scheme \<Rightarrow> 'a auth_db_scheme result" where
  "read_from_snapshot env snapshot db =
     ebind (efold (read_permission_row env) (fst snapshot) db) (\<lambda>db.
     ebind (efold (\<lambda>(k, v) t. db_create k v t) (snd snapshot) (links db)) (\<lambda>t.
     Inr (db\<lparr>links := t\<rparr>)))"

subsection \<open>The tree of permissions\<close>

definition parent_rel :: "permission_index \<Rightarrow> (permission_id_type \<times> permission_id_type) set" where
  "parent_rel t = {(i, po_parent p) | i p. i \<noteq> 0 \<and> fm_lookup t i = Some p}"

text \<open>
  The shape of the table: the reserved permission zero; every other permission is named, belongs to
  an account and lies under an older permission of the same account or under the reserved one.
\<close>

definition hierarchy_ok :: "permission_index \<Rightarrow> bool" where
  "hierarchy_ok t \<longleftrightarrow> fm_ok t \<and>
     (\<exists>r. fm_lookup t 0 = Some r \<and> po_parent r = 0 \<and> po_owner r = 0 \<and> po_name r = 0) \<and>
     (\<forall>i p. fm_lookup t i = Some p \<and> i \<noteq> 0 \<longrightarrow> po_owner p \<noteq> 0 \<and> po_name p \<noteq> 0 \<and> po_parent p < i \<and>
        (\<exists>q. fm_lookup t (po_parent p) = Some q \<and> (po_parent p \<noteq> 0 \<longrightarrow> po_owner q = po_owner p))) \<and>
     (\<forall>i j p q. fm_lookup t i = Some p \<and> fm_lookup t j = Some q \<and> po_owner p = po_owner q \<and> po_name p = po_name q \<longrightarrow> i = j)"

lemma hierarchy_parent:
  assumes "hierarchy_ok t" and "fm_lookup t i = Some p" and "i \<noteq> 0"
  obtains q where "fm_lookup t (po_parent p) = Some q" and "po_parent p < i"
    and "po_parent p \<noteq> 0 \<Longrightarrow> po_owner q = po_owner p"
  using assms unfolding hierarchy_ok_def by blast

lemma hierarchy_named: "hierarchy_ok t \<Longrightarrow> fm_lookup t i = Some p \<Longrightarrow> i \<noteq> 0 \<Longrightarrow> po_owner p \<noteq> 0 \<and> po_name p \<noteq> 0"
  unfolding hierarchy_ok_def by blast

lemma hierarchy_reserved: "hierarchy_ok t \<Longrightarrow> \<exists>r. fm_lookup t 0 = Some r \<and> po_parent r = 0 \<and> po_owner r = 0 \<and> po_name r = 0"
  unfolding hierarchy_ok_def by blast

lemma hierarchy_unique:
  "hierarchy_ok t \<Longrightarrow> fm_lookup t i = Some p \<Longrightarrow> fm_lookup t j = Some q \<Longrightarrow> po_owner p = po_owner q \<Longrightarrow>
   po_name p = po_name q \<Longrightarrow> i = j"
  unfolding hierarchy_ok_def by blast

lemma find_by_owner_Some:
  assumes "fm_ok t" and "find_by_owner t lvl = Some (i, p)"
  shows "fm_lookup t i = Some p \<and> po_owner p = fst lvl \<and> po_name p = snd lvl"
  using assms by (auto simp: find_by_owner_def find_Some_iff fm_lookup_in_set in_set_conv_nth)

lemma find_by_owner_None:
  "fm_ok t \<Longrightarrow> find_by_owner t lvl = None \<longleftrightarrow> (\<forall>i p. fm_lookup t i = Some p \<longrightarrow> (po_owner p, po_name p) \<noteq> lvl)"
  by (cases lvl) (auto simp: find_by_owner_def find_None_iff fm_lookup_in_set)

lemma find_by_owner_iff:
  assumes "hierarchy_ok t"
  shows "find_by_owner t (a, n) = Some (i, p) \<longleftrightarrow> fm_lookup t i = Some p \<and> po_owner p = a \<and> po_name p = n"
proof -
  have ok: "fm_ok t" using assms by (simp add: hierarchy_ok_def)
  show ?thesis
  proof (cases "find_by_owner t (a, n)")
    case None
    moreover have "(po_owner p, po_name p) \<noteq> (a, n)" if "fm_lookup t i = Some p"
      using None that by (simp add: find_by_owner_None [OF ok])
    ultimately show ?thesis by auto
  next
    case (Some jq)
    then obtain j q where jq: "find_by_owner t (a, n) = Some (j, q)" by (cases jq) auto
    from find_by_owner_Some [OF ok jq] have q: "fm_lookup t j = Some q" "po_owner q = a" "po_name q = n" by auto
    have "i = j" if "fm_lookup t i = Some p" "po_owner p = a" "po_name p = n"
      using hierarchy_unique [OF assms that(1) q(1)] that q by simp
    then show ?thesis using jq q by auto
  qed
qed

lemma parent_rel_step: "fm_lookup t j = Some q \<Longrightarrow> j \<noteq> 0 \<Longrightarrow> (j, i) \<in> (parent_rel t)\<^sup>* \<longleftrightarrow> i = j \<or> (po_parent q, i) \<in> (parent_rel t)\<^sup>*"
  by (auto simp: parent_rel_def elim: converse_rtranclE intro: converse_rtrancl_into_rtrancl)

lemma parent_rel_zero [simp]: "(0, i) \<in> (parent_rel t)\<^sup>* \<longleftrightarrow> i = 0"
  by (auto simp: parent_rel_def elim: converse_rtranclE)

text \<open>The walk climbs to smaller and smaller identifiers, so the table bounds its length.\<close>

definition older :: "permission_index \<Rightarrow> permission_id_type \<Rightarrow> nat" where
  "older t k = card {x \<in> set (fm_keys t). x < k}"

lemma older_less: "fm_lookup t j = Some q \<Longrightarrow> fm_ok t \<Longrightarrow> j < k \<Longrightarrow> older t j < older t k"
  unfolding older_def by (rule psubset_card_mono) (auto simp: fm.set_keys)

lemma older_bound: "older t k \<le> length t"
proof -
  have "older t k \<le> card (set (fm_keys t))" unfolding older_def by (rule card_mono) auto
  also have "\<dots> \<le> length t" using card_length [of "fm_keys t"] by (simp add: fm_keys_def)
  finally show ?thesis .
qed

lemma parent_walk_spec:
  assumes "hierarchy_ok t" and "fm_lookup t k = Some parent" and "older t k < n" and "i \<noteq> 0"
  shows "parent_walk n t i parent = Inr (i \<noteq> k \<and> (k, i) \<in> (parent_rel t)\<^sup>*)"
  using assms(2,3)
proof (induction n arbitrary: k parent)
  case (Suc n)
  have ok: "fm_ok t" using assms(1) by (simp add: hierarchy_ok_def)
  show ?case
  proof (cases "k = 0")
    case True
    then show ?thesis using hierarchy_reserved [OF assms(1)] Suc.prems assms(4) by auto
  next
    case False
    obtain q where q: "fm_lookup t (po_parent parent) = Some q" "po_parent parent < k"
      using hierarchy_parent [OF assms(1) Suc.prems(1) False] by blast
    have "older t (po_parent parent) < n" using older_less [OF q(1) ok q(2)] Suc.prems(2) by simp
    note IH = Suc.IH [OF q(1) this]
    have "i \<noteq> k" if "(po_parent parent, i) \<in> (parent_rel t)\<^sup>*"
    proof -
      have "x \<le> y" if "(y, x) \<in> (parent_rel t)\<^sup>*" for x y
        using that
      proof induction
        case (step y z)
        then show ?case using assms(1) unfolding parent_rel_def hierarchy_ok_def by fastforce
      qed simp
      from this [OF that] q(2) show ?thesis by simp
    qed
    then show ?thesis
      using q(1) IH assms(4) by (auto simp: parent_rel_step [OF Suc.prems(1) False])
  qed
qed simp

lemma satisfies_spec:
  assumes "hierarchy_ok t" and "fm_lookup t i = Some p" and "fm_lookup t j = Some q"
  shows "satisfies t (i, p) (j, q) = Inr (po_owner p = po_owner q \<and> (j, i) \<in> (parent_rel t)\<^sup>*)"
proof (cases "po_owner p = po_owner q")
  case True
  have ok: "fm_ok t" using assms(1) by (simp add: hierarchy_ok_def)
  show ?thesis
  proof (cases "j = 0")
    case True
    then have "i = 0"
      using hierarchy_named [OF assms(1,2)] hierarchy_reserved [OF assms(1)] assms(3) \<open>po_owner p = po_owner q\<close> by auto
    then show ?thesis using True \<open>po_owner p = po_owner q\<close> by (simp add: satisfies_def)
  next
    case False
    have "i \<noteq> 0"
      using hierarchy_named [OF assms(1,3) False] hierarchy_reserved [OF assms(1)] assms(2) True by (metis option.inject)
    obtain r where r: "fm_lookup t (po_parent q) = Some r" using hierarchy_parent [OF assms(1,3) False] by blast
    have "older t (po_parent q) < length t + 1" using older_bound [of t "po_parent q"] by simp
    from parent_walk_spec [OF assms(1) r this \<open>i \<noteq> 0\<close>] show ?thesis
      using True r by (auto simp: satisfies_def parent_rel_step [OF assms(3) False])
  qed
qed (simp add: satisfies_def)

subsection \<open>What the operations keep\<close>

text \<open>
  Identifiers that the database hands out: larger than every one in use, starting from zero.
\<close>

definition env_ok :: "auth_env \<Rightarrow> bool" where
  "env_ok env \<longleftrightarrow> (\<forall>t k. fm_lookup t k \<noteq> None \<longrightarrow> k < fresh_permission_id env t) \<and> fresh_permission_id env [] = 0 \<and>
     (\<forall>t k. fm_lookup t k \<noteq> None \<longrightarrow> k < fresh_usage_id env t)"

text \<open>The permissions and their usage records correspond one to one, the reserved permission aside.\<close>

definition usages_ok :: "'a auth_db_scheme \<Rightarrow> bool" where
  "usages_ok db \<longleftrightarrow> fm_ok (usages db) \<and>
     (\<forall>i p. fm_lookup (permissions db) i = Some p \<and> i \<noteq> 0 \<longrightarrow> fm_lookup (usages db) (po_usage_id p) \<noteq> None) \<and>
     (\<forall>i j p q. fm_lookup (permissions db) i = Some p \<and> fm_lookup (permissions db) j = Some q \<and> i \<noteq> 0 \<and> j \<noteq> 0 \<and>
        po_usage_id p = po_usage_id q \<longrightarrow> i = j)"

definition auth_db_ok :: "'a auth_db_scheme \<Rightarrow> bool" where
  "auth_db_ok db \<longleftrightarrow> hierarchy_ok (permissions db) \<and> usages_ok db \<and> fm_ok (links db)"

lemma auth_db_okD:
  "auth_db_ok db \<Longrightarrow> hierarchy_ok (permissions db)" "auth_db_ok db \<Longrightarrow> usages_ok db"
  "auth_db_ok db \<Longrightarrow> fm_ok (links db)" "auth_db_ok db \<Longrightarrow> fm_ok (permissions db)" "auth_db_ok db \<Longrightarrow> fm_ok (usages db)"
  by (auto simp: auth_db_ok_def hierarchy_ok_def usages_ok_def)

text \<open>The database before any account exists.\<close>

definition empty_auth_db :: auth_db where
  "empty_auth_db = \<lparr>permissions = [], usages = [], links = [], generated = []\<rparr>"

lemma initialize_permission_database_ok: "env_ok env \<Longrightarrow> auth_db_ok (initialize_permission_database env empty_auth_db)"
  by (auto simp: initialize_permission_database_def empty_auth_db_def auth_db_ok_def usages_ok_def hierarchy_ok_def env_ok_def
      fm_ok_def fm_lookup_def split: if_splits)

lemma hierarchy_add:
  assumes "hierarchy_ok t" and "\<And>k. fm_lookup t k \<noteq> None \<Longrightarrow> k < i" and "po_owner p \<noteq> 0" and "po_name p \<noteq> 0"
    and "find_by_owner t (po_owner p, po_name p) = None"
    and "fm_lookup t (po_parent p) = Some q" and "po_parent p \<noteq> 0 \<Longrightarrow> po_owner q = po_owner p"
  shows "hierarchy_ok (fm_update i p t)"
proof -
  have ok: "fm_ok t" using assms(1) by (simp add: hierarchy_ok_def)
  have new: "fm_lookup t i = None" using assms(2) [of i] by blast
  have less: "po_parent p < i" using assms(2) [of "po_parent p"] assms(6) by simp
  have pos: "i \<noteq> 0" using less by simp
  have other: "po_owner r \<noteq> po_owner p \<or> po_name r \<noteq> po_name p" if "fm_lookup t j = Some r" for j r
    using assms(5) that by (auto simp: find_by_owner_None [OF ok])
  let ?t = "fm_update i p t"
  have lk: "fm_lookup ?t k = (if k = i then Some p else fm_lookup t k)" for k using ok by (simp add: fm_laws)
  have "\<exists>r. fm_lookup ?t 0 = Some r \<and> po_parent r = 0 \<and> po_owner r = 0 \<and> po_name r = 0"
    using hierarchy_reserved [OF assms(1)] pos by (simp add: lk)
  moreover have "po_owner r \<noteq> 0 \<and> po_name r \<noteq> 0 \<and> po_parent r < j \<and>
      (\<exists>q. fm_lookup ?t (po_parent r) = Some q \<and> (po_parent r \<noteq> 0 \<longrightarrow> po_owner q = po_owner r))"
    if jr: "fm_lookup ?t j = Some r" and j: "j \<noteq> 0" for j r
  proof (cases "j = i")
    case True
    then have "r = p" using jr by (simp add: lk)
    moreover have "fm_lookup ?t (po_parent p) = Some q" using assms(6) less by (simp add: lk)
    ultimately show ?thesis using True assms(3,4,7) less by blast
  next
    case False
    then have r: "fm_lookup t j = Some r" using jr by (simp add: lk)
    obtain q' where "fm_lookup t (po_parent r) = Some q'" "po_parent r < j"
      "po_parent r \<noteq> 0 \<Longrightarrow> po_owner q' = po_owner r"
      using hierarchy_parent [OF assms(1) r j] by blast
    moreover have "po_parent r \<noteq> i" using calculation(1) new by auto
    ultimately show ?thesis using hierarchy_named [OF assms(1) r j] by (simp add: lk)
  qed
  moreover have "j = k" if "fm_lookup ?t j = Some r" "fm_lookup ?t k = Some s" "po_owner r = po_owner s"
    "po_name r = po_name s" for j k r s
    using that other hierarchy_unique [OF assms(1), of j r k s] unfolding lk by (metis option.inject)
  moreover have "fm_ok ?t" using ok by (simp add: fm_laws)
  ultimately show ?thesis unfolding hierarchy_ok_def by blast
qed

lemma hierarchy_modify:
  assumes "hierarchy_ok t" and "fm_lookup t i = Some p" and "po_owner p' = po_owner p" and "po_name p' = po_name p"
    and "po_parent p' = po_parent p"
  shows "hierarchy_ok (fm_update i p' t)"
proof -
  have ok: "fm_ok t" using assms(1) by (simp add: hierarchy_ok_def)
  have lk: "fm_lookup (fm_update i p' t) k = (if k = i then Some p' else fm_lookup t k)" for k using ok by (simp add: fm_laws)
  have same: "\<exists>s. fm_lookup t k = Some s \<and> po_owner s = po_owner r \<and> po_name s = po_name r \<and> po_parent s = po_parent r"
    if "fm_lookup (fm_update i p' t) k = Some r" for k r
    using that assms(2-5) by (auto simp: lk split: if_splits)
  have back': "\<exists>s. fm_lookup (fm_update i p' t) k = Some s \<and> po_owner s = po_owner r \<and> po_name s = po_name r \<and> po_parent s = po_parent r"
    if "fm_lookup t k = Some r" for k r
    using that assms(2-5) by (auto simp: lk)
  show ?thesis
    unfolding hierarchy_ok_def
  proof (intro conjI allI impI)
    show "fm_ok (fm_update i p' t)" using ok by (simp add: fm_laws)
    show "\<exists>r. fm_lookup (fm_update i p' t) 0 = Some r \<and> po_parent r = 0 \<and> po_owner r = 0 \<and> po_name r = 0"
      using hierarchy_reserved [OF assms(1)] back' by metis
    fix j r assume r: "fm_lookup (fm_update i p' t) j = Some r \<and> j \<noteq> 0"
    then obtain s where s: "fm_lookup t j = Some s" "po_owner s = po_owner r" "po_name s = po_name r" "po_parent s = po_parent r"
      using same by blast
    obtain q where q: "fm_lookup t (po_parent s) = Some q" "po_parent s < j" "po_parent s \<noteq> 0 \<Longrightarrow> po_owner q = po_owner s"
      using hierarchy_parent [OF assms(1) s(1)] r by blast
    show "po_owner r \<noteq> 0" "po_name r \<noteq> 0" using hierarchy_named [OF assms(1) s(1)] r s by auto
    show "po_parent r < j" using q s by simp
    show "\<exists>q. fm_lookup (fm_update i p' t) (po_parent r) = Some q \<and> (po_parent r \<noteq> 0 \<longrightarrow> po_owner q = po_owner r)"
      using back' [OF q(1)] q s by metis
  next
    fix j k r s
    assume "fm_lookup (fm_update i p' t) j = Some r \<and> fm_lookup (fm_update i p' t) k = Some s \<and>
      po_owner r = po_owner s \<and> po_name r = po_name s"
    then show "j = k" using same [of j r] same [of k s] hierarchy_unique [OF assms(1)] by metis
  qed
qed

lemma hierarchy_erase:
  assumes "hierarchy_ok t" and "i \<noteq> 0" and "\<not> has_children t i"
  shows "hierarchy_ok (fm_erase i t)"
proof -
  have ok: "fm_ok t" using assms(1) by (simp add: hierarchy_ok_def)
  have lk: "fm_lookup (fm_erase i t) k = (if k = i then None else fm_lookup t k)" for k using ok by (simp add: fm_laws)
  have "po_parent r \<noteq> i" if "fm_lookup t j = Some r" for j r
    using assms(3) that ok by (auto simp: has_children_def list_ex_iff fm_lookup_in_set)
  then show ?thesis
    using assms(1,2) unfolding hierarchy_ok_def by (auto simp: lk fm_laws split: if_splits)
qed

lemma create_permission_ok:
  assumes "env_ok env" and "auth_db_ok db" and "create_permission env account nm parent auth time db = Inr ((i, p), db')"
    and "account \<noteq> 0" and "nm \<noteq> 0"
    and "fm_lookup (permissions db) parent = Some q" and "parent \<noteq> 0 \<Longrightarrow> po_owner q = account"
  shows "auth_db_ok db'" and "i \<noteq> 0" and "po_owner p = account" and "po_name p = nm" and "po_parent p = parent"
    and "po_auth p = auth" and "permissions db' = fm_update i p (permissions db)" and "links db' = links db"
    and "generated db' = generated db" and "fm_lookup (permissions db) i = None"
proof -
  let ?u = "fresh_usage_id env (usages db)"
  have p: "po_usage_id p = ?u" "po_owner p = account" "po_name p = nm" "po_parent p = parent" "po_auth p = auth"
    and i: "i = fresh_permission_id env (permissions db)"
    and db': "permissions db' = fm_update i p (permissions db)" "usages db' = fm_update ?u (po_last_updated p) (usages db)"
      "links db' = links db" "generated db' = generated db"
    and new: "find_by_owner (permissions db) (account, nm) = None"
    using assms(3) by (auto simp: create_permission_def Let_def exc_simps)
  have gt: "\<And>k. fm_lookup (permissions db) k \<noteq> None \<Longrightarrow> k < i" using assms(1) i by (simp add: env_ok_def)
  have ugt: "\<And>k. fm_lookup (usages db) k \<noteq> None \<Longrightarrow> k < ?u" using assms(1) by (simp add: env_ok_def)
  note okP = auth_db_okD(4) [OF assms(2)] and okU = auth_db_okD(5) [OF assms(2)]
  have h: "hierarchy_ok (permissions db')"
    unfolding db' by (rule hierarchy_add [OF auth_db_okD(1) [OF assms(2)] gt, where q = q]) (use p assms(4-7) new in auto)
  have old: "po_usage_id r < ?u" if "fm_lookup (permissions db) j = Some r" "j \<noteq> 0" for j r
    using auth_db_okD(2) [OF assms(2)] that ugt unfolding usages_ok_def by blast
  have lk: "fm_lookup (permissions db') j = (if j = i then Some p else fm_lookup (permissions db) j)" for j
    by (simp add: db' fm_laws okP)
  have lku: "fm_lookup (usages db') u = (if u = ?u then Some (po_last_updated p) else fm_lookup (usages db) u)" for u
    by (simp add: db' fm_laws okU)
  have used: "fm_lookup (usages db') (po_usage_id r) \<noteq> None" if "fm_lookup (permissions db') j = Some r" "j \<noteq> 0" for j r
    using that p(1) auth_db_okD(2) [OF assms(2)] unfolding usages_ok_def lk lku by (metis option.distinct(1) option.inject)
  have "j = k" if "fm_lookup (permissions db') j = Some r" "fm_lookup (permissions db') k = Some s" "j \<noteq> 0" "k \<noteq> 0"
    "po_usage_id r = po_usage_id s" for j k r s
    using that p(1) old auth_db_okD(2) [OF assms(2)] unfolding usages_ok_def lk by (metis less_irrefl option.inject)
  moreover have "fm_ok (usages db')" by (simp add: db' fm_laws okU)
  ultimately have "usages_ok db'" using used unfolding usages_ok_def by blast
  then show "auth_db_ok db'" using h assms(2) by (simp add: auth_db_ok_def db')
  show "fm_lookup (permissions db) i = None" using gt [of i] by blast
  show "i \<noteq> 0" using hierarchy_reserved [OF auth_db_okD(1) [OF assms(2)]] gt [of 0] by auto
qed (use assms(3) in \<open>auto simp: create_permission_def Let_def exc_simps\<close>)

lemma usages_ok_transfer:
  assumes "usages_ok db" and "fm_ok (usages db')"
    and "\<And>u. fm_lookup (usages db) u \<noteq> None \<Longrightarrow> fm_lookup (usages db') u \<noteq> None"
    and "\<And>i p. fm_lookup (permissions db') i = Some p \<Longrightarrow> i \<noteq> 0 \<Longrightarrow>
      \<exists>q. fm_lookup (permissions db) i = Some q \<and> po_usage_id q = po_usage_id p"
  shows "usages_ok db'"
proof -
  have "fm_lookup (usages db') (po_usage_id p) \<noteq> None" if "fm_lookup (permissions db') i = Some p" "i \<noteq> 0" for i p
    using assms(4) [OF that] assms(1,3) that(2) unfolding usages_ok_def by metis
  moreover have "i = j" if "fm_lookup (permissions db') i = Some p" "fm_lookup (permissions db') j = Some q"
    "i \<noteq> 0" "j \<noteq> 0" "po_usage_id p = po_usage_id q" for i j p q
    using assms(4) [OF that(1,3)] assms(4) [OF that(2,4)] assms(1) that(3-5) unfolding usages_ok_def by metis
  ultimately show ?thesis using assms(2) unfolding usages_ok_def by blast
qed

lemma modify_permission_ok:
  assumes "auth_db_ok db" and "fm_lookup (permissions db) i = Some p"
  shows "auth_db_ok (modify_permission env (i, p) auth db)"
proof -
  let ?p = "p\<lparr>po_auth := auth, po_last_updated := pending_block_time env\<rparr>"
  have "hierarchy_ok (fm_update i ?p (permissions db))"
    by (rule hierarchy_modify [OF auth_db_okD(1) [OF assms(1)] assms(2)]) simp_all
  moreover have "usages_ok (db\<lparr>permissions := fm_update i ?p (permissions db)\<rparr>)"
    by (rule usages_ok_transfer [OF auth_db_okD(2) [OF assms(1)]])
      (use assms(2) in \<open>auto simp: fm_laws auth_db_okD [OF assms(1)] split: if_splits\<close>)
  ultimately show ?thesis using assms(1) by (simp add: auth_db_ok_def modify_permission_def)
qed

lemma remove_permission_ok:
  assumes "auth_db_ok db" and "fm_lookup (permissions db) i = Some p" and "i \<noteq> 0" and "remove_permission (i, p) db = Inr db'"
  shows "auth_db_ok db'"
proof -
  note U = auth_db_okD(2) [OF assms(1)] and okP = auth_db_okD(4) [OF assms(1)] and okU = auth_db_okD(5) [OF assms(1)]
  have db': "db' = db\<lparr>usages := fm_erase (po_usage_id p) (usages db), permissions := fm_erase i (permissions db)\<rparr>"
    and leaf: "\<not> has_children (permissions db) i"
    using assms(4) by (auto simp: remove_permission_def exc_simps)
  have other: "po_usage_id r \<noteq> po_usage_id p" if "fm_lookup (permissions db) j = Some r" "j \<noteq> i" "j \<noteq> 0" for j r
    using U that assms(2,3) unfolding usages_ok_def by blast
  have lk: "fm_lookup (permissions db') j = Some r \<longleftrightarrow> j \<noteq> i \<and> fm_lookup (permissions db) j = Some r" for j r
    by (simp add: db' fm_laws okP)
  have "fm_lookup (usages db') (po_usage_id r) \<noteq> None" if "fm_lookup (permissions db') j = Some r" "j \<noteq> 0" for j r
  proof -
    have j: "fm_lookup (permissions db) j = Some r" "j \<noteq> i" using that by (simp_all add: lk)
    then have "fm_lookup (usages db) (po_usage_id r) \<noteq> None" using U that(2) unfolding usages_ok_def by blast
    then show ?thesis using other [OF j that(2)] by (simp add: db' fm_laws okU)
  qed
  moreover have "j = k" if "fm_lookup (permissions db') j = Some r" "fm_lookup (permissions db') k = Some s" "j \<noteq> 0" "k \<noteq> 0"
    "po_usage_id r = po_usage_id s" for j k r s
    using that U unfolding lk usages_ok_def by blast
  moreover have "fm_ok (usages db')" using okU by (simp add: db' fm_laws)
  ultimately have "usages_ok db'" unfolding usages_ok_def by blast
  then show ?thesis
    using hierarchy_erase [OF auth_db_okD(1) [OF assms(1)] assms(3) leaf] assms(1) by (simp add: auth_db_ok_def db')
qed

lemma update_permission_usage_ok:
  assumes "auth_db_ok db" and "update_permission_usage env p db = Inr db'"
  shows "auth_db_ok db' \<and> permissions db' = permissions db"
proof -
  have db': "db' = db\<lparr>usages := fm_update (po_usage_id p) (pending_block_time env) (usages db)\<rparr>"
    using assms(2) by (auto simp: update_permission_usage_def exc_simps)
  have "fm_lookup (usages db) u \<noteq> None \<Longrightarrow> fm_lookup (usages db') u \<noteq> None" for u
    using auth_db_okD(5) [OF assms(1)] by (simp add: db' fm_laws)
  moreover have same: "permissions db' = permissions db" "links db' = links db" by (simp_all add: db')
  moreover have "fm_ok (usages db')" using auth_db_okD(5) [OF assms(1)] by (simp add: db' fm_laws)
  ultimately have "usages_ok db'" using usages_ok_transfer [OF auth_db_okD(2) [OF assms(1)], of db'] by simp
  then show ?thesis using assms(1) by (simp add: auth_db_ok_def same)
qed

lemma get_permission_Inr:
  assumes "auth_db_ok db"
  shows "get_permission lvl db = Inr (i, p) \<longleftrightarrow>
    fst lvl \<noteq> 0 \<and> snd lvl \<noteq> 0 \<and> fm_lookup (permissions db) i = Some p \<and> po_owner p = fst lvl \<and> po_name p = snd lvl"
  using find_by_owner_iff [OF auth_db_okD(1) [OF assms], of "fst lvl" "snd lvl" i p]
  by (auto simp: get_permission_def exc_simps split: option.splits)

lemma get_permission_nonzero:
  assumes "auth_db_ok db" and "get_permission lvl db = Inr (i, p)"
  shows "i \<noteq> 0"
  using assms(2) hierarchy_reserved [OF auth_db_okD(1) [OF assms(1)]]
  unfolding get_permission_Inr [OF assms(1)] by (metis option.inject)

text \<open>
  One permission reaches another: they belong to the same account and the first is the second or an
  ancestor of it.
\<close>

definition reaches :: "'a auth_db_scheme \<Rightarrow> permission_level \<Rightarrow> permission_level \<Rightarrow> bool" where
  "reaches db a b \<longleftrightarrow> (\<exists>i p j q. get_permission a db = Inr (i, p) \<and> get_permission b db = Inr (j, q) \<and>
     fst a = fst b \<and> (j, i) \<in> (parent_rel (permissions db))\<^sup>*)"

lemma check_level_satisfies_iff:
  assumes "auth_db_ok db"
  shows "check_level_satisfies a b db = Inr () \<longleftrightarrow> reaches db a b"
proof -
  have *: "satisfies (permissions db) (i, p) (j, q) = Inr (fst a = fst b \<and> (j, i) \<in> (parent_rel (permissions db))\<^sup>*)"
    if "get_permission a db = Inr (i, p)" "get_permission b db = Inr (j, q)" for i p j q
  proof -
    note pq = that [unfolded get_permission_Inr [OF assms]]
    then show ?thesis using satisfies_spec [OF auth_db_okD(1) [OF assms], of i p j q] by simp
  qed
  show ?thesis
  proof (cases "\<exists>x y. get_permission a db = Inr x \<and> get_permission b db = Inr y")
    case True
    then obtain i p j q where ip: "get_permission a db = Inr (i, p)" and jq: "get_permission b db = Inr (j, q)"
      by (metis surj_pair)
    show ?thesis unfolding check_level_satisfies_def reaches_def ip jq ebind_simps * [OF ip jq]
      by (simp add: EOS_ASSERT_def)
  next
    case False
    then have "(\<exists>e. get_permission a db = Inl e) \<or> (\<exists>e. get_permission b db = Inl e)"
      by (metis obj_sumE)
    then show ?thesis
    proof
      assume "\<exists>e. get_permission a db = Inl e"
      then show ?thesis by (auto simp: check_level_satisfies_def reaches_def)
    next
      assume "\<exists>e. get_permission b db = Inl e"
      then show ?thesis by (cases "get_permission a db") (auto simp: check_level_satisfies_def reaches_def)
    qed
  qed
qed

lemma check_satisfies_level:
  "get_permission b db = Inr q \<Longrightarrow> check_satisfies a q db = check_level_satisfies a b db"
  by (simp add: check_satisfies_def check_level_satisfies_def)

subsection \<open>Checking a transaction is sound\<close>

lemma make_checker_delay: "(make_checker env db ks ps d)\<lparr>provided_delay := d'\<rparr> = make_checker env db ks ps d'"
  by (simp add: make_checker_def)

text \<open>A step of the loop over the declared authorizations only lowers the delays to satisfy.\<close>

definition satisfy_grows :: "to_satisfy \<Rightarrow> to_satisfy \<Rightarrow> bool" where
  "satisfy_grows st st' \<longleftrightarrow> (fm_ok (fst st) \<longrightarrow> fm_ok (fst st') \<and>
     (\<forall>a d. fm_lookup (fst st) a = Some d \<longrightarrow> (\<exists>d' \<le> d. fm_lookup (fst st') a = Some d')))"

interpretation to_satisfy: state_frame satisfy_grows
proof unfold_locales
  show "satisfy_grows a c" if "satisfy_grows a b" "satisfy_grows b c" for a b c
    using that unfolding satisfy_grows_def by (meson order_trans)
qed (auto simp: satisfy_grows_def)

lemma check_declared_state:
  assumes "check_declared env act sp d sat db a st = Inr st'"
  shows "fst st' = fst st \<and> (a \<in> set sat \<or> (\<exists>d' \<le> d. fm_lookup (fst st) a = Some d')) \<or>
    fst st' = fm_update a d (fst st) \<and> a \<notin> set sat \<and> (\<forall>d'. fm_lookup (fst st) a = Some d' \<longrightarrow> d \<le> d')"
proof -
  have "fst st' = (if a \<in> set sat then fst st
           else case fm_lookup (fst st) a of
             None \<Rightarrow> fm_update a d (fst st)
           | Some d' \<Rightarrow> if d' > d then fm_update a d (fst st) else fst st)"
    using assms by (cases st) (auto simp: check_declared_def exc_simps split: option.splits)
  then show ?thesis by (cases "fm_lookup (fst st) a") auto
qed

lemma check_declared_grows:
  assumes "check_declared env act sp d sat db a st = Inr st'"
  shows "satisfy_grows st st'"
  using check_declared_state [OF assms]
proof
  assume "fst st' = fm_update a d (fst st) \<and> a \<notin> set sat \<and> (\<forall>d'. fm_lookup (fst st) a = Some d' \<longrightarrow> d \<le> d')"
  then show ?thesis by (auto simp: satisfy_grows_def fm_laws)
qed (auto simp: satisfy_grows_def)

lemma check_declared_entry:
  assumes "check_declared env act sp d sat db a st = Inr st'" and "fm_ok (fst st)" and "a \<notin> set sat"
  shows "\<exists>d' \<le> d. fm_lookup (fst st') a = Some d'"
  using check_declared_state [OF assms(1)] assms(2,3) by (auto simp: fm_laws)

lemma check_declared_minimum:
  assumes "check_declared env act False d sat db a st = Inr st'" and "auth_db_ok db"
  shows "\<exists>nm. lookup_minimum_permission (fst a) (act_account act) (act_name act) db = Inr nm \<and>
    (\<forall>n. nm = Some n \<longrightarrow> reaches db a (fst a, n))"
proof -
  obtain nm where nm: "lookup_minimum_permission (fst a) (act_account act) (act_name act) db = Inr nm"
    and chk: "(case nm of None \<Rightarrow> Inr () | Some nm \<Rightarrow>
       ebind (get_permission (fst a, nm) db) (\<lambda>min_permission. check_satisfies a min_permission db)) = Inr ()"
    using assms(1) by (auto simp: check_declared_def exc_simps split: prod.splits)
  have "reaches db a (fst a, n)" if n: "nm = Some n" for n
  proof -
    obtain q where q: "get_permission (fst a, n) db = Inr q" "check_satisfies a q db = Inr ()"
      using chk n by (auto simp: exc_simps)
    then have "check_level_satisfies a (fst a, n) db = Inr ()" using check_satisfies_level [OF q(1)] by simp
    then show ?thesis using check_level_satisfies_iff [OF assms(2)] by simp
  qed
  then show ?thesis using nm by blast
qed

lemma declared_loop_grows:
  assumes "efold (check_declared env act sp dl sat db) as' st = Inr st'"
  shows "satisfy_grows st st'"
  using assms by (rule to_satisfy.frame_efold) (rule check_declared_grows)

lemma action_loop_grows:
  assumes "efold (check_action env d sat db) acts st = Inr st'"
  shows "satisfy_grows st st'"
  using assms
proof (rule to_satisfy.frame_efold)
  fix act s s' assume "check_action env d sat db act s = Inr s'"
  then obtain sp dl where "efold (check_declared env act sp dl sat db) (authorization act) s = Inr s'"
    by (auto simp: check_action_def exc_simps)
  then show "satisfy_grows s s'" by (rule declared_loop_grows)
qed

lemma check_special_delay:
  assumes "check_special env act d db = Inr (sp, dl)"
  shows "d \<le> dl"
  using assms by (auto simp: check_special_def exc_simps split: if_splits)

text \<open>What one pass of the two loops has established for a declared authorization.\<close>

lemma check_actions_declared:
  assumes "efold (check_action env d sat db) acts ([], 0) = Inr st'" and "act \<in> set acts" and "a \<in> set (authorization act)"
    and "auth_db_ok db"
  obtains sp dl where "check_special env act d db = Inr (sp, dl)"
    and "a \<notin> set sat \<Longrightarrow> \<exists>d' \<le> dl. fm_lookup (fst st') a = Some d'"
    and "\<not> sp \<Longrightarrow> \<exists>nm. lookup_minimum_permission (fst a) (act_account act) (act_name act) db = Inr nm \<and>
       (\<forall>n. nm = Some n \<longrightarrow> reaches db a (fst a, n))"
proof -
  obtain us vs s1 s2 where "acts = us @ act # vs" and before: "efold (check_action env d sat db) us ([], 0) = Inr s1"
    and act: "check_action env d sat db act s1 = Inr s2" and post: "efold (check_action env d sat db) vs s2 = Inr st'"
    by (rule efold_visit [OF assms(1,2)])
  have "satisfy_grows ([], 0) s1" by (rule action_loop_grows [OF before])
  then have ok1: "fm_ok (fst s1)" by (simp add: satisfy_grows_def fm_laws)
  obtain sp dl where sp: "check_special env act d db = Inr (sp, dl)"
    and loop: "efold (check_declared env act sp dl sat db) (authorization act) s1 = Inr s2"
    using act by (auto simp: check_action_def exc_simps)
  obtain us' vs' s3 s4 where "authorization act = us' @ a # vs'" and pre: "efold (check_declared env act sp dl sat db) us' s1 = Inr s3"
    and a: "check_declared env act sp dl sat db a s3 = Inr s4"
    and rest: "efold (check_declared env act sp dl sat db) vs' s4 = Inr s2"
    by (rule efold_visit [OF loop assms(3)])
  have ok3: "fm_ok (fst s3)" using declared_loop_grows [OF pre] ok1 by (simp add: satisfy_grows_def)
  then have ok4: "fm_ok (fst s4)" using check_declared_grows [OF a] by (simp add: satisfy_grows_def)
  have "satisfy_grows s4 st'"
    using declared_loop_grows [OF rest] action_loop_grows [OF post] by (rule to_satisfy.frame_trans)
  then have mono: "\<exists>d' \<le> d. fm_lookup (fst st') b = Some d'" if "fm_lookup (fst s4) b = Some d" for b d
    using ok4 that unfolding satisfy_grows_def by blast
  show thesis
  proof (rule that [OF sp])
    show "\<exists>d' \<le> dl. fm_lookup (fst st') a = Some d'" if new: "a \<notin> set sat"
    proof -
      obtain d1 where d1: "d1 \<le> dl" "fm_lookup (fst s4) a = Some d1" using check_declared_entry [OF a ok3 new] by blast
      from mono [OF d1(2)] d1(1) show ?thesis using order_trans by blast
    qed
    show "\<exists>nm. lookup_minimum_permission (fst a) (act_account act) (act_name act) db = Inr nm \<and>
        (\<forall>n. nm = Some n \<longrightarrow> reaches db a (fst a, n))" if "\<not> sp"
      using check_declared_minimum [OF _ assms(4)] a that by simp
  qed
qed

lemma check_to_satisfy_granted:
  assumes "efold (check_to_satisfy env ch) m st = Inr st'" and "arrange_ok ch" and "(a, d) \<in> set m"
  shows "granted (ch\<lparr>provided_delay := d\<rparr>) a"
proof -
  obtain us vs s1 s2 where "m = us @ (a, d) # vs" and "efold (check_to_satisfy env ch) us st = Inr s1"
    and "check_to_satisfy env ch (a, d) s1 = Inr s2" and "efold (check_to_satisfy env ch) vs s2 = Inr st'"
    by (rule efold_visit [OF assms(1,3)])
  then obtain used used' where run: "satisfied (ch\<lparr>provided_delay := d\<rparr>) a used = Inr (True, used')"
    by (cases s1) (auto simp: check_to_satisfy_def satisfied_with_delay_def exc_simps)
  have "arrange_ok (ch\<lparr>provided_delay := d\<rparr>)" using assms(2) by (simp add: arrange_ok_def)
  from satisfied_granted [OF this run] show ?thesis .
qed

lemma check_authorization_granted:
  assumes "auth_db_ok db" and "arrange_ok (make_checker env db ks ps delay)"
    and "check_authorization env acts ks ps delay unused sat db = Inr ()"
    and "act \<in> set acts" and "a \<in> set (authorization act)"
  obtains sp dl where "check_special env act (effective_delay env delay) db = Inr (sp, dl)"
    and "a \<notin> set sat \<Longrightarrow> granted (make_checker env db ks ps dl) a"
    and "\<not> sp \<Longrightarrow> \<exists>nm. lookup_minimum_permission (fst a) (act_account act) (act_name act) db = Inr nm \<and>
       (\<forall>n. nm = Some n \<longrightarrow> reaches db a (fst a, n))"
proof -
  let ?d = "effective_delay env delay" and ?ch = "make_checker env db ks ps (effective_delay env delay)"
  obtain m clock st' where m: "efold (check_action env ?d sat db) acts ([], 0) = Inr (m, clock)"
    and run: "efold (check_to_satisfy env ?ch) m (initial_used ?ch, clock) = Inr st'"
    using assms(3) by (auto simp: check_authorization_def Let_def exc_simps)
  have arr: "arrange_ok ?ch" using assms(2) by (simp add: arrange_ok_def make_checker_def)
  have "satisfy_grows ([], 0) (m, clock)" by (rule action_loop_grows [OF m])
  then have okm: "fm_ok m" by (simp add: satisfy_grows_def fm_laws)
  obtain sp dl where sp: "check_special env act ?d db = Inr (sp, dl)"
    and entry: "a \<notin> set sat \<Longrightarrow> \<exists>d' \<le> dl. fm_lookup m a = Some d'"
    and min: "\<not> sp \<Longrightarrow> \<exists>nm. lookup_minimum_permission (fst a) (act_account act) (act_name act) db = Inr nm \<and>
       (\<forall>n. nm = Some n \<longrightarrow> reaches db a (fst a, n))"
    using check_actions_declared [OF m assms(4,5,1)] by (metis fst_conv)
  have "granted (make_checker env db ks ps dl) a" if new: "a \<notin> set sat"
  proof -
    obtain d' where d': "d' \<le> dl" "(a, d') \<in> set m" using entry [OF new] fm_lookup_in_set [OF okm] by auto
    have "granted (?ch\<lparr>provided_delay := d'\<rparr>) a" by (rule check_to_satisfy_granted [OF run arr d'(2)])
    from granted_delay_mono(1) [OF d'(1) this refl] show ?thesis by (simp add: make_checker_delay)
  qed
  then show thesis using that sp min by blast
qed

subsection \<open>Properties\<close>

text \<open>
  A database with one account of three permissions, one of them below \<open>active\<close>, and an action
  linked to it.
\<close>

definition fresh_above :: "(nat \<times> 'v) list \<Rightarrow> nat" where
  "fresh_above t = foldr (\<lambda>(i, _) m. max (Suc i) m) t 0"

lemma fresh_above_greater: "fm_lookup t k \<noteq> None \<Longrightarrow> k < fresh_above t"
  by (induction t) (auto simp: fm_lookup_def fresh_above_def split: if_splits)

definition sample_env :: auth_env where
  "sample_env = \<lparr>pending_block_time = 5, fresh_usage_id = fresh_above, fresh_permission_id = fresh_above,
     max_transaction_delay = 3, max_authority_depth = 6, env_arrange = sort_key meta_key, checktime = (\<lambda>_. Inr ()),
     unpack_updateauth = (\<lambda>_. Inl undefined_behavior), unpack_deleteauth = (\<lambda>_. Inl undefined_behavior),
     unpack_linkauth = (\<lambda>_. Inl undefined_behavior), unpack_unlinkauth = (\<lambda>_. Inl undefined_behavior),
     unpack_canceldelay = (\<lambda>_. Inl undefined_behavior), unpack_transaction = (\<lambda>_. Inl undefined_behavior)\<rparr>"

lemma sample_env_ok: "env_ok sample_env"
proof -
  have "fresh_above ([] :: (nat \<times> permission_object) list) = 0" by (simp add: fresh_above_def)
  then show ?thesis unfolding env_ok_def sample_env_def by (auto intro!: fresh_above_greater)
qed

definition key_authority_of :: "u8 \<Rightarrow> authority" where
  "key_authority_of k = \<lparr>threshold = 1, keys = [\<lparr>kw_key = [k], kw_weight = 1\<rparr>], accounts = [], waits = []\<rparr>"

definition sample_perm :: "nat \<Rightarrow> permission_id_type \<Rightarrow> permission_name \<Rightarrow> u8 \<Rightarrow> permission_object" where
  "sample_perm u parent nm k = \<lparr>po_usage_id = u, po_parent = parent, po_owner = 1, po_name = nm, po_last_updated = 5,
     po_auth = key_authority_of k\<rparr>"

definition sample_auth_db :: auth_db where
  "sample_auth_db = \<lparr>permissions = [(0, \<lparr>po_usage_id = 0, po_parent = 0, po_owner = 0, po_name = 0, po_last_updated = 0,
       po_auth = \<lparr>threshold = 0, keys = [], accounts = [], waits = []\<rparr>\<rparr>),
       (1, sample_perm 0 0 owner_name 1), (2, sample_perm 1 1 active_name 2), (3, sample_perm 2 2 7 3)],
     usages = [(0, 5), (1, 5), (2, 5)], links = [((1, 9, 4), 7)], generated = []\<rparr>"

lemma sample_auth_db_ok: "auth_db_ok sample_auth_db"
proof -
  have names: "owner_name \<noteq> 0" "active_name \<noteq> 0" "owner_name \<noteq> active_name" "owner_name \<noteq> 7" "active_name \<noteq> 7" by code_simp+
  have "hierarchy_ok (permissions sample_auth_db)"
    using names unfolding hierarchy_ok_def
    by (auto simp: sample_auth_db_def fm_ok_def fm_lookup_def sample_perm_def split: if_splits)
  then show ?thesis
    by (auto simp: auth_db_ok_def usages_ok_def sample_auth_db_def fm_ok_def fm_lookup_def sample_perm_def split: if_splits)
qed

text \<open>
  C31: on a well-formed table the walk of \<open>satisfies\<close> always ends and decides the hierarchy: a
  permission satisfies another exactly when both belong to one account and it is the other or one
  of the other's ancestors.
\<close>

theorem satisfies_decides:
  assumes "hierarchy_ok t" and "fm_lookup t i = Some p" and "fm_lookup t j = Some q"
  shows "satisfies t (i, p) (j, q) = Inr (po_owner p = po_owner q \<and> (j, i) \<in> (parent_rel t)\<^sup>*)"
  by (rule satisfies_spec [OF assms])

theorem satisfies_decides_witness:
  "satisfies (permissions sample_auth_db) (1, sample_perm 0 0 owner_name 1) (3, sample_perm 2 2 7 3) = Inr True \<and>
   (3, 1) \<in> (parent_rel (permissions sample_auth_db))\<^sup>*"
proof -
  have "satisfies (permissions sample_auth_db) (1, sample_perm 0 0 owner_name 1) (3, sample_perm 2 2 7 3) = Inr True"
    by code_simp
  moreover have "fm_lookup (permissions sample_auth_db) 1 = Some (sample_perm 0 0 owner_name 1)"
    "fm_lookup (permissions sample_auth_db) 3 = Some (sample_perm 2 2 7 3)"
    by (simp_all add: sample_auth_db_def fm_lookup_def)
  ultimately show ?thesis
    using satisfies_decides [OF auth_db_okD(1) [OF sample_auth_db_ok], of 1 "sample_perm 0 0 owner_name 1" 3 "sample_perm 2 2 7 3"]
    by simp
qed

text \<open>
  C2: a transaction whose check succeeds is authorized. For every authorization an action declares:
  unless it was satisfied before, the permission is granted by the provided keys and permissions
  under a delay that is at least the one provided; and for an action that is not one of the native
  permission actions the declared permission is, or is an ancestor of, the least permission linked
  to the action, \<open>active\<close> by default, unless the action is linked to no permission at all.
\<close>

theorem check_authorization_sound:
  assumes "auth_db_ok db" and "arrange_ok (make_checker env db ks ps delay)"
    and "check_authorization env acts ks ps delay unused sat db = Inr ()"
    and "act \<in> set acts" and "a \<in> set (authorization act)"
  shows "\<exists>sp dl. check_special env act (effective_delay env delay) db = Inr (sp, dl) \<and> effective_delay env delay \<le> dl \<and>
    (a \<notin> set sat \<longrightarrow> granted (make_checker env db ks ps dl) a) \<and>
    (\<not> sp \<longrightarrow> (\<exists>nm. lookup_minimum_permission (fst a) (act_account act) (act_name act) db = Inr nm \<and>
       (\<forall>n. nm = Some n \<longrightarrow> reaches db a (fst a, n))))"
  using check_authorization_granted [OF assms] check_special_delay by metis

theorem check_authorization_sound_witness:
  "check_authorization sample_env [\<lparr>act_account = 9, act_name = 4, authorization = [(1, active_name)], act_data = []\<rparr>]
     [[2]] [] 0 False [] sample_auth_db = Inr () \<and>
   granted (make_checker sample_env sample_auth_db [[2]] [] 0) (1, active_name) \<and> reaches sample_auth_db (1, active_name) (1, 7)"
proof -
  let ?act = "\<lparr>act_account = 9, act_name = 4, authorization = [(1, active_name)], act_data = []\<rparr> :: action"
  have run: "check_authorization sample_env [?act] [[2]] [] 0 False [] sample_auth_db = Inr ()" by code_simp
  have arr: "arrange_ok (make_checker sample_env sample_auth_db [[2]] [] 0)"
    by (rule sort_meta_ok) (simp add: make_checker_def sample_env_def)
  have sp: "check_special sample_env ?act (effective_delay sample_env 0) sample_auth_db = Inr (False, 0)" by code_simp
  have "lookup_minimum_permission 1 9 4 sample_auth_db = Inr (Some 7)" by code_simp
  then show ?thesis
    using check_authorization_sound [OF sample_auth_db_ok arr run, of ?act "(1, active_name)"] run unfolding sp by auto
qed

end
