(* ===== verification/Transaction.thy ===== *)
theory Transaction
  imports Authorization
begin

text \<open>
  Transactions: \<open>transaction.hpp\<close> and \<open>transaction.cpp\<close>. The header with its reference block, the
  recovery of the signing keys with the cache in front of it, and packed transactions with their
  optional compression and the cached unpacked form. Serialisation, hashing, key recovery and the
  compression library are parameters. The lemmas show when the cache of recovered keys is
  transparent, that packing is inverted by unpacking, and where stale values come from.
\<close>

subsection \<open>Transactions\<close>

record transaction_header =
  expiration :: u32
  ref_block_num :: u16
  ref_block_prefix :: u32
  max_net_usage_words :: u32
  max_cpu_usage_ms :: u8
  delay_sec :: u32

record transaction = transaction_header +
  context_free_actions :: "action list"
  actions :: "action list"
  transaction_extensions :: "(u16 \<times> u8 list) list"

record signed_transaction = transaction +
  signatures :: "signature_type list"
  context_free_data :: "u8 list list"

definition get_ref_blocknum :: "'a transaction_header_scheme \<Rightarrow> u32 \<Rightarrow> u32" where
  "get_ref_blocknum h head_blocknum = (head_blocknum div 0xffff) * 0xffff + head_blocknum mod 0xffff"

definition set_reference_block :: "crypto \<Rightarrow> block_id_type \<Rightarrow> 'a transaction_header_scheme \<Rightarrow> 'a transaction_header_scheme" where
  "set_reference_block cr reference_block h =
     h\<lparr>ref_block_num := ucast (endian_reverse_u32 cr (ucast (hash0 reference_block))),
       ref_block_prefix := ucast (hash1 reference_block)\<rparr>"

definition verify_reference_block :: "crypto \<Rightarrow> block_id_type \<Rightarrow> 'a transaction_header_scheme \<Rightarrow> bool" where
  "verify_reference_block cr reference_block h \<longleftrightarrow>
     ref_block_num h = ucast (endian_reverse_u32 cr (ucast (hash0 reference_block))) \<and>
     ref_block_prefix h = ucast (hash1 reference_block)"

definition header_validate :: "'a transaction_header_scheme \<Rightarrow> unit result" where
  "header_validate h =
     EOS_ASSERT ((ucast (max_net_usage_words h) :: u64) < 0xffffffff div 8) transaction_exception (Inr ())"

definition total_actions :: "'a transaction_scheme \<Rightarrow> u32" where
  "total_actions t = of_nat (length (context_free_actions t) + length (actions t))"

definition first_authorizor :: "'a transaction_scheme \<Rightarrow> account_name" where
  "first_authorizor t = (case concat (map authorization (actions t)) of [] \<Rightarrow> 0 | u # _ \<Rightarrow> fst u)"

subsection \<open>Signing keys\<close>

text \<open>What the serialisation, hashing and compression libraries provide for transactions.\<close>

record trx_codec =
  trx_id :: "transaction \<Rightarrow> transaction_id_type"
  hash_signing :: "digest_type \<Rightarrow> transaction \<Rightarrow> digest_type \<Rightarrow> digest_type"
  hash_context_free :: "u8 list list \<Rightarrow> digest_type"
  pack_transaction :: "transaction \<Rightarrow> u8 list"
  fc_unpack_transaction :: "u8 list \<Rightarrow> transaction result"
  pack_bytes_vector :: "u8 list list \<Rightarrow> u8 list"
  unpack_bytes_vector :: "u8 list \<Rightarrow> u8 list list result"
  pack_size_signatures :: "signature_type list \<Rightarrow> nat"
  zlib_inflate :: "u8 list \<Rightarrow> u8 list list result"
  zlib_deflate :: "u8 list \<Rightarrow> u8 list"
  hash_packed :: "signature_type list \<Rightarrow> u8 list \<Rightarrow> u8 \<Rightarrow> u8 list \<Rightarrow> digest_type"

definition transaction_of :: "'a transaction_scheme \<Rightarrow> transaction" where
  "transaction_of t = transaction.truncate t"

definition trx_sig_digest :: "crypto \<Rightarrow> trx_codec \<Rightarrow> transaction \<Rightarrow> digest_type \<Rightarrow> u8 list list \<Rightarrow> digest_type" where
  "trx_sig_digest cr codec t chain_id cfd =
     hash_signing codec chain_id t (if cfd \<noteq> [] then hash_context_free codec cfd else null_digest cr)"

record cached_pub_key =
  ck_trx_id :: transaction_id_type
  ck_pub_key :: public_key_type
  ck_sig :: signature_type

type_synonym recovery_cache_type = "cached_pub_key list"

definition cache_emplace_back :: "cached_pub_key \<Rightarrow> recovery_cache_type \<Rightarrow> recovery_cache_type" where
  "cache_emplace_back e cache = (if list_ex (\<lambda>c. ck_sig c = ck_sig e) cache then cache else cache @ [e])"

definition recovery_cache_size :: nat where
  "recovery_cache_size = 1000"

fun flat_set_insert :: "('k \<Rightarrow> 'k \<Rightarrow> bool) \<Rightarrow> 'k \<Rightarrow> 'k list \<Rightarrow> 'k list \<times> bool" where
  "flat_set_insert key_less k [] = ([k], True)"
| "flat_set_insert key_less k (x # xs) =
     (if key_less x k then let (ys, ins) = flat_set_insert key_less k xs in (x # ys, ins)
      else if key_less k x then (k # x # xs, True)
      else (x # xs, False))"

definition recover_cached ::
  "crypto \<Rightarrow> transaction_id_type \<Rightarrow> digest_type \<Rightarrow> bool \<Rightarrow> signature_type \<Rightarrow> recovery_cache_type \<Rightarrow>
   public_key_type result \<times> recovery_cache_type" where
  "recover_cached cr i digest use_cache sig cache =
     (if use_cache then
        case find (\<lambda>c. ck_sig c = sig) cache of
          Some it \<Rightarrow>
            if ck_trx_id it \<noteq> i then
              (recover_key cr sig digest None,
               case recover_key cr sig digest None of
                 Inl _ \<Rightarrow> cache
               | Inr recov \<Rightarrow> cache_emplace_back \<lparr>ck_trx_id = i, ck_pub_key = recov, ck_sig = sig\<rparr> cache)
            else (Inr (ck_pub_key it), cache)
        | None \<Rightarrow>
            (recover_key cr sig digest None,
             case recover_key cr sig digest None of
               Inl _ \<Rightarrow> cache
             | Inr recov \<Rightarrow> cache_emplace_back \<lparr>ck_trx_id = i, ck_pub_key = recov, ck_sig = sig\<rparr> cache)
      else (recover_key cr sig digest None, cache))"

fun signature_keys_loop ::
  "crypto \<Rightarrow> (public_key_type \<Rightarrow> public_key_type \<Rightarrow> bool) \<Rightarrow> transaction_id_type \<Rightarrow> digest_type \<Rightarrow> bool \<Rightarrow> bool \<Rightarrow>
   signature_type list \<Rightarrow> public_key_type list \<Rightarrow> recovery_cache_type \<Rightarrow>
   public_key_type list result \<times> recovery_cache_type" where
  "signature_keys_loop cr key_less i digest allow_dup use_cache [] recovered cache = (Inr recovered, cache)"
| "signature_keys_loop cr key_less i digest allow_dup use_cache (sig # sigs) recovered cache =
     (case recover_cached cr i digest use_cache sig cache of
        (Inl e, cache) \<Rightarrow> (Inl e, cache)
      | (Inr recov, cache) \<Rightarrow>
          let (recovered, successful_insertion) = flat_set_insert key_less recov recovered in
          if allow_dup \<or> successful_insertion
          then signature_keys_loop cr key_less i digest allow_dup use_cache sigs recovered cache
          else (Inl tx_duplicate_sig, cache))"

definition get_signature_keys ::
  "crypto \<Rightarrow> trx_codec \<Rightarrow> (public_key_type \<Rightarrow> public_key_type \<Rightarrow> bool) \<Rightarrow> transaction \<Rightarrow> signature_type list \<Rightarrow>
   digest_type \<Rightarrow> u8 list list \<Rightarrow> bool \<Rightarrow> bool \<Rightarrow> recovery_cache_type \<Rightarrow> public_key_type list result \<times> recovery_cache_type" where
  "get_signature_keys cr codec key_less t sigs chain_id cfd allow_dup use_cache cache =
     (case signature_keys_loop cr key_less (trx_id codec t) (trx_sig_digest cr codec t chain_id cfd) allow_dup use_cache sigs [] cache of
        (Inl e, cache) \<Rightarrow> (Inl e, cache)
      | (Inr recovered, cache) \<Rightarrow>
          (Inr recovered, if use_cache then drop (length cache - recovery_cache_size) cache else cache))"

definition signed_get_signature_keys ::
  "crypto \<Rightarrow> trx_codec \<Rightarrow> (public_key_type \<Rightarrow> public_key_type \<Rightarrow> bool) \<Rightarrow> signed_transaction \<Rightarrow>
   digest_type \<Rightarrow> bool \<Rightarrow> bool \<Rightarrow> recovery_cache_type \<Rightarrow> public_key_type list result \<times> recovery_cache_type" where
  "signed_get_signature_keys cr codec key_less t chain_id allow_dup use_cache cache =
     get_signature_keys cr codec key_less (transaction_of t) (signatures t) chain_id (context_free_data t) allow_dup use_cache cache"

definition trx_sign ::
  "crypto \<Rightarrow> trx_codec \<Rightarrow> (digest_type \<Rightarrow> signature_type) \<Rightarrow> digest_type \<Rightarrow> signed_transaction \<Rightarrow> signed_transaction \<times> signature_type" where
  "trx_sign cr codec key_sign chain_id t =
     (let s = key_sign (trx_sig_digest cr codec (transaction_of t) chain_id (context_free_data t))
      in (t\<lparr>signatures := signatures t @ [s]\<rparr>, s))"

subsection \<open>Packed transactions\<close>

record packed_transaction =
  pt_signatures :: "signature_type list"
  compression :: u8
  packed_context_free_data :: "u8 list"
  packed_trx :: "u8 list"
  unpacked_trx :: "transaction option"

definition fixed_net_overhead_of_packed_trx :: u64 where
  "fixed_net_overhead_of_packed_trx = 16"

definition get_unprunable_size :: "packed_transaction \<Rightarrow> u32 result" where
  "get_unprunable_size p =
     (let size = fixed_net_overhead_of_packed_trx + of_nat (length (packed_trx p))
      in EOS_ASSERT (size \<le> 0xffffffff) tx_too_big (Inr (ucast size)))"

definition get_prunable_size :: "trx_codec \<Rightarrow> packed_transaction \<Rightarrow> u32 result" where
  "get_prunable_size codec p =
     (let size = of_nat (pack_size_signatures codec (pt_signatures p)) + of_nat (length (packed_context_free_data p)) :: u64
      in EOS_ASSERT (size \<le> 0xffffffff) tx_too_big (Inr (ucast size)))"

definition packed_digest :: "trx_codec \<Rightarrow> packed_transaction \<Rightarrow> digest_type" where
  "packed_digest codec p = hash_packed codec (pt_signatures p) (packed_context_free_data p) (compression p) (packed_trx p)"

definition read_limit :: u64 where
  "read_limit = 1 * 1024 * 1024"

definition read_limiter_write :: "u8 list \<Rightarrow> u64 \<times> u8 list \<Rightarrow> (u64 \<times> u8 list) result" where
  "read_limiter_write chunk st =
     (let (tot, sink) = st in
      EOS_ASSERT (tot + of_nat (length chunk) \<le> read_limit) tx_decompression_error
      (Inr (tot + of_nat (length chunk), sink @ chunk)))"

definition zlib_decompress :: "trx_codec \<Rightarrow> u8 list \<Rightarrow> u8 list result" where
  "zlib_decompress codec data =
     ebind (zlib_inflate codec data) (\<lambda>chunks.
     ebind (efold read_limiter_write chunks (0, [])) (\<lambda>(tot, out). Inr out))"

definition unpack_context_free_data :: "trx_codec \<Rightarrow> u8 list \<Rightarrow> u8 list list result" where
  "unpack_context_free_data codec data = (if data = [] then Inr [] else unpack_bytes_vector codec data)"

definition zlib_decompress_context_free_data :: "trx_codec \<Rightarrow> u8 list \<Rightarrow> u8 list list result" where
  "zlib_decompress_context_free_data codec data =
     (if data = [] then Inr [] else ebind (zlib_decompress codec data) (unpack_context_free_data codec))"

definition zlib_decompress_transaction :: "trx_codec \<Rightarrow> u8 list \<Rightarrow> transaction result" where
  "zlib_decompress_transaction codec data = ebind (zlib_decompress codec data) (fc_unpack_transaction codec)"

definition pack_context_free_data :: "trx_codec \<Rightarrow> u8 list list \<Rightarrow> u8 list" where
  "pack_context_free_data codec cfd = (if cfd = [] then [] else pack_bytes_vector codec cfd)"

definition zlib_compress_context_free_data :: "trx_codec \<Rightarrow> u8 list list \<Rightarrow> u8 list" where
  "zlib_compress_context_free_data codec cfd =
     (if cfd = [] then [] else zlib_deflate codec (pack_context_free_data codec cfd))"

definition zlib_compress_transaction :: "trx_codec \<Rightarrow> transaction \<Rightarrow> u8 list" where
  "zlib_compress_transaction codec t = zlib_deflate codec (pack_transaction codec t)"

definition get_raw_transaction :: "trx_codec \<Rightarrow> packed_transaction \<Rightarrow> u8 list result" where
  "get_raw_transaction codec p =
     (if compression p = 0 then Inr (packed_trx p)
      else if compression p = 1 then zlib_decompress codec (packed_trx p)
      else Inl unknown_transaction_compression)"

definition get_context_free_data :: "trx_codec \<Rightarrow> packed_transaction \<Rightarrow> u8 list list result" where
  "get_context_free_data codec p =
     (if compression p = 0 then unpack_context_free_data codec (packed_context_free_data p)
      else if compression p = 1 then zlib_decompress_context_free_data codec (packed_context_free_data p)
      else Inl unknown_transaction_compression)"

definition local_unpack :: "trx_codec \<Rightarrow> packed_transaction \<Rightarrow> packed_transaction result" where
  "local_unpack codec p =
     (if unpacked_trx p = None then
        ebind (if compression p = 0 then fc_unpack_transaction codec (packed_trx p)
               else if compression p = 1 then zlib_decompress_transaction codec (packed_trx p)
               else Inl unknown_transaction_compression) (\<lambda>t.
        Inr (p\<lparr>unpacked_trx := Some t\<rparr>))
      else Inr p)"

definition get_transaction :: "trx_codec \<Rightarrow> packed_transaction \<Rightarrow> (transaction \<times> packed_transaction) result" where
  "get_transaction codec p = ebind (local_unpack codec p) (\<lambda>p. Inr (the (unpacked_trx p), p))"

definition packed_expiration :: "trx_codec \<Rightarrow> packed_transaction \<Rightarrow> (u32 \<times> packed_transaction) result" where
  "packed_expiration codec p = ebind (local_unpack codec p) (\<lambda>p. Inr (expiration (the (unpacked_trx p)), p))"

definition packed_id :: "trx_codec \<Rightarrow> packed_transaction \<Rightarrow> (transaction_id_type \<times> packed_transaction) result" where
  "packed_id codec p =
     ebind (local_unpack codec p) (\<lambda>p. ebind (get_transaction codec p) (\<lambda>(t, p). Inr (trx_id codec t, p)))"

definition get_uncached_id :: "trx_codec \<Rightarrow> packed_transaction \<Rightarrow> transaction_id_type result" where
  "get_uncached_id codec p =
     ebind (get_raw_transaction codec p) (\<lambda>raw. ebind (fc_unpack_transaction codec raw) (\<lambda>t. Inr (trx_id codec t)))"

definition make_signed :: "transaction \<Rightarrow> signature_type list \<Rightarrow> u8 list list \<Rightarrow> signed_transaction" where
  "make_signed t sigs cfd = transaction.extend t \<lparr>signatures = sigs, context_free_data = cfd\<rparr>"

definition get_signed_transaction :: "trx_codec \<Rightarrow> packed_transaction \<Rightarrow> (signed_transaction \<times> packed_transaction) result" where
  "get_signed_transaction codec p =
     (if compression p = 0 then
        ebind (get_transaction codec p) (\<lambda>(t, p).
        ebind (unpack_context_free_data codec (packed_context_free_data p)) (\<lambda>cfd.
        Inr (make_signed t (pt_signatures p) cfd, p)))
      else if compression p = 1 then
        ebind (get_transaction codec p) (\<lambda>(t, p).
        ebind (zlib_decompress_context_free_data codec (packed_context_free_data p)) (\<lambda>cfd.
        Inr (make_signed t (pt_signatures p) cfd, p)))
      else Inl unknown_transaction_compression)"

definition set_transaction :: "trx_codec \<Rightarrow> transaction \<Rightarrow> u8 \<Rightarrow> packed_transaction \<Rightarrow> packed_transaction result" where
  "set_transaction codec t cmode p =
     ebind (if cmode = 0 then Inr (pack_transaction codec t)
            else if cmode = 1 then Inr (zlib_compress_transaction codec t)
            else Inl unknown_transaction_compression) (\<lambda>bs.
     Inr (p\<lparr>packed_trx := bs, packed_context_free_data := [], compression := cmode\<rparr>))"

definition set_transaction_cfd ::
  "trx_codec \<Rightarrow> transaction \<Rightarrow> u8 list list \<Rightarrow> u8 \<Rightarrow> packed_transaction \<Rightarrow> packed_transaction result" where
  "set_transaction_cfd codec t cfd cmode p =
     ebind (if cmode = 0 then Inr (pack_transaction codec t, pack_context_free_data codec cfd)
            else if cmode = 1 then Inr (zlib_compress_transaction codec t, zlib_compress_context_free_data codec cfd)
            else Inl unknown_transaction_compression) (\<lambda>(bs, cs).
     Inr (p\<lparr>packed_trx := bs, packed_context_free_data := cs, compression := cmode\<rparr>))"

definition empty_packed :: packed_transaction where
  "empty_packed = \<lparr>pt_signatures = [], compression = 0, packed_context_free_data = [], packed_trx = [], unpacked_trx = None\<rparr>"

definition make_packed :: "trx_codec \<Rightarrow> signed_transaction \<Rightarrow> u8 \<Rightarrow> packed_transaction result" where
  "make_packed codec t cmode =
     set_transaction_cfd codec (transaction_of t) (context_free_data t) cmode (empty_packed\<lparr>pt_signatures := signatures t\<rparr>)"

subsection \<open>Headers\<close>

lemma get_ref_blocknum_identity: "get_ref_blocknum h n = n"
  unfolding get_ref_blocknum_def by (rule div_mult_mod_eq)

lemma reference_block_verified: "verify_reference_block cr b (set_reference_block cr b h)"
  by (simp add: verify_reference_block_def set_reference_block_def)

lemma header_validate_expands:
  assumes "header_validate h = Inr ()"
  shows "unat (max_net_usage_words h) * 8 < 2 ^ 32"
proof -
  have "(ucast (max_net_usage_words h) :: u64) < 536870911"
    using assms by (simp add: header_validate_def exc_simps)
  then have "unat (ucast (max_net_usage_words h) :: u64) < unat (536870911 :: u64)" by (simp only: word_less_nat_alt)
  then show ?thesis by simp
qed

lemma first_authorizor_in:
  assumes "a \<in> set (actions t)" and "authorization a \<noteq> []"
  shows "\<exists>b \<in> set (actions t). \<exists>u \<in> set (authorization b). first_authorizor t = fst u"
proof -
  have "concat (map authorization (actions t)) \<noteq> []" using assms by auto
  then obtain u us where u: "concat (map authorization (actions t)) = u # us" by (meson neq_Nil_conv)
  have "u \<in> set (concat (map authorization (actions t)))" unfolding u by simp
  then obtain b where "b \<in> set (actions t)" "u \<in> set (authorization b)" by auto
  then show ?thesis unfolding first_authorizor_def u by auto
qed

subsection \<open>The cache of recovered keys\<close>

text \<open>The cache is consistent for a transaction and a digest: its keys for it are the recovered ones.\<close>

definition cache_ok :: "crypto \<Rightarrow> transaction_id_type \<Rightarrow> digest_type \<Rightarrow> recovery_cache_type \<Rightarrow> bool" where
  "cache_ok cr i digest cache \<longleftrightarrow>
     (\<forall>c \<in> set cache. ck_trx_id c = i \<longrightarrow> recover_key cr (ck_sig c) digest None = Inr (ck_pub_key c))"

lemma recover_cached_ok:
  assumes "cache_ok cr i digest cache" and "recover_cached cr i digest use_cache sig cache = (r, cache')"
  shows "r = recover_key cr sig digest None" and "cache_ok cr i digest cache'"
proof -
  have emplace: "cache_ok cr i digest (cache_emplace_back \<lparr>ck_trx_id = i, ck_pub_key = k, ck_sig = sig\<rparr> cache)"
    if "recover_key cr sig digest None = Inr k" for k
    using assms(1) that by (auto simp: cache_ok_def cache_emplace_back_def)
  have found: "recover_key cr sig digest None = Inr (ck_pub_key it)"
    if "find (\<lambda>c. ck_sig c = sig) cache = Some it" "ck_trx_id it = i" for it
  proof -
    have "it \<in> set cache" "ck_sig it = sig" using that(1) by (auto simp: find_Some_iff)
    then show ?thesis using assms(1) that(2) by (auto simp: cache_ok_def)
  qed
  show "r = recover_key cr sig digest None" and "cache_ok cr i digest cache'"
    using assms emplace found
    by (auto simp: recover_cached_def split: if_splits option.splits sum.splits)
qed

lemma keys_loop_agree:
  assumes "cache_ok cr i digest cache"
  shows "fst (signature_keys_loop cr key_less i digest dup use_cache sigs ks cache) =
      fst (signature_keys_loop cr key_less i digest dup False sigs ks []) \<and>
    cache_ok cr i digest (snd (signature_keys_loop cr key_less i digest dup use_cache sigs ks cache))"
  using assms
proof (induction sigs arbitrary: ks cache)
  case (Cons sig sigs)
  obtain r cache' where rc: "recover_cached cr i digest use_cache sig cache = (r, cache')" by fastforce
  note ok = recover_cached_ok [OF Cons.prems rc]
  have plain: "recover_cached cr i digest False sig [] = (recover_key cr sig digest None, [])" by (simp add: recover_cached_def)
  show ?case using Cons.IH [OF ok(2)] ok by (auto simp: rc plain split: sum.splits prod.splits)
qed simp

subsection \<open>Packing\<close>

text \<open>What the libraries promise: unpacking inverts packing and inflating inverts deflating.\<close>

definition codec_ok :: "trx_codec \<Rightarrow> signed_transaction \<Rightarrow> bool" where
  "codec_ok codec t \<longleftrightarrow>
     fc_unpack_transaction codec (pack_transaction codec (transaction_of t)) = Inr (transaction_of t) \<and>
     unpack_bytes_vector codec (pack_bytes_vector codec (context_free_data t)) = Inr (context_free_data t) \<and>
     pack_bytes_vector codec (context_free_data t) \<noteq> [] \<and> (\<forall>b. zlib_deflate codec b \<noteq> []) \<and>
     (\<forall>b. \<exists>chunks. zlib_inflate codec (zlib_deflate codec b) = Inr chunks \<and> concat chunks = b)"

lemma read_limiter_run:
  assumes "length sink + length (concat chunks) < 2 ^ 64" and "length sink \<le> unat read_limit"
  shows "efold read_limiter_write chunks (of_nat (length sink), sink) =
    (if length sink + length (concat chunks) \<le> unat read_limit
     then Inr (of_nat (length sink + length (concat chunks)), sink @ concat chunks) else Inl tx_decompression_error)"
  using assms
proof (induction chunks arbitrary: sink)
  case (Cons c cs)
  have sum: "unat (of_nat (length sink) + of_nat (length c) :: u64) = length sink + length c"
    using Cons.prems(1) by (simp add: unsigned_of_nat take_bit_nat_eq_self flip: of_nat_add)
  have le: "(of_nat (length sink) + of_nat (length c) :: u64) \<le> read_limit \<longleftrightarrow> length sink + length c \<le> unat read_limit"
    by (simp only: word_le_nat_alt sum)
  show ?case
  proof (cases "length sink + length c \<le> unat read_limit")
    case True
    have "efold read_limiter_write cs (of_nat (length (sink @ c)), sink @ c) =
      (if length (sink @ c) + length (concat cs) \<le> unat read_limit
       then Inr (of_nat (length (sink @ c) + length (concat cs)), (sink @ c) @ concat cs) else Inl tx_decompression_error)"
      by (rule Cons.IH) (use Cons.prems True in auto)
    moreover have "read_limiter_write c (of_nat (length sink), sink) = Inr (of_nat (length (sink @ c)), sink @ c)"
      using True le by (simp add: read_limiter_write_def)
    ultimately show ?thesis by (simp add: add.assoc)
  next
    case False
    then show ?thesis using le by (simp add: read_limiter_write_def)
  qed
qed simp

lemma zlib_decompress_deflate:
  assumes "codec_ok codec t" and "length b < 2 ^ 64"
  shows "zlib_decompress codec (zlib_deflate codec b) = (if length b \<le> unat read_limit then Inr b else Inl tx_decompression_error)"
proof -
  obtain chunks where chunks: "zlib_inflate codec (zlib_deflate codec b) = Inr chunks" "concat chunks = b"
    using assms(1) unfolding codec_ok_def by blast
  have "efold read_limiter_write chunks (0, []) =
      (if length b \<le> unat read_limit then Inr (of_nat (length b), b) else Inl tx_decompression_error)"
    using read_limiter_run [of "[]" chunks] assms(2) chunks(2) by simp
  then show ?thesis by (simp add: zlib_decompress_def chunks(1))
qed

lemma make_signed_of: "make_signed (transaction_of t) (signatures t) (context_free_data t) = t"
  by (cases t) (simp add: make_signed_def transaction_of_def transaction.truncate_def transaction.extend_def)

lemma get_signed_uncompressed:
  assumes "codec_ok codec t" and "make_packed codec t 0 = Inr p"
  shows "\<exists>p'. get_signed_transaction codec p = Inr (t, p')"
proof -
  have "make_packed codec t 0 = Inr (empty_packed\<lparr>pt_signatures := signatures t, packed_trx := pack_transaction codec (transaction_of t),
      packed_context_free_data := pack_context_free_data codec (context_free_data t), compression := 0\<rparr>)"
    by (simp add: make_packed_def set_transaction_cfd_def)
  then have p: "p = empty_packed\<lparr>pt_signatures := signatures t, packed_trx := pack_transaction codec (transaction_of t),
      packed_context_free_data := pack_context_free_data codec (context_free_data t), compression := 0\<rparr>"
    using assms(2) by simp
  have "unpack_context_free_data codec (pack_context_free_data codec (context_free_data t)) = Inr (context_free_data t)"
    using assms(1) by (simp add: codec_ok_def unpack_context_free_data_def pack_context_free_data_def)
  moreover have "fc_unpack_transaction codec (pack_transaction codec (transaction_of t)) = Inr (transaction_of t)"
    using assms(1) by (simp add: codec_ok_def)
  ultimately show ?thesis
    by (simp add: p get_signed_transaction_def get_transaction_def local_unpack_def empty_packed_def make_signed_of)
qed

lemma get_signed_compressed:
  assumes "codec_ok codec t" and "make_packed codec t 1 = Inr p"
    and "length (pack_transaction codec (transaction_of t)) \<le> unat read_limit"
    and "length (pack_bytes_vector codec (context_free_data t)) \<le> unat read_limit"
  shows "\<exists>p'. get_signed_transaction codec p = Inr (t, p')"
proof -
  have lim: "unat read_limit < 2 ^ 64" by (rule unat_u64_bound)
  have "make_packed codec t 1 = Inr (empty_packed\<lparr>pt_signatures := signatures t, packed_trx := zlib_compress_transaction codec (transaction_of t),
      packed_context_free_data := zlib_compress_context_free_data codec (context_free_data t), compression := 1\<rparr>)"
    by (simp add: make_packed_def set_transaction_cfd_def)
  then have p: "p = empty_packed\<lparr>pt_signatures := signatures t, packed_trx := zlib_compress_transaction codec (transaction_of t),
      packed_context_free_data := zlib_compress_context_free_data codec (context_free_data t), compression := 1\<rparr>"
    using assms(2) by simp
  have "zlib_decompress codec (zlib_deflate codec (pack_transaction codec (transaction_of t))) =
      Inr (pack_transaction codec (transaction_of t))"
    using zlib_decompress_deflate [OF assms(1)] assms(3) lim by simp
  then have "zlib_decompress_transaction codec (zlib_compress_transaction codec (transaction_of t)) = Inr (transaction_of t)"
    using assms(1) by (simp add: codec_ok_def zlib_decompress_transaction_def zlib_compress_transaction_def)
  moreover have "zlib_decompress codec (zlib_deflate codec (pack_bytes_vector codec (context_free_data t))) =
      Inr (pack_bytes_vector codec (context_free_data t))"
    using zlib_decompress_deflate [OF assms(1)] assms(4) lim by simp
  then have "zlib_decompress_context_free_data codec (zlib_compress_context_free_data codec (context_free_data t)) =
      Inr (context_free_data t)"
    using assms(1) by (simp add: codec_ok_def zlib_decompress_context_free_data_def zlib_compress_context_free_data_def
        unpack_context_free_data_def pack_context_free_data_def)
  ultimately show ?thesis
    by (simp add: p get_signed_transaction_def get_transaction_def local_unpack_def empty_packed_def make_signed_of)
qed


lemma make_packed_uncached_id:
  assumes "codec_ok codec t" and "make_packed codec t c = Inr p"
    and "c = 1 \<Longrightarrow> length (pack_transaction codec (transaction_of t)) \<le> unat read_limit"
  shows "get_uncached_id codec p = Inr (trx_id codec (transaction_of t))"
proof -
  have c: "c = 0 \<or> c = 1"
    using assms(2) by (auto simp: make_packed_def set_transaction_cfd_def exc_simps split: if_splits)
  have u: "fc_unpack_transaction codec (pack_transaction codec (transaction_of t)) = Inr (transaction_of t)"
    using assms(1) by (simp add: codec_ok_def)
  have z: "zlib_decompress codec (zlib_deflate codec (pack_transaction codec (transaction_of t))) =
      Inr (pack_transaction codec (transaction_of t))" if "c = 1"
    using zlib_decompress_deflate [OF assms(1)] assms(3) that unat_u64_bound [of read_limit] by simp
  show ?thesis
    using c assms(2) u z
    by (auto simp: make_packed_def set_transaction_cfd_def get_uncached_id_def get_raw_transaction_def zlib_compress_transaction_def)
qed

text \<open>
  The unpacked form outlives the data it was made from: after a transaction was read, a transaction
  that is set later is not the one that is read.
\<close>

lemma stale_unpacked_transaction:
  assumes "unpacked_trx p = Some t0" and "set_transaction codec t c p = Inr p'"
  shows "get_transaction codec p' = Inr (t0, p')"
  using assms by (auto simp: set_transaction_def get_transaction_def local_unpack_def exc_simps)

subsection \<open>Properties\<close>

text \<open>
  C34: the cache in front of key recovery is transparent as long as it is consistent with the digest
  that is signed: the keys of a transaction, and the exceptions for bad and duplicate signatures,
  are those computed without it, and the cache stays consistent.
\<close>

theorem cached_keys_agree:
  assumes "cache_ok cr (trx_id codec t) (trx_sig_digest cr codec t chain_id cfd) cache"
  shows "fst (get_signature_keys cr codec key_less t sigs chain_id cfd dup use_cache cache) =
      fst (get_signature_keys cr codec key_less t sigs chain_id cfd dup False []) \<and>
    cache_ok cr (trx_id codec t) (trx_sig_digest cr codec t chain_id cfd)
      (snd (get_signature_keys cr codec key_less t sigs chain_id cfd dup use_cache cache))"
proof -
  have "cache_ok cr i d (drop n c)" if "cache_ok cr i d c" for i d n c
    using that by (auto simp: cache_ok_def dest: in_set_dropD)
  then show ?thesis
    using keys_loop_agree [OF assms, of key_less dup use_cache sigs "[]"]
    by (auto simp: get_signature_keys_def split: prod.splits sum.splits)
qed

text \<open>A codec and signatures to evaluate with: a signature is the digest it signs and a key.\<close>

definition sample_trx :: transaction where
  "sample_trx = \<lparr>expiration = 100, ref_block_num = 1, ref_block_prefix = 2, max_net_usage_words = 0, max_cpu_usage_ms = 0,
     delay_sec = 0, context_free_actions = [],
     actions = [\<lparr>act_account = 9, act_name = 4, authorization = [(1, active_name)], act_data = []\<rparr>],
     transaction_extensions = []\<rparr>"

definition sample_codec :: trx_codec where
  "sample_codec = \<lparr>trx_id = (\<lambda>t. sample_digest (ucast (expiration t))),
     hash_signing = (\<lambda>c t d. d\<lparr>hash1 := ucast (expiration t)\<rparr>),
     hash_context_free = (\<lambda>v. sample_digest (of_nat (length v))),
     pack_transaction = (\<lambda>t. [ucast (expiration t)]), fc_unpack_transaction = (\<lambda>b. Inr (sample_trx\<lparr>expiration := ucast (b ! 0)\<rparr>)),
     pack_bytes_vector = (\<lambda>v. 1 # concat v), unpack_bytes_vector = (\<lambda>b. Inr [tl b]),
     pack_size_signatures = (\<lambda>s. length s), zlib_inflate = (\<lambda>b. Inr [tl b]), zlib_deflate = (\<lambda>b. 9 # b),
     hash_packed = (\<lambda>s c m b. sample_digest 0)\<rparr>"

definition trx_crypto :: crypto where
  "trx_crypto = sample_crypto\<lparr>recover_key := (\<lambda>s d _. if s \<noteq> [] \<and> ucast (s ! 0) = hash0 d then Inr (tl s) else Inl fc_parse_error_exception)\<rparr>"

theorem cached_keys_agree_witness:
  "fst (get_signature_keys trx_crypto sample_codec (\<lambda>a b. length a < length b) sample_trx [[2, 7], [2, 8, 8]] (sample_digest 5)
     [[1], [2]] False True [\<lparr>ck_trx_id = sample_digest 100, ck_pub_key = [7], ck_sig = [2, 7]\<rparr>]) = Inr [[7], [8, 8]]"
proof -
  have "cache_ok trx_crypto (trx_id sample_codec sample_trx) (trx_sig_digest trx_crypto sample_codec sample_trx (sample_digest 5) [[1], [2]])
      [\<lparr>ck_trx_id = sample_digest 100, ck_pub_key = [7], ck_sig = [2, 7]\<rparr>]"
    unfolding cache_ok_def by code_simp
  from cached_keys_agree [OF this, of "\<lambda>a b. length a < length b" "[[2, 7], [2, 8, 8]]" False True]
  show ?thesis by (auto simp: get_signature_keys_def trx_sig_digest_def sample_codec_def sample_trx_def trx_crypto_def recover_cached_def
      sample_digest_def)
qed

text \<open>
  The digest also covers the context free data, which the identifier of the transaction does not:
  a signature for other context free data is accepted from the cache although recovery fails.
\<close>

lemma stale_key_from_cache:
  "get_signature_keys trx_crypto sample_codec (\<lambda>a b. False) sample_trx [[2, 7]] (sample_digest 5) [[1], [2]] False True [] =
     (Inr [[7]], [\<lparr>ck_trx_id = sample_digest 100, ck_pub_key = [7], ck_sig = [2, 7]\<rparr>])"
  "fst (get_signature_keys trx_crypto sample_codec (\<lambda>a b. False) sample_trx [[2, 7]] (sample_digest 5) [[1]] False False []) =
     Inl fc_parse_error_exception"
  "fst (get_signature_keys trx_crypto sample_codec (\<lambda>a b. False) sample_trx [[2, 7]] (sample_digest 5) [[1]] False True
     [\<lparr>ck_trx_id = sample_digest 100, ck_pub_key = [7], ck_sig = [2, 7]\<rparr>]) = Inr [[7]]"
  by (simp_all add: get_signature_keys_def trx_sig_digest_def sample_codec_def sample_trx_def trx_crypto_def recover_cached_def
      sample_digest_def cache_emplace_back_def recovery_cache_size_def)

text \<open>
  C35: reading back a packed transaction gives the signed transaction it was made from, its
  identifier included, without compression always, and with compression as long as the serialised
  data stays within the limit on decompressed data.
\<close>

theorem packed_transaction_roundtrip:
  assumes "codec_ok codec t" and "make_packed codec t c = Inr p"
    and "c = 1 \<Longrightarrow> length (pack_transaction codec (transaction_of t)) \<le> unat read_limit"
    and "c = 1 \<Longrightarrow> length (pack_bytes_vector codec (context_free_data t)) \<le> unat read_limit"
  shows "(\<exists>p'. get_signed_transaction codec p = Inr (t, p')) \<and> get_uncached_id codec p = Inr (trx_id codec (transaction_of t))"
proof -
  have "c = 0 \<or> c = 1"
    using assms(2) by (auto simp: make_packed_def set_transaction_cfd_def exc_simps split: if_splits)
  then show ?thesis
    using get_signed_uncompressed [OF assms(1)] get_signed_compressed [OF assms(1)] assms(2-4) make_packed_uncached_id [OF assms(1-3)]
    by auto
qed

theorem packed_transaction_roundtrip_witness:
  "\<exists>p p'. make_packed sample_codec (make_signed sample_trx [[2, 7]] [[3]]) 1 = Inr p \<and>
    get_signed_transaction sample_codec p = Inr (make_signed sample_trx [[2, 7]] [[3]], p')"
proof -
  let ?t = "make_signed sample_trx [[2, 7]] [[3]]"
  have t: "transaction_of ?t = sample_trx" "context_free_data ?t = [[3]]"
    by (simp_all add: make_signed_def transaction_of_def transaction.truncate_def transaction.extend_def sample_trx_def)
  have ok: "codec_ok sample_codec ?t"
    by (simp add: codec_ok_def t) (simp add: sample_codec_def sample_trx_def)
  obtain p where p: "make_packed sample_codec ?t 1 = Inr p"
    by (simp add: make_packed_def set_transaction_cfd_def)
  have "\<exists>p'. get_signed_transaction sample_codec p = Inr (?t, p')"
    using packed_transaction_roundtrip [OF ok p] by (simp add: t) (simp add: sample_codec_def read_limit_def)
  then show ?thesis using p by blast
qed

end
