(* ===== verification/Resource_Limits.thy ===== *)
theory Resource_Limits
  imports Flat_Map Names
begin

text \<open>
  Resource accounting: \<open>resource_limits.cpp\<close>, \<open>resource_limits.hpp\<close> and
  \<open>resource_limits_private.hpp\<close>. The database tables are the fields of \<open>resource_db\<close>; the
  limits table is keyed by its unique index (pending flag, owner). Integers keep their widths:
  64-bit usage counters and weights, 32-bit ordinals and windows, 128-bit intermediate products.
\<close>

subsection \<open>Ratios and casts\<close>

record ratio =
  numerator :: u64
  denominator :: u64

definition make_ratio :: "u64 \<Rightarrow> u64 \<Rightarrow> ratio" where
  "make_ratio n d = \<lparr>numerator = n, denominator = d\<rparr>"

definition mult_ratio :: "u64 \<Rightarrow> ratio \<Rightarrow> u64 result" where
  "mult_ratio value r =
     EOS_ASSERT (numerator r = 0 \<or> UINT64_MAX div numerator r \<ge> value) rate_limiting_state_inconsistent
       (if denominator r = 0 then Inl undefined_behavior
        else Inr ((value * numerator r) div denominator r))"

definition integer_divide_ceil :: "'a::len word \<Rightarrow> 'a word \<Rightarrow> 'a word result" where
  "integer_divide_ceil num den =
     (if den = 0 then Inl undefined_behavior
      else Inr (num div den + (if num mod den > 0 then 1 else 0)))"

text \<open>
  \<open>downgrade_cast\<close> from \<open>uint128_t\<close>: to \<open>uint64_t\<close> (same signedness) and to \<open>int64_t\<close>
  (different signedness, lower bound 0).
\<close>

definition downgrade_cast_u64 :: "u128 \<Rightarrow> u64 result" where
  "downgrade_cast_u64 val =
     EOS_ASSERT (val \<ge> 0 \<and> val \<le> 0xFFFFFFFFFFFFFFFF) rate_limiting_state_inconsistent
       (Inr (ucast val))"

definition downgrade_cast_i64 :: "u128 \<Rightarrow> i64 result" where
  "downgrade_cast_i64 val =
     EOS_ASSERT (val \<ge> 0 \<and> val \<le> 0x7FFFFFFFFFFFFFFF) rate_limiting_state_inconsistent
       (Inr (ucast val))"

subsection \<open>The moving average\<close>

definition rate_limiting_precision :: u64 where
  "rate_limiting_precision = 1000000"

definition max_raw_value :: u64 where
  "max_raw_value = UINT64_MAX div rate_limiting_precision"

record usage_accumulator =
  last_ordinal :: u32
  value_ex :: u64
  consumed :: u64

definition new_accumulator :: usage_accumulator where
  "new_accumulator = \<lparr>last_ordinal = 0, value_ex = 0, consumed = 0\<rparr>"

definition average :: "usage_accumulator \<Rightarrow> u64" where
  "average a = value_ex a div rate_limiting_precision +
     (if value_ex a mod rate_limiting_precision > 0 then 1 else 0)"

text \<open>
  \<open>acc_decay\<close> is the part of \<open>add\<close> that moves the average on to a new ordinal.
\<close>

definition acc_decay :: "u32 \<Rightarrow> u32 \<Rightarrow> usage_accumulator \<Rightarrow> usage_accumulator result" where
  "acc_decay ordinal window_size a =
     (if last_ordinal a \<noteq> ordinal then
        EOS_ASSERT (ordinal > last_ordinal a) resource_limit_exception
        (ebind
          (if (ucast (last_ordinal a) :: u64) + ucast window_size > ucast ordinal then
             (let delta = ordinal - last_ordinal a;
                  decay = make_ratio (ucast window_size - ucast delta) (ucast window_size)
              in ebind (mult_ratio (value_ex a) decay) (\<lambda>v. Inr (a\<lparr>value_ex := v\<rparr>)))
           else Inr (a\<lparr>value_ex := 0\<rparr>))
          (\<lambda>a'. let a'' = a'\<lparr>last_ordinal := ordinal\<rparr>
                in Inr (a''\<lparr>consumed := average a''\<rparr>)))
      else Inr a)"

definition acc_add :: "u64 \<Rightarrow> u32 \<Rightarrow> u32 \<Rightarrow> usage_accumulator \<Rightarrow> usage_accumulator result" where
  "acc_add units ordinal window_size a =
     EOS_ASSERT (units \<le> max_raw_value) rate_limiting_state_inconsistent
     (EOS_ASSERT (UINT64_MAX - consumed a \<ge> units) rate_limiting_state_inconsistent
     (ebind
       (ebind (integer_divide_ceil (ucast units * ucast rate_limiting_precision :: u128) (ucast window_size))
          downgrade_cast_u64) (\<lambda>value_ex_contrib.
      EOS_ASSERT (UINT64_MAX - value_ex a \<ge> value_ex_contrib) rate_limiting_state_inconsistent
      (ebind (acc_decay ordinal window_size a) (\<lambda>a'.
       Inr (a'\<lparr>consumed := consumed a' + units, value_ex := value_ex a' + value_ex_contrib\<rparr>))))))"

subsection \<open>Tables\<close>

record elastic_limit_parameters =
  target :: u64
  max_usage :: u64
  periods :: u32
  max_multiplier :: u32
  contract_rate :: ratio
  expand_rate :: ratio

record resource_limits_object =
  owner :: account_name
  net_weight :: i64
  cpu_weight :: i64
  ram_bytes :: i64

record resource_usage_object =
  usage_owner :: account_name
  net_usage :: usage_accumulator
  cpu_usage :: usage_accumulator
  ram_usage :: u64

record resource_limits_config_object =
  cpu_limit_parameters :: elastic_limit_parameters
  net_limit_parameters :: elastic_limit_parameters
  account_cpu_usage_average_window :: u32
  account_net_usage_average_window :: u32

record resource_limits_state_object =
  average_block_net_usage :: usage_accumulator
  average_block_cpu_usage :: usage_accumulator
  pending_net_usage :: u64
  pending_cpu_usage :: u64
  total_net_weight :: u64
  total_cpu_weight :: u64
  total_ram_bytes :: u64
  virtual_net_limit :: u64
  virtual_cpu_limit :: u64

record resource_db =
  limits_table :: "(bool \<times> account_name, resource_limits_object) flat_map"
  usage_table :: "(account_name, resource_usage_object) flat_map"
  rl_config :: resource_limits_config_object
  rl_state :: resource_limits_state_object

text \<open>Defaults of the declarations, with the constants of \<open>config.hpp\<close> they are computed from.\<close>

definition EOS_PERCENT :: "u64 \<Rightarrow> u32 \<Rightarrow> u64" where
  "EOS_PERCENT value percentage = (value * ucast percentage) div 10000"

definition default_max_block_cpu_usage :: u64 where
  "default_max_block_cpu_usage = 200000"

definition default_max_block_net_usage :: u64 where
  "default_max_block_net_usage = 1024 * 1024"

definition default_limits_config :: resource_limits_config_object where
  "default_limits_config =
     \<lparr>cpu_limit_parameters =
        \<lparr>target = EOS_PERCENT default_max_block_cpu_usage (10 * 100), max_usage = default_max_block_cpu_usage,
         periods = 60 * 1000 div 500, max_multiplier = 1000,
         contract_rate = make_ratio 99 100, expand_rate = make_ratio 1000 999\<rparr>,
      net_limit_parameters =
        \<lparr>target = EOS_PERCENT default_max_block_net_usage (10 * 100), max_usage = default_max_block_net_usage,
         periods = 60 * 1000 div 500, max_multiplier = 1000,
         contract_rate = make_ratio 99 100, expand_rate = make_ratio 1000 999\<rparr>,
      account_cpu_usage_average_window = 24 * 60 * 60 * 1000 div 500,
      account_net_usage_average_window = 24 * 60 * 60 * 1000 div 500\<rparr>"

definition default_limits_state :: resource_limits_state_object where
  "default_limits_state =
     \<lparr>average_block_net_usage = new_accumulator, average_block_cpu_usage = new_accumulator,
      pending_net_usage = 0, pending_cpu_usage = 0,
      total_net_weight = 0, total_cpu_weight = 0, total_ram_bytes = 0,
      virtual_net_limit = 0, virtual_cpu_limit = 0\<rparr>"

subsection \<open>Elastic block limits\<close>

definition update_elastic_limit :: "u64 \<Rightarrow> u64 \<Rightarrow> elastic_limit_parameters \<Rightarrow> u64 result" where
  "update_elastic_limit current_limit average_usage params =
     ebind (if average_usage > target params then mult_ratio current_limit (contract_rate params)
            else mult_ratio current_limit (expand_rate params))
       (\<lambda>r. Inr (min (max r (max_usage params)) (max_usage params * ucast (max_multiplier params))))"

definition elastic_validate :: "elastic_limit_parameters \<Rightarrow> unit result" where
  "elastic_validate params =
     EOS_ASSERT (periods params > 0) resource_limit_exception
     (EOS_ASSERT (denominator (contract_rate params) > 0) resource_limit_exception
     (EOS_ASSERT (denominator (expand_rate params) > 0) resource_limit_exception (Inr ())))"

definition update_virtual_cpu_limit ::
  "resource_limits_config_object \<Rightarrow> resource_limits_state_object \<Rightarrow> resource_limits_state_object result" where
  "update_virtual_cpu_limit cfg st =
     ebind (update_elastic_limit (virtual_cpu_limit st) (average (average_block_cpu_usage st)) (cpu_limit_parameters cfg))
       (\<lambda>v. Inr (st\<lparr>virtual_cpu_limit := v\<rparr>))"

definition update_virtual_net_limit ::
  "resource_limits_config_object \<Rightarrow> resource_limits_state_object \<Rightarrow> resource_limits_state_object result" where
  "update_virtual_net_limit cfg st =
     ebind (update_elastic_limit (virtual_net_limit st) (average (average_block_net_usage st)) (net_limit_parameters cfg))
       (\<lambda>v. Inr (st\<lparr>virtual_net_limit := v\<rparr>))"

definition initialize_database :: resource_db where
  "initialize_database =
     \<lparr>limits_table = [], usage_table = [], rl_config = default_limits_config,
      rl_state = default_limits_state
        \<lparr>virtual_cpu_limit := max_usage (cpu_limit_parameters default_limits_config),
         virtual_net_limit := max_usage (net_limit_parameters default_limits_config)\<rparr>\<rparr>"

definition initialize_account :: "account_name \<Rightarrow> resource_db \<Rightarrow> resource_db result" where
  "initialize_account account db =
     ebind (db_create (False, account)
              \<lparr>owner = account, net_weight = -1, cpu_weight = -1, ram_bytes = -1\<rparr> (limits_table db)) (\<lambda>lt.
     ebind (db_create account
              \<lparr>usage_owner = account, net_usage = new_accumulator, cpu_usage = new_accumulator, ram_usage = 0\<rparr>
              (usage_table db)) (\<lambda>ut.
     Inr (db\<lparr>limits_table := lt, usage_table := ut\<rparr>)))"

definition set_block_parameters ::
  "elastic_limit_parameters \<Rightarrow> elastic_limit_parameters \<Rightarrow> resource_db \<Rightarrow> resource_db result" where
  "set_block_parameters cpu_params net_params db =
     ebind (elastic_validate cpu_params) (\<lambda>_.
     ebind (elastic_validate net_params) (\<lambda>_.
     Inr (db\<lparr>rl_config := (rl_config db)
       \<lparr>cpu_limit_parameters := cpu_params, net_limit_parameters := net_params\<rparr>\<rparr>)))"

subsection \<open>Account limits\<close>

definition get_account_limits :: "resource_db \<Rightarrow> account_name \<Rightarrow> (i64 \<times> i64 \<times> i64) result" where
  "get_account_limits db account =
     (case fm_lookup (limits_table db) (True, account) of
        Some buo \<Rightarrow> Inr (ram_bytes buo, net_weight buo, cpu_weight buo)
      | None \<Rightarrow>
          ebind (db_get (limits_table db) (False, account))
            (\<lambda>buo. Inr (ram_bytes buo, net_weight buo, cpu_weight buo)))"

definition set_account_limits ::
  "account_name \<Rightarrow> i64 \<Rightarrow> i64 \<Rightarrow> i64 \<Rightarrow> resource_db \<Rightarrow> (bool \<times> resource_db) result" where
  "set_account_limits account new_ram new_net new_cpu db =
     ebind
       (case fm_lookup (limits_table db) (True, account) of
          None \<Rightarrow>
            ebind (db_get (limits_table db) (False, account)) (\<lambda>limits.
              let p = \<lparr>owner = owner limits, net_weight = net_weight limits,
                       cpu_weight = cpu_weight limits, ram_bytes = ram_bytes limits\<rparr>
              in ebind (db_create (True, owner limits) p (limits_table db)) (\<lambda>t. Inr (p, t)))
        | Some p \<Rightarrow> Inr (p, limits_table db))
       (\<lambda>(limits, t).
          let decreased_limit =
                (sint new_ram \<ge> 0 \<and> (sint (ram_bytes limits) < 0 \<or> sint new_ram < sint (ram_bytes limits)));
              limits' = limits\<lparr>ram_bytes := new_ram, net_weight := new_net, cpu_weight := new_cpu\<rparr>
          in Inr (decreased_limit, db\<lparr>limits_table := fm_update (True, owner limits) limits' t\<rparr>))"

text \<open>
  Folding pending limits into the actual ones. \<open>update_state_and_value\<close> takes the old value out
  of the running total and puts the pending one in; negative values mean unlimited and do not
  count. The loop takes the first pending entry of the index until there is none.
\<close>

definition update_state_and_value :: "u64 \<Rightarrow> i64 \<Rightarrow> i64 \<Rightarrow> (u64 \<times> i64) result" where
  "update_state_and_value tot value pending_value =
     ebind (if sint value > 0
            then EOS_ASSERT (tot \<ge> value) rate_limiting_state_inconsistent (Inr (tot - value))
            else Inr tot) (\<lambda>tot'.
     ebind (if sint pending_value > 0
            then EOS_ASSERT (UINT64_MAX - tot' \<ge> pending_value) rate_limiting_state_inconsistent
                   (Inr (tot' + pending_value))
            else Inr tot') (\<lambda>tot''.
     Inr (tot'', pending_value)))"

definition apply_pending_limits ::
  "account_name \<Rightarrow> resource_limits_object \<Rightarrow> resource_db \<Rightarrow> resource_db result" where
  "apply_pending_limits acct p db =
     ebind (db_get (limits_table db) (False, owner p)) (\<lambda>rlo.
     ebind (update_state_and_value (total_ram_bytes (rl_state db)) (ram_bytes rlo) (ram_bytes p)) (\<lambda>(tr, r).
     ebind (update_state_and_value (total_cpu_weight (rl_state db)) (cpu_weight rlo) (cpu_weight p)) (\<lambda>(tc, c).
     ebind (update_state_and_value (total_net_weight (rl_state db)) (net_weight rlo) (net_weight p)) (\<lambda>(tn, n).
     Inr (db\<lparr>rl_state := (rl_state db)\<lparr>total_ram_bytes := tr, total_cpu_weight := tc, total_net_weight := tn\<rparr>,
            limits_table := fm_erase (True, acct)
              (fm_update (False, owner p)
                (rlo\<lparr>ram_bytes := r, cpu_weight := c, net_weight := n\<rparr>) (limits_table db))\<rparr>)))))"

lemma filter_fm_update:
  "\<not> P k \<Longrightarrow> filter (\<lambda>(k, v). P k) (fm_update k v t) = filter (\<lambda>(k, v). P k) t"
  by (induction k v t rule: fm_update.induct) auto

lemma apply_pending_decreases:
  assumes "apply_pending_limits acct p db = Inr db'" and "((True, acct), p) \<in> set (limits_table db)"
  shows "length (filter (\<lambda>(k, v). fst k) (limits_table db')) < length (filter (\<lambda>(k, v). fst k) (limits_table db))"
proof -
  obtain o' v where lt: "limits_table db' = fm_erase (True, acct) (fm_update (False, o') v (limits_table db))"
    using assms(1) by (auto simp: apply_pending_limits_def exc_simps split: prod.splits)
  let ?t = "filter (\<lambda>(k, v). fst k) (limits_table db)"
  have "filter (\<lambda>(k, v). fst k) (limits_table db') = filter (\<lambda>(k, v). k \<noteq> (True, acct)) ?t"
    unfolding lt fm_erase_def
    using filter_fm_update [of "\<lambda>k. fst k \<and> k \<noteq> (True, acct)" "(False, o')" v "limits_table db"]
    by (simp add: case_prod_unfold conj_commute)
  moreover have "length (filter (\<lambda>(k, v). k \<noteq> (True, acct)) ?t) < length ?t"
    using assms(2) by (intro length_filter_less [of "((True, acct), p)"]) auto
  ultimately show ?thesis by simp
qed

function process_account_limit_updates :: "resource_db \<Rightarrow> resource_db result" where
  "process_account_limit_updates db =
     (if limits_table db = [] then Inr db
      else case fm_lower_bound (True, 0) (limits_table db) of
        None \<Rightarrow> Inr db
      | Some ((pending, acct), p) \<Rightarrow>
          if \<not> pending then Inr db
          else ebind (apply_pending_limits acct p db) process_account_limit_updates)"
  by pat_completeness auto
termination
proof (relation "measure (\<lambda>db. length (filter (\<lambda>(k, v). fst k) (limits_table db)))")
  fix db x2 x y xa ya db'
  assume "fm_lower_bound (True, 0) (limits_table db) = Some x2" "(x, y) = x2" "(xa, ya) = x" "\<not> \<not> xa"
    and ap: "apply_pending_limits ya y db = Inr db'"
  then have "((True, ya), y) \<in> set (limits_table db)"
    using fm_lower_bound_Some by fastforce
  from apply_pending_decreases [OF ap this]
  show "(db', db) \<in> measure (\<lambda>db. length (filter (\<lambda>(k, v). fst k) (limits_table db)))" by simp
qed simp

declare process_account_limit_updates.simps [simp del]

subsection \<open>Usage\<close>

definition acc_window_add ::
  "resource_limits_config_object \<Rightarrow> u64 \<Rightarrow> u64 \<Rightarrow> u32 \<Rightarrow> resource_usage_object \<Rightarrow> resource_usage_object result" where
  "acc_window_add cfg net cpu time_slot bu =
     ebind (acc_add net time_slot (account_net_usage_average_window cfg) (net_usage bu)) (\<lambda>n.
     ebind (acc_add cpu time_slot (account_cpu_usage_average_window cfg) (cpu_usage bu)) (\<lambda>c.
     Inr (bu\<lparr>net_usage := n, cpu_usage := c\<rparr>)))"

definition update_account_usage ::
  "account_name list \<Rightarrow> u32 \<Rightarrow> resource_db \<Rightarrow> resource_db result" where
  "update_account_usage accounts time_slot db =
     efold (\<lambda>a db.
       ebind (db_get (usage_table db) a) (\<lambda>usage.
       ebind (acc_window_add (rl_config db) 0 0 time_slot usage) (\<lambda>bu.
       Inr (db\<lparr>usage_table := fm_update a bu (usage_table db)\<rparr>)))) accounts db"

text \<open>
  The rate check of one resource: the capacity of the window shared by weight, in 128-bit
  arithmetic. The weights are converted from 64-bit integers, so the products stay unsigned.
\<close>

definition max_user_use_in_window :: "u64 \<Rightarrow> u32 \<Rightarrow> i64 \<Rightarrow> u64 \<Rightarrow> u128" where
  "max_user_use_in_window virtual_limit window weight total_weight =
     (let window_size = ucast window :: u128;
          virtual_network_capacity_in_window = (ucast virtual_limit :: u128) * window_size;
          user_weight = scast weight :: u128;
          all_user_weight = ucast total_weight :: u128
      in (virtual_network_capacity_in_window * user_weight) div all_user_weight)"

definition used_in_window :: "u64 \<Rightarrow> u32 \<Rightarrow> u128" where
  "used_in_window usage_value_ex window =
     ((ucast usage_value_ex :: u128) * ucast window) div ucast rate_limiting_precision"

definition add_usage_of_account ::
  "u64 \<Rightarrow> u64 \<Rightarrow> u32 \<Rightarrow> account_name \<Rightarrow> resource_db \<Rightarrow> resource_db result" where
  "add_usage_of_account cpu net time_slot a db =
     (let st = rl_state db; cfg = rl_config db in
      ebind (db_get (usage_table db) a) (\<lambda>usage.
      ebind (get_account_limits db a) (\<lambda>(unused, netw, cpuw).
      ebind (acc_window_add cfg net cpu time_slot usage) (\<lambda>bu.
      let db' = db\<lparr>usage_table := fm_update a bu (usage_table db)\<rparr> in
      EOS_ASSERT
        (sint cpuw \<ge> 0 \<and> total_cpu_weight st > 0 \<longrightarrow>
         used_in_window (value_ex (cpu_usage bu)) (account_cpu_usage_average_window cfg)
           \<le> max_user_use_in_window (virtual_cpu_limit st) (account_cpu_usage_average_window cfg) cpuw (total_cpu_weight st))
        tx_cpu_usage_exceeded
      (EOS_ASSERT
        (sint netw \<ge> 0 \<and> total_net_weight st > 0 \<longrightarrow>
         used_in_window (value_ex (net_usage bu)) (account_net_usage_average_window cfg)
           \<le> max_user_use_in_window (virtual_net_limit st) (account_net_usage_average_window cfg) netw (total_net_weight st))
        tx_net_usage_exceeded
      (Inr db'))))))"

definition add_transaction_usage ::
  "account_name list \<Rightarrow> u64 \<Rightarrow> u64 \<Rightarrow> u32 \<Rightarrow> resource_db \<Rightarrow> resource_db result" where
  "add_transaction_usage accounts cpu net time_slot db =
     ebind (efold (add_usage_of_account cpu net time_slot) accounts db) (\<lambda>db.
     let st = (rl_state db)\<lparr>pending_cpu_usage := pending_cpu_usage (rl_state db) + cpu,
                            pending_net_usage := pending_net_usage (rl_state db) + net\<rparr>
     in EOS_ASSERT (pending_cpu_usage st \<le> max_usage (cpu_limit_parameters (rl_config db))) block_resource_exhausted
       (EOS_ASSERT (pending_net_usage st \<le> max_usage (net_limit_parameters (rl_config db))) block_resource_exhausted
       (Inr (db\<lparr>rl_state := st\<rparr>))))"

text \<open>
  The negation of the smallest \<open>int64_t\<close> overflows, which the language leaves undefined.
\<close>

definition add_pending_ram_usage :: "account_name \<Rightarrow> i64 \<Rightarrow> resource_db \<Rightarrow> resource_db result" where
  "add_pending_ram_usage account ram_delta db =
     (if ram_delta = 0 then Inr db
      else
        ebind (db_get (usage_table db) account) (\<lambda>usage.
        EOS_ASSERT (sint ram_delta \<le> 0 \<or> UINT64_MAX - ram_usage usage \<ge> ram_delta) transaction_exception
        (if sint ram_delta = INT64_MIN then Inl undefined_behavior
         else
           EOS_ASSERT (sint ram_delta \<ge> 0 \<or> ram_usage usage \<ge> - ram_delta) transaction_exception
           (Inr (db\<lparr>usage_table :=
              fm_update account (usage\<lparr>ram_usage := ram_usage usage + ram_delta\<rparr>) (usage_table db)\<rparr>)))))"

definition verify_account_ram_usage :: "resource_db \<Rightarrow> account_name \<Rightarrow> unit result" where
  "verify_account_ram_usage db account =
     ebind (get_account_limits db account) (\<lambda>(rb, nw, cw).
     ebind (db_get (usage_table db) account) (\<lambda>usage.
     if sint rb \<ge> 0 then EOS_ASSERT (ram_usage usage \<le> rb) ram_usage_exceeded (Inr ()) else Inr ()))"

definition get_account_ram_usage :: "resource_db \<Rightarrow> account_name \<Rightarrow> i64 result" where
  "get_account_ram_usage db account = ebind (db_get (usage_table db) account) (\<lambda>u. Inr (ram_usage u))"

definition process_block_usage :: "u32 \<Rightarrow> resource_db \<Rightarrow> resource_db result" where
  "process_block_usage block_num db =
     (let cfg = rl_config db; st = rl_state db in
      ebind (acc_add (pending_cpu_usage st) block_num (periods (cpu_limit_parameters cfg)) (average_block_cpu_usage st)) (\<lambda>c.
      ebind (update_virtual_cpu_limit cfg (st\<lparr>average_block_cpu_usage := c\<rparr>)) (\<lambda>st.
      let st = st\<lparr>pending_cpu_usage := 0\<rparr> in
      ebind (acc_add (pending_net_usage st) block_num (periods (net_limit_parameters cfg)) (average_block_net_usage st)) (\<lambda>n.
      ebind (update_virtual_net_limit cfg (st\<lparr>average_block_net_usage := n\<rparr>)) (\<lambda>st.
      Inr (db\<lparr>rl_state := st\<lparr>pending_net_usage := 0\<rparr>\<rparr>))))))"

subsection \<open>Queries\<close>

definition get_virtual_block_cpu_limit :: "resource_db \<Rightarrow> u64" where
  "get_virtual_block_cpu_limit db = virtual_cpu_limit (rl_state db)"

definition get_virtual_block_net_limit :: "resource_db \<Rightarrow> u64" where
  "get_virtual_block_net_limit db = virtual_net_limit (rl_state db)"

definition get_block_cpu_limit :: "resource_db \<Rightarrow> u64" where
  "get_block_cpu_limit db = max_usage (cpu_limit_parameters (rl_config db)) - pending_cpu_usage (rl_state db)"

definition get_block_net_limit :: "resource_db \<Rightarrow> u64" where
  "get_block_net_limit db = max_usage (net_limit_parameters (rl_config db)) - pending_net_usage (rl_state db)"

record account_resource_limit =
  arl_used :: i64
  arl_available :: i64
  arl_max :: i64

definition account_limit_ex ::
  "u64 \<Rightarrow> u32 \<Rightarrow> i64 \<Rightarrow> u64 \<Rightarrow> u64 \<Rightarrow> account_resource_limit result" where
  "account_limit_ex capacity window weight total_weight usage_value_ex =
     (if sint weight < 0 \<or> total_weight = 0
      then Inr \<lparr>arl_used = -1, arl_available = -1, arl_max = -1\<rparr>
      else
        let max_use = max_user_use_in_window capacity window weight total_weight in
        ebind (integer_divide_ceil ((ucast usage_value_ex :: u128) * ucast window) (ucast rate_limiting_precision)) (\<lambda>used.
        ebind (if max_use \<le> used then Inr 0 else downgrade_cast_i64 (max_use - used)) (\<lambda>available.
        ebind (downgrade_cast_i64 used) (\<lambda>used'.
        ebind (downgrade_cast_i64 max_use) (\<lambda>max'.
        Inr \<lparr>arl_used = used', arl_available = available, arl_max = max'\<rparr>)))))"

definition get_account_cpu_limit_ex ::
  "resource_db \<Rightarrow> account_name \<Rightarrow> bool \<Rightarrow> account_resource_limit result" where
  "get_account_cpu_limit_ex db account elastic =
     ebind (db_get (usage_table db) account) (\<lambda>usage.
     ebind (get_account_limits db account) (\<lambda>(x, y, weight).
     account_limit_ex
       (if elastic then virtual_cpu_limit (rl_state db) else max_usage (cpu_limit_parameters (rl_config db)))
       (account_cpu_usage_average_window (rl_config db)) weight (total_cpu_weight (rl_state db))
       (value_ex (cpu_usage usage))))"

definition get_account_net_limit_ex ::
  "resource_db \<Rightarrow> account_name \<Rightarrow> bool \<Rightarrow> account_resource_limit result" where
  "get_account_net_limit_ex db account elastic =
     ebind (db_get (usage_table db) account) (\<lambda>usage.
     ebind (get_account_limits db account) (\<lambda>(x, weight, y).
     account_limit_ex
       (if elastic then virtual_net_limit (rl_state db) else max_usage (net_limit_parameters (rl_config db)))
       (account_net_usage_average_window (rl_config db)) weight (total_net_weight (rl_state db))
       (value_ex (net_usage usage))))"

definition get_account_cpu_limit :: "resource_db \<Rightarrow> account_name \<Rightarrow> bool \<Rightarrow> i64 result" where
  "get_account_cpu_limit db account elastic =
     ebind (get_account_cpu_limit_ex db account elastic) (\<lambda>arl. Inr (arl_available arl))"

definition get_account_net_limit :: "resource_db \<Rightarrow> account_name \<Rightarrow> bool \<Rightarrow> i64 result" where
  "get_account_net_limit db account elastic =
     ebind (get_account_net_limit_ex db account elastic) (\<lambda>arl. Inr (arl_available arl))"

subsection \<open>Arithmetic without wrap-around\<close>

lemma unat_rate_limiting_precision [simp]: "unat rate_limiting_precision = 1000000"
  by (simp add: rate_limiting_precision_def)

lemma unat_max_raw_value [simp]: "unat max_raw_value = (2 ^ 64 - 1) div 1000000"
  by (simp add: max_raw_value_def unat_word_div)

lemma mult_ratio_guard:
  "numerator r = 0 \<or> UINT64_MAX div numerator r \<ge> v \<longleftrightarrow> unat v * unat (numerator r) < 2 ^ 64"
proof (cases "numerator r = 0")
  case False
  then have n: "0 < unat (numerator r)" by (simp add: unat_gt_0)
  have "UINT64_MAX div numerator r \<ge> v \<longleftrightarrow> unat v \<le> (2 ^ 64 - 1) div unat (numerator r)"
    by (simp add: word_le_nat_alt unat_word_div)
  also have "\<dots> \<longleftrightarrow> unat v * unat (numerator r) \<le> 2 ^ 64 - 1"
    using n by (simp only: less_eq_div_iff_mult_less_eq)
  also have "\<dots> \<longleftrightarrow> unat v * unat (numerator r) < 2 ^ 64" by auto
  finally show ?thesis using False by simp
qed simp

lemma mult_ratio_Inr:
  "mult_ratio v r = Inr x \<longleftrightarrow>
     unat v * unat (numerator r) < 2 ^ 64 \<and> denominator r \<noteq> 0 \<and>
     unat x = unat v * unat (numerator r) div unat (denominator r)"
proof -
  have "unat v * unat (numerator r) < 2 ^ 64 \<Longrightarrow>
      unat (v * numerator r div denominator r) = unat v * unat (numerator r) div unat (denominator r)"
    by (simp add: unat_word_div unat_mult_no_overflow)
  then show ?thesis
    unfolding mult_ratio_def mult_ratio_guard
    by (auto simp: exc_simps word_unat_eq_iff)
qed

lemma integer_divide_ceil_u128:
  "integer_divide_ceil (num :: u128) den = Inr q \<longleftrightarrow>
     den \<noteq> 0 \<and> (unat q = ceil_div (unat num) (unat den))"
proof (cases "den = 0")
  case False
  have bound: "unat num div unat den + (if num mod den > 0 then 1 else 0) < 2 ^ 128"
  proof (cases "unat den = 1")
    case True
    then have "unat (num mod den) = 0" by (simp add: unat_word_mod)
    then have "num mod den = 0" by (simp add: unat_eq_zero)
    with True unsigned_less [of num] show ?thesis by simp
  next
    case d: False
    with False have "unat den \<ge> 2" by (metis One_nat_def less_2_cases_iff not_less unat_eq_zero)
    then have "unat num div unat den \<le> unat num div 2" by (intro div_le_mono2) auto
    moreover have "unat num < 2 ^ 128" using unsigned_less [of num] by simp
    ultimately show ?thesis by auto
  qed
  have "unat (num div den + (if num mod den > 0 then 1 else 0)) = ceil_div (unat num) (unat den)"
  proof (cases "num mod den = 0")
    case True
    then show ?thesis by (simp add: ceil_div_def unat_word_div flip: unat_word_mod)
  next
    case m: False
    then have "unat (num div den + 1) = unat num div unat den + 1"
      using bound by (subst unat_add_no_overflow) (auto simp: unat_word_div word_gt_0)
    with m show ?thesis by (simp add: ceil_div_def word_gt_0 unat_gt_0 flip: unat_word_mod)
  qed
  with False show ?thesis by (auto simp: integer_divide_ceil_def word_unat_eq_iff)
qed (simp add: integer_divide_ceil_def)

lemma unat_average: "unat (average a) = ceil_div (unat (value_ex a)) 1000000"
proof -
  have "unat (value_ex a) div 1000000 + 1 < 2 ^ 64" using unat_u64_bound [of "value_ex a"] by simp
  then show ?thesis
    by (simp add: average_def ceil_div_def unat_add_no_overflow unat_word_div word_gt_0 unat_gt_0
        flip: unat_word_mod unat_rate_limiting_precision)
qed

lemma downgrade_cast_u64_Inr: "downgrade_cast_u64 v = Inr x \<longleftrightarrow> unat v < 2 ^ 64 \<and> unat x = unat v"
proof -
  have "v \<le> 0xFFFFFFFFFFFFFFFF \<longleftrightarrow> unat v < 2 ^ 64" by (auto simp: word_le_nat_alt)
  moreover have "unat v < 2 ^ 64 \<Longrightarrow> unat (ucast v :: u64) = unat v"
    by (simp add: unsigned_ucast_eq take_bit_eq_mod)
  ultimately show ?thesis
    by (auto simp: downgrade_cast_u64_def exc_simps word_unat_eq_iff)
qed

text \<open>
  The moving average on natural numbers: \<open>l\<close> the last ordinal, \<open>v\<close> the average times the
  precision, \<open>c\<close> the usage tracked for the current ordinal.
\<close>

definition acc_abs :: "usage_accumulator \<Rightarrow> nat \<times> nat \<times> nat" where
  "acc_abs a = (unat (last_ordinal a), unat (value_ex a), unat (consumed a))"

fun acc_spec :: "nat \<Rightarrow> nat \<Rightarrow> nat \<Rightarrow> nat \<times> nat \<times> nat \<Rightarrow> nat \<times> nat \<times> nat" where
  "acc_spec u ord w (l, v, c) =
     (let v1 = (if l = ord then v else if ord < l + w then v * (w - (ord - l)) div w else 0);
          c1 = (if l = ord then c else ceil_div v1 1000000)
      in (ord, v1 + ceil_div (u * 1000000) w, c1 + u))"

fun acc_guard :: "nat \<Rightarrow> nat \<Rightarrow> nat \<Rightarrow> nat \<times> nat \<times> nat \<Rightarrow> bool" where
  "acc_guard u ord w (l, v, c) \<longleftrightarrow>
     u \<le> (2 ^ 64 - 1) div 1000000 \<and> c + u < 2 ^ 64 \<and> 0 < w \<and>
     v + ceil_div (u * 1000000) w < 2 ^ 64 \<and> l \<le> ord \<and>
     (l < ord \<and> ord < l + w \<longrightarrow> v * (w - (ord - l)) < 2 ^ 64)"

lemma acc_abs_inj: "acc_abs a = acc_abs b \<longleftrightarrow> a = b"
  by (cases a; cases b) (auto simp: acc_abs_def word_unat_eq_iff)

lemma acc_abs_surj: "v < 2 ^ 64 \<Longrightarrow> c < 2 ^ 64 \<Longrightarrow> \<exists>b. acc_abs b = (unat (x :: u32), v, c)"
  by (rule exI [of _ "\<lparr>last_ordinal = x, value_ex = of_nat v, consumed = of_nat c\<rparr>"])
    (simp add: acc_abs_def unat_of_nat)

lemma acc_contribution:
  fixes w :: u32
  assumes "units \<le> max_raw_value"
  shows "ebind (integer_divide_ceil (ucast units * ucast rate_limiting_precision :: u128) (ucast w)) downgrade_cast_u64 =
      (if w = 0 then Inl undefined_behavior else Inr (of_nat (ceil_div (unat units * 1000000) (unat w)))) \<and>
    (0 < unat w \<longrightarrow> ceil_div (unat units * 1000000) (unat w) < 2 ^ 64)"
proof -
  have u: "unat units * 1000000 < 2 ^ 64" using assms by (simp add: word_le_nat_alt)
  have num: "unat (ucast units * ucast rate_limiting_precision :: u128) = unat units * 1000000"
    using u by (subst unat_mult_no_overflow) auto
  show ?thesis
  proof (cases "w = 0")
    case True
    then show ?thesis by (simp add: integer_divide_ceil_def)
  next
    case False
    then have "0 < unat w" by (simp add: unat_gt_0)
    moreover from this have "unat (ucast w :: u128) \<noteq> 0" by simp
    ultimately have w: "(ucast w :: u128) \<noteq> 0" "0 < unat w" by (metis unsigned_0)+
    obtain q where q: "integer_divide_ceil (ucast units * ucast rate_limiting_precision :: u128) (ucast w) = Inr q"
      using w by (simp add: integer_divide_ceil_def)
    then have uq: "unat q = ceil_div (unat units * 1000000) (unat w)"
      using integer_divide_ceil_u128 num by simp
    have "ceil_div (unat units * 1000000) (unat w) < 2 ^ 64"
      using ceil_div_le_self [OF w(2), of "unat units * 1000000"] u by linarith
    moreover from this uq have "downgrade_cast_u64 q = Inr (of_nat (ceil_div (unat units * 1000000) (unat w)))"
      by (subst downgrade_cast_u64_Inr) (simp add: unat_of_nat)
    ultimately show ?thesis using False q by simp
  qed
qed

lemma u32_sum_no_overflow:
  "(ucast (x :: u32) :: u64) + ucast (w :: u32) > ucast (y :: u32) \<longleftrightarrow> unat y < unat x + unat w"
proof -
  have "unat ((ucast x :: u64) + ucast w) = unat x + unat w"
    using unat_u32_bound [of x] unat_u32_bound [of w] by (subst unat_add_no_overflow) auto
  then show ?thesis by (simp add: word_less_nat_alt)
qed

lemma acc_decay_Inr:
  assumes "acc_abs a = (l, v, c)" and "0 < unat w"
  shows "acc_decay ordinal w a = Inr a' \<longleftrightarrow>
    l \<le> unat ordinal \<and>
    (l < unat ordinal \<and> unat ordinal < l + unat w \<longrightarrow> v * (unat w - (unat ordinal - l)) < 2 ^ 64) \<and>
    acc_abs a' =
      (let v1 = (if l = unat ordinal then v
                 else if unat ordinal < l + unat w then v * (unat w - (unat ordinal - l)) div unat w else 0)
       in (unat ordinal, v1, if l = unat ordinal then c else ceil_div v1 1000000))"
proof -
  have a: "unat (last_ordinal a) = l" "unat (value_ex a) = v" "unat (consumed a) = c"
    using assms(1) by (simp_all add: acc_abs_def)
  define finish where "finish v = (let b = a\<lparr>value_ex := v, last_ordinal := ordinal\<rparr>
    in b\<lparr>consumed := average b\<rparr>)" for v
  have fin: "acc_abs (finish x) = (unat ordinal, unat x, ceil_div (unat x) 1000000)" for x
    by (simp add: finish_def acc_abs_def unat_average Let_def)
  consider (same) "l = unat ordinal" | (before) "unat ordinal < l"
    | (near) "l < unat ordinal" "unat ordinal < l + unat w"
    | (far) "l < unat ordinal" "l + unat w \<le> unat ordinal" by linarith
  then show ?thesis
  proof cases
    case same
    then have "last_ordinal a = ordinal" using a by (simp add: word_unat_eq_iff)
    with same a show ?thesis by (auto simp: acc_decay_def acc_abs_def word_unat_eq_iff intro: usage_accumulator.equality)
  next
    case before
    then have "last_ordinal a \<noteq> ordinal" "\<not> ordinal > last_ordinal a"
      using a by (auto simp: word_less_nat_alt)
    with before show ?thesis by (simp add: acc_decay_def)
  next
    case far
    then have "last_ordinal a \<noteq> ordinal" "ordinal > last_ordinal a"
      using a by (auto simp: word_less_nat_alt)
    with far a have "acc_decay ordinal w a = Inr (finish 0)"
      by (simp add: acc_decay_def u32_sum_no_overflow finish_def Let_def)
    with far fin [of 0] show ?thesis by (auto simp flip: acc_abs_inj)
  next
    case near
    then have ne: "last_ordinal a \<noteq> ordinal" "ordinal > last_ordinal a"
      using a by (auto simp: word_less_nat_alt)
    define r where "r = make_ratio (ucast w - ucast (ordinal - last_ordinal a)) (ucast w)"
    have "unat (ordinal - last_ordinal a) = unat ordinal - l"
      using ne a by (simp add: unat_sub)
    then have num: "unat (numerator r) = unat w - (unat ordinal - l)"
      using near by (simp add: r_def make_ratio_def unat_sub word_le_nat_alt)
    have den: "unat (denominator r) = unat w" "denominator r \<noteq> 0"
      using assms(2) by (simp_all add: r_def make_ratio_def) (auto simp: unat_eq_0 [symmetric])
    have step: "acc_decay ordinal w a = ebind (mult_ratio (value_ex a) r) (\<lambda>x. Inr (finish x))"
      using ne near a
      by (simp add: acc_decay_def u32_sum_no_overflow finish_def Let_def ebind_assoc flip: r_def)
    have "acc_decay ordinal w a = Inr a' \<longleftrightarrow>
        (\<exists>x. mult_ratio (value_ex a) r = Inr x \<and> acc_abs a' = acc_abs (finish x))"
      by (auto simp: step exc_simps acc_abs_inj)
    also have "\<dots> \<longleftrightarrow> v * (unat w - (unat ordinal - l)) < 2 ^ 64 \<and>
        (\<exists>x :: u64. unat x = v * (unat w - (unat ordinal - l)) div unat w \<and> acc_abs a' = acc_abs (finish x))"
      using den num a by (auto simp: mult_ratio_Inr)
    also have "\<dots> \<longleftrightarrow> v * (unat w - (unat ordinal - l)) < 2 ^ 64 \<and>
        acc_abs a' = (unat ordinal, v * (unat w - (unat ordinal - l)) div unat w,
          ceil_div (v * (unat w - (unat ordinal - l)) div unat w) 1000000)"
      (is "?P \<and> ?L \<longleftrightarrow> ?P \<and> ?R")
    proof (intro conj_cong refl iffI)
      assume ?P then have "v * (unat w - (unat ordinal - l)) div unat w < 2 ^ 64"
        by (meson div_le_dividend le_less_trans)
      then have "unat (of_nat (v * (unat w - (unat ordinal - l)) div unat w) :: u64) =
          v * (unat w - (unat ordinal - l)) div unat w" by (simp add: unat_of_nat)
      then show "?R \<Longrightarrow> ?L" using fin by metis
      show "?L \<Longrightarrow> ?R" using fin by auto
    qed
    finally show ?thesis using near by (auto simp: Let_def)
  qed
qed

lemma acc_decay_bounds:
  assumes "acc_decay ordinal w a = Inr a'" and "0 < unat w"
  shows "unat (value_ex a') \<le> unat (value_ex a)" and
    "a' = a \<or> unat (consumed a') \<le> 2 ^ 64 div 1000000 + 1"
proof -
  obtain l v c where a: "acc_abs a = (l, v, c)" by (cases "acc_abs a")
  have le: "v * (unat w - k) div unat w \<le> v" for k
    using div_le_mono [of "v * (unat w - k)" "v * unat w" "unat w"] assms(2) by simp
  have a': "acc_abs a' = (let v1 = (if l = unat ordinal then v
        else if unat ordinal < l + unat w then v * (unat w - (unat ordinal - l)) div unat w else 0)
      in (unat ordinal, v1, if l = unat ordinal then c else ceil_div v1 1000000))"
    using acc_decay_Inr [OF a assms(2)] assms(1) by blast
  show val: "unat (value_ex a') \<le> unat (value_ex a)"
    using a a' le by (auto simp: acc_abs_def Let_def split: if_splits)
  show "a' = a \<or> unat (consumed a') \<le> 2 ^ 64 div 1000000 + 1"
  proof (cases "l = unat ordinal")
    case True
    then show ?thesis using a a' by (simp add: Let_def flip: acc_abs_inj)
  next
    case False
    then have "unat (consumed a') = ceil_div (unat (value_ex a')) 1000000"
      using a' by (auto simp: acc_abs_def Let_def split: if_splits)
    also have "\<dots> \<le> 2 ^ 64 div 1000000 + 1"
      using div_le_mono [OF less_imp_le [OF unat_u64_bound [of "value_ex a'"]], of 1000000]
      by (simp add: ceil_div_def)
    finally show ?thesis by simp
  qed
qed

lemma acc_add_refines_raw:
  "acc_add units ordinal w a = Inr a' \<longleftrightarrow>
     acc_guard (unat units) (unat ordinal) (unat w) (acc_abs a) \<and>
     acc_abs a' = acc_spec (unat units) (unat ordinal) (unat w) (acc_abs a)"
proof -
  obtain l v c where a: "acc_abs a = (l, v, c)" by (cases "acc_abs a")
  let ?k = "ceil_div (unat units * 1000000) (unat w)"
  show ?thesis
  proof (cases "units \<le> max_raw_value \<and> 0 < unat w")
    case True
    then have u: "unat units \<le> (2 ^ 64 - 1) div 1000000" by (simp add: word_le_nat_alt)
    have k: "?k < 2 ^ 64"
      "ebind (integer_divide_ceil (ucast units * ucast rate_limiting_precision :: u128) (ucast w)) downgrade_cast_u64 =
        Inr (of_nat ?k)"
      using acc_contribution [of units w] True by (auto simp: unat_gt_0)
    then have ku: "unat (of_nat ?k :: u64) = ?k" by (simp add: unat_of_nat)
    have fin: "acc_abs (b\<lparr>consumed := consumed b + units, value_ex := value_ex b + of_nat ?k\<rparr>) =
        (unat (last_ordinal b), unat (value_ex b) + ?k, unat (consumed b) + unat units)"
      if "acc_decay ordinal w a = Inr b" and "v + ?k < 2 ^ 64" and "c + unat units < 2 ^ 64" for b
    proof -
      have "unat (value_ex b) + ?k < 2 ^ 64"
        using acc_decay_bounds(1) [OF that(1)] True that(2) a by (simp add: acc_abs_def)
      moreover have "unat (consumed b) + unat units < 2 ^ 64"
        using acc_decay_bounds(2) [OF that(1)] True that(3) a u by (auto simp: acc_abs_def)
      ultimately show ?thesis by (simp add: acc_abs_def unat_add_no_overflow ku)
    qed
    define upd where "upd b = b\<lparr>consumed := consumed b + units, value_ex := value_ex b + of_nat ?k\<rparr>"
      for b :: usage_accumulator
    have "acc_add units ordinal w a = Inr a' \<longleftrightarrow> c + unat units < 2 ^ 64 \<and> v + ?k < 2 ^ 64 \<and>
        (\<exists>b. acc_decay ordinal w a = Inr b \<and> upd b = a')"
      unfolding acc_add_def k(2) upd_def
      using True a ku by (simp add: exc_simps no_overflow_u64 acc_abs_def)
    also have "\<dots> \<longleftrightarrow> c + unat units < 2 ^ 64 \<and> v + ?k < 2 ^ 64 \<and>
        (\<exists>b. acc_decay ordinal w a = Inr b \<and>
          acc_abs a' = (unat (last_ordinal b), unat (value_ex b) + ?k, unat (consumed b) + unat units))"
      using fin by (metis acc_abs_inj upd_def)
    also have "\<dots> \<longleftrightarrow> acc_guard (unat units) (unat ordinal) (unat w) (l, v, c) \<and>
        acc_abs a' = acc_spec (unat units) (unat ordinal) (unat w) (l, v, c)"
    proof -
      define v1 where "v1 = (if l = unat ordinal then v
        else if unat ordinal < l + unat w then v * (unat w - (unat ordinal - l)) div unat w else 0)"
      define c1 where "c1 = (if l = unat ordinal then c else ceil_div v1 1000000)"
      have vc: "v < 2 ^ 64" "c < 2 ^ 64" using a unat_u64_bound by (auto simp: acc_abs_def)
      have "v * (unat w - j) div unat w \<le> v" for j
        using div_le_mono [of "v * (unat w - j)" "v * unat w" "unat w"] True by simp
      then have v1: "v1 \<le> v" by (simp add: v1_def)
      have c1: "c1 < 2 ^ 64"
        using v1 vc ceil_div_le_self [of 1000000 v1] by (auto simp: c1_def)
      obtain b0 where b0: "acc_abs b0 = (unat ordinal, v1, c1)"
        using acc_abs_surj [of v1 c1 ordinal] v1 c1 vc by auto
      have dec: "acc_decay ordinal w a = Inr b \<longleftrightarrow> l \<le> unat ordinal \<and>
          (l < unat ordinal \<and> unat ordinal < l + unat w \<longrightarrow> v * (unat w - (unat ordinal - l)) < 2 ^ 64) \<and> b = b0" for b
        using acc_decay_Inr [OF a, of w ordinal b] True b0
        by (simp add: Let_def flip: acc_abs_inj v1_def c1_def)
      have "acc_spec (unat units) (unat ordinal) (unat w) (l, v, c) =
          (unat (last_ordinal b0), unat (value_ex b0) + ?k, unat (consumed b0) + unat units)"
        using b0 by (simp add: acc_abs_def Let_def flip: v1_def c1_def)
      then show ?thesis using True u by (auto simp: dec)
    qed
    finally show ?thesis using a by simp
  next
    case False
    then have "\<nexists>b. acc_add units ordinal w a = Inr b"
      using acc_contribution [of units w]
      by (auto simp: acc_add_def exc_simps unat_gt_0 unat_eq_0 word_gt_0 split: if_splits)
    moreover have "\<not> acc_guard (unat units) (unat ordinal) (unat w) (l, v, c)"
      using False by (auto simp: word_le_nat_alt)
    ultimately show ?thesis using a by auto
  qed
qed

subsection \<open>The account limits tables\<close>

text \<open>
  Well-formed limits: one entry per key, keys agree with the owner field, and a pending entry
  only beside an actual one. The running totals count the positive limits of the actual entries.
\<close>

definition wf_limits :: "(bool \<times> account_name, resource_limits_object) flat_map \<Rightarrow> bool" where
  "wf_limits t \<longleftrightarrow> fm_ok t \<and>
     (\<forall>k v. fm_lookup t k = Some v \<longrightarrow> owner v = snd k) \<and>
     (\<forall>a. fm_lookup t (True, a) \<noteq> None \<longrightarrow> fm_lookup t (False, a) \<noteq> None)"

definition positive_part :: "i64 \<Rightarrow> int" where
  "positive_part w = max 0 (sint w)"

definition limits_total :: "(resource_limits_object \<Rightarrow> i64) \<Rightarrow> (bool \<times> account_name, resource_limits_object) flat_map \<Rightarrow> int" where
  "limits_total f t = fm_sum (\<lambda>k v. if fst k then 0 else positive_part (f v)) t"

definition totals_ok :: "resource_db \<Rightarrow> bool" where
  "totals_ok db \<longleftrightarrow>
     uint (total_ram_bytes (rl_state db)) = limits_total ram_bytes (limits_table db) \<and>
     uint (total_cpu_weight (rl_state db)) = limits_total cpu_weight (limits_table db) \<and>
     uint (total_net_weight (rl_state db)) = limits_total net_weight (limits_table db)"

lemma positive_part_pos: "0 < sint w \<Longrightarrow> positive_part w = uint w"
  by (simp add: positive_part_def uint_eq_sint)

lemma positive_part_nonpos: "\<not> 0 < sint w \<Longrightarrow> positive_part w = 0"
  by (simp add: positive_part_def)

lemma take_limit_Inr:
  "(if sint val > 0 then EOS_ASSERT (tot \<ge> val) rate_limiting_state_inconsistent (Inr (tot - val)) else Inr tot)
     = Inr m \<longleftrightarrow> positive_part val \<le> uint tot \<and> uint m = uint tot - positive_part val" for m tot :: u64
proof (cases "sint val > 0")
  case True
  have "val \<le> tot \<longleftrightarrow> uint val \<le> uint tot" by (simp add: word_le_def)
  moreover have "uint (tot - val) = uint tot - uint val" if "uint val \<le> uint tot"
    using that by (rule uint_sub_lem [THEN iffD1])
  ultimately show ?thesis
    using True by (auto simp: EOS_ASSERT_Inr_iff positive_part_pos intro: word_uint_eqI)
next
  case False
  then show ?thesis by (auto simp: positive_part_nonpos intro: word_uint_eqI)
qed

lemma put_limit_Inr:
  "(if sint pend > 0 then EOS_ASSERT (UINT64_MAX - mid \<ge> pend) rate_limiting_state_inconsistent (Inr (mid + pend)) else Inr mid)
     = Inr m \<longleftrightarrow> uint mid + positive_part pend < 2 ^ 64 \<and> uint m = uint mid + positive_part pend" for m mid :: u64
proof (cases "sint pend > 0")
  case True
  have "pend \<le> UINT64_MAX - mid \<longleftrightarrow> uint mid + uint pend < 2 ^ 64"
  proof -
    have "n + k < 2 ^ 64 \<longleftrightarrow> int n + int k < 2 ^ 64" for n k :: nat by auto
    then show ?thesis unfolding no_overflow_u64 uint_nat .
  qed
  moreover have "uint mid + uint pend < 2 ^ 64 \<Longrightarrow> uint (mid + pend) = uint mid + uint pend"
    by (simp add: uint_add_no_overflow)
  ultimately show ?thesis
    using True by (auto simp: EOS_ASSERT_Inr_iff positive_part_pos intro: word_uint_eqI)
next
  case False
  then show ?thesis using uint_u64_bound [of mid] by (auto simp: positive_part_nonpos intro: word_uint_eqI)
qed

lemma update_state_and_value_Inr:
  "update_state_and_value tot val pend = Inr (tot', val') \<longleftrightarrow>
     val' = pend \<and> positive_part val \<le> uint tot \<and>
     uint tot - positive_part val + positive_part pend < 2 ^ 64 \<and>
     uint tot' = uint tot - positive_part val + positive_part pend"
proof -
  have "\<exists>m :: u64. uint m = uint tot - positive_part val" if "positive_part val \<le> uint tot"
  proof -
    have "0 \<le> uint tot - positive_part val" "uint tot - positive_part val < 2 ^ 64"
      using that uint_u64_bound [of tot] by (auto simp: positive_part_def)
    then have "uint (word_of_int (uint tot - positive_part val) :: u64) = uint tot - positive_part val"
      unfolding uint_word_of_int by (intro mod_pos_pos_trivial) simp_all
    then show ?thesis ..
  qed
  then show ?thesis
    by (force simp: update_state_and_value_def ebind_Inr_iff take_limit_Inr put_limit_Inr)
qed

lemma limits_total_update:
  "fm_ok t \<Longrightarrow> limits_total f (fm_update (False, a) v t) =
     limits_total f t + positive_part (f v) -
     (case fm_lookup t (False, a) of None \<Rightarrow> 0 | Some v0 \<Rightarrow> positive_part (f v0))"
  by (simp add: limits_total_def fm_sum_update split: option.splits)

lemma limits_total_pending:
  "fm_ok t \<Longrightarrow> limits_total f (fm_update (True, a) v t) = limits_total f t"
  "fm_ok t \<Longrightarrow> limits_total f (fm_erase (True, a) t) = limits_total f t"
  by (simp_all add: limits_total_def fm_sum_update fm_sum_erase split: option.splits)

text \<open>One iteration of the loop, as a step on well-formed tables.\<close>

lemma apply_pending_step:
  assumes "apply_pending_limits acct p db = Inr db'" and "wf_limits (limits_table db)" and "totals_ok db"
    and "fm_lookup (limits_table db) (True, acct) = Some p"
  shows "wf_limits (limits_table db')" and "totals_ok db'"
    and "get_account_limits db' a = get_account_limits db a"
    and "usage_table db' = usage_table db" and "rl_config db' = rl_config db"
proof -
  have own: "owner p = acct" and ok: "fm_ok (limits_table db)"
    using assms(2,4) by (auto simp: wf_limits_def)
  then obtain rlo tr tc tn where rlo: "fm_lookup (limits_table db) (False, acct) = Some rlo"
    and r: "update_state_and_value (total_ram_bytes (rl_state db)) (ram_bytes rlo) (ram_bytes p) = Inr (tr, ram_bytes p)"
    and c: "update_state_and_value (total_cpu_weight (rl_state db)) (cpu_weight rlo) (cpu_weight p) = Inr (tc, cpu_weight p)"
    and n: "update_state_and_value (total_net_weight (rl_state db)) (net_weight rlo) (net_weight p) = Inr (tn, net_weight p)"
    and db': "db' = db\<lparr>rl_state := (rl_state db)\<lparr>total_ram_bytes := tr, total_cpu_weight := tc, total_net_weight := tn\<rparr>,
       limits_table := fm_erase (True, acct) (fm_update (False, acct)
         (rlo\<lparr>ram_bytes := ram_bytes p, cpu_weight := cpu_weight p, net_weight := net_weight p\<rparr>) (limits_table db))\<rparr>"
    using assms(1)
    by (auto simp: apply_pending_limits_def db_get_def exc_simps update_state_and_value_Inr split: option.splits)
  show "wf_limits (limits_table db')"
    using assms(2) rlo ok by (auto simp: wf_limits_def db' fm_laws)
  show "totals_ok db'"
    using assms(3) r c n rlo ok
    by (simp add: totals_ok_def db' limits_total_update limits_total_pending fm_laws update_state_and_value_Inr)
  show "get_account_limits db' a = get_account_limits db a"
    using ok assms(4) rlo by (auto simp: get_account_limits_def db_get_def db' fm_laws split: option.splits)
  show "usage_table db' = usage_table db" "rl_config db' = rl_config db" by (simp_all add: db')
qed

lemma process_loop_cases:
  assumes "wf_limits (limits_table db)"
  shows "process_account_limit_updates db =
    (case fm_lower_bound (True, 0) (limits_table db) of
       None \<Rightarrow> Inr db
     | Some ((pending, acct), p) \<Rightarrow> ebind (apply_pending_limits acct p db) process_account_limit_updates)"
    and "fm_lower_bound (True, 0) (limits_table db) = Some ((pending, acct), p) \<Longrightarrow>
      pending \<and> fm_lookup (limits_table db) (True, acct) = Some p"
    and "fm_lower_bound (True, 0) (limits_table db) = None \<longleftrightarrow> (\<forall>a. fm_lookup (limits_table db) (True, a) = None)"
proof -
  have ok: "fm_ok (limits_table db)" using assms by (simp add: wf_limits_def)
  show entry: "pending \<and> fm_lookup (limits_table db) (True, acct) = Some p"
    if "fm_lower_bound (True, 0) (limits_table db) = Some ((pending, acct), p)" for pending acct p
    using fm_lower_bound_Some [OF that] ok by (auto simp: fm_lookup_in_set less_eq_prod_def)
  show "process_account_limit_updates db =
    (case fm_lower_bound (True, 0) (limits_table db) of
       None \<Rightarrow> Inr db
     | Some ((pending, acct), p) \<Rightarrow> ebind (apply_pending_limits acct p db) process_account_limit_updates)"
    using entry
    by (subst process_account_limit_updates.simps)
      (auto simp: fm_lower_bound_def split: option.splits prod.splits)
  show "fm_lower_bound (True, 0) (limits_table db) = None \<longleftrightarrow> (\<forall>a. fm_lookup (limits_table db) (True, a) = None)"
  proof -
    have "fm_lookup (limits_table db) (True, a) = None \<longleftrightarrow> (\<forall>v. ((True, a), v) \<notin> set (limits_table db))" for a
      using fm_lookup_in_set [OF ok, of "(True, a)"] by (metis not_None_eq)
    then show ?thesis
      by (auto simp: fm_lower_bound_None less_prod_def)
  qed
qed

lemma process_limits_invariant:
  assumes "process_account_limit_updates db = Inr db'" and "wf_limits (limits_table db)" and "totals_ok db"
  shows "wf_limits (limits_table db') \<and> totals_ok db' \<and>
    (\<forall>a. fm_lookup (limits_table db') (True, a) = None) \<and>
    (\<forall>a. get_account_limits db' a = get_account_limits db a) \<and>
    usage_table db' = usage_table db \<and> rl_config db' = rl_config db"
  using assms
proof (induction db rule: process_account_limit_updates.induct)
  case (1 db)
  note loop = process_loop_cases [OF "1.prems"(2)]
  show ?case
  proof (cases "fm_lower_bound (True, 0) (limits_table db)")
    case None
    with "1.prems" loop show ?thesis by auto
  next
    case (Some e)
    obtain pending acct p where e: "e = ((pending, acct), p)" by (metis surj_pair)
    have look: "pending" "fm_lookup (limits_table db) (True, acct) = Some p"
      using loop(2) Some e by auto
    obtain db1 where ap: "apply_pending_limits acct p db = Inr db1"
      and rest: "process_account_limit_updates db1 = Inr db'"
      using "1.prems"(1) loop(1) Some e by (auto simp: exc_simps)
    note step = apply_pending_step [OF ap "1.prems"(2,3) look(2)]
    have "limits_table db \<noteq> []" using Some by (auto simp: fm_lower_bound_def)
    from "1.IH" [OF this Some, of "(pending, acct)" p pending acct db1] e look ap rest step
    show ?thesis by auto
  qed
qed

subsection \<open>Elastic limits and the block average\<close>

lemma update_elastic_limit_bounds:
  assumes "update_elastic_limit cur avg params = Inr r"
    and "unat (max_usage params) * unat (max_multiplier params) < 2 ^ 64" and "1 \<le> unat (max_multiplier params)"
  shows "unat (max_usage params) \<le> unat r \<and> unat r \<le> unat (max_usage params) * unat (max_multiplier params)"
proof -
  obtain x where r: "r = min (max x (max_usage params)) (max_usage params * ucast (max_multiplier params))"
    using assms(1) by (auto simp: update_elastic_limit_def exc_simps)
  have prod: "unat (max_usage params * ucast (max_multiplier params)) =
      unat (max_usage params) * unat (max_multiplier params)"
    using assms(2) by (subst unat_mult_no_overflow) auto
  have "unat (max_usage params) * 1 \<le> unat (max_usage params) * unat (max_multiplier params)"
    using assms(3) by (rule mult_le_mono2)
  then have "max_usage params \<le> max_usage params * ucast (max_multiplier params)"
    using prod by (simp add: word_le_nat_alt)
  then have "max_usage params \<le> r" "r \<le> max_usage params * ucast (max_multiplier params)"
    unfolding r by (auto simp: min_def max_def)
  then show ?thesis using prod by (simp add: word_le_nat_alt)
qed

text \<open>
  The average of a quantity that is at most \<open>M\<close> per period stays at most \<open>M\<close> up to the rounding
  of the contributions.
\<close>

lemma ema_step_bound:
  fixes v M P W w d u :: nat
  assumes "v \<le> M * P + W" and "u \<le> M" and "0 < d" and "0 < w" and "w \<le> W"
  shows "v * (w - d) div w + ceil_div (u * P) w \<le> M * P + W"
proof -
  let ?X = "M * P + W" and ?A = "v * (w - d) div w" and ?C = "ceil_div (u * P) w"
  have "?A * w \<le> v * (w - d)" by (rule div_times_less_eq_dividend)
  also have "\<dots> \<le> ?X * (w - 1)" using assms by (intro mult_le_mono) auto
  also have "\<dots> = ?X * w - ?X" by (simp add: diff_mult_distrib2)
  finally have A: "?A * w \<le> ?X * w - ?X" .
  have "?C * w < u * P + w" using assms(4) by (rule ceil_div_tight)
  also have "\<dots> \<le> ?X" using assms(2,5) by (intro add_mono mult_le_mono1)
  finally have C: "?C * w < ?X" .
  have "?X * 1 \<le> ?X * w" using assms(4) by (intro mult_le_mono2) simp
  with A C have "(?A + ?C) * w < ?X * w" by (simp add: add_mult_distrib)
  then show ?thesis by simp
qed

subsection \<open>Block accounting over a chain\<close>

text \<open>
  Bounds on the block parameters in force along a chain: the largest block limit, averaging window
  in blocks, virtual limit, and numerator of a rate. The chain's own parameters (a window of 120
  blocks, a multiplier of 1000, rates 99/100 and 1000/999) meet them for every block limit up to
  \<open>10 ^ 11\<close>.
\<close>

record block_caps =
  cap_usage :: nat
  cap_window :: nat
  cap_virtual :: nat
  cap_rate :: nat

definition caps_ok :: "block_caps \<Rightarrow> bool" where
  "caps_ok k \<longleftrightarrow> (cap_usage k * 1000000 + cap_window k) * (cap_window k + 1) < 2 ^ 64 \<and>
     cap_virtual k * cap_rate k < 2 ^ 64 \<and> cap_virtual k < 2 ^ 64 \<and> 0 < cap_window k"

definition params_ok :: "block_caps \<Rightarrow> elastic_limit_parameters \<Rightarrow> bool" where
  "params_ok k p \<longleftrightarrow> 0 < periods p \<and> unat (periods p) \<le> cap_window k \<and>
     unat (max_usage p) \<le> cap_usage k \<and> 0 < max_multiplier p \<and>
     unat (max_usage p) * unat (max_multiplier p) \<le> cap_virtual k \<and>
     unat (numerator (contract_rate p)) \<le> cap_rate k \<and> unat (numerator (expand_rate p)) \<le> cap_rate k \<and>
     denominator (contract_rate p) \<noteq> 0 \<and> denominator (expand_rate p) \<noteq> 0"

definition average_ok :: "block_caps \<Rightarrow> u32 \<Rightarrow> usage_accumulator \<Rightarrow> bool" where
  "average_ok k n a \<longleftrightarrow> last_ordinal a < n \<and>
     unat (value_ex a) \<le> cap_usage k * 1000000 + cap_window k \<and>
     unat (consumed a) \<le> cap_usage k * 1000000 + cap_window k + cap_usage k"

definition block_inv :: "block_caps \<Rightarrow> u32 \<Rightarrow> resource_db \<Rightarrow> bool" where
  "block_inv k n db \<longleftrightarrow>
     params_ok k (cpu_limit_parameters (rl_config db)) \<and> params_ok k (net_limit_parameters (rl_config db)) \<and>
     average_ok k n (average_block_cpu_usage (rl_state db)) \<and> average_ok k n (average_block_net_usage (rl_state db)) \<and>
     unat (pending_cpu_usage (rl_state db)) \<le> cap_usage k \<and> unat (pending_net_usage (rl_state db)) \<le> cap_usage k \<and>
     unat (virtual_cpu_limit (rl_state db)) \<le> cap_virtual k \<and> unat (virtual_net_limit (rl_state db)) \<le> cap_virtual k"

lemma caps_sum_bound:
  assumes "caps_ok k"
  shows "2 * (cap_usage k * 1000000 + cap_window k) < 2 ^ 64"
proof -
  have "(cap_usage k * 1000000 + cap_window k) * 2 \<le> (cap_usage k * 1000000 + cap_window k) * (cap_window k + 1)"
    using assms by (intro mult_le_mono2) (simp add: caps_ok_def)
  also have "\<dots> < 2 ^ 64" using assms by (simp add: caps_ok_def)
  finally show ?thesis by (simp add: mult.commute)
qed

lemma acc_guard_block:
  assumes "caps_ok k" and "0 < w" and "w \<le> cap_window k" and "u \<le> cap_usage k" and "l < ord"
    and "v \<le> cap_usage k * 1000000 + cap_window k"
    and "c \<le> cap_usage k * 1000000 + cap_window k + cap_usage k"
  shows "acc_guard u ord w (l, v, c)"
proof -
  let ?X = "cap_usage k * 1000000 + cap_window k"
  note sum = caps_sum_bound [OF assms(1)]
  have "u * 1000000 \<le> ?X" using assms(4) by simp
  moreover have "ceil_div (u * 1000000) w \<le> u * 1000000" by (rule ceil_div_le_self) fact
  ultimately have C: "ceil_div (u * 1000000) w \<le> ?X" by linarith
  have "v * (w - (ord - l)) \<le> ?X * (cap_window k + 1)"
    using assms(3,6) by (intro mult_le_mono) auto
  also have "\<dots> < 2 ^ 64" using assms(1) by (simp add: caps_ok_def)
  finally have D: "v * (w - (ord - l)) < 2 ^ 64" .
  have "u \<le> (2 ^ 64 - 1) div 1000000" using assms(4) sum by simp
  moreover have "c + u < 2 ^ 64" using assms(4,7) sum by simp
  moreover have "v + ceil_div (u * 1000000) w < 2 ^ 64" using C assms(6) sum by simp
  ultimately show ?thesis using D assms(2,5) by simp
qed

lemma acc_spec_block:
  assumes "0 < w" and "w \<le> cap_window k" and "u \<le> cap_usage k" and "l < ord"
    and "v \<le> cap_usage k * 1000000 + cap_window k" and "acc_spec u ord w (l, v, c) = (l', v', c')"
  shows "v' \<le> cap_usage k * 1000000 + cap_window k"
    and "c' \<le> cap_usage k * 1000000 + cap_window k + cap_usage k" and "l' = ord"
proof -
  let ?X = "cap_usage k * 1000000 + cap_window k" and ?v = "v * (w - (ord - l)) div w"
  have v1: "(if ord < l + w then ?v else 0) = ?v" by simp
  from assms(4,6) v1 have eqs: "l' = ord" "v' = ?v + ceil_div (u * 1000000) w" "c' = ceil_div ?v 1000000 + u"
    by (auto simp: Let_def split: if_splits)
  show "l' = ord" by (rule eqs)
  show v': "v' \<le> ?X"
    unfolding eqs by (rule ema_step_bound) (use assms in auto)
  have "ceil_div ?v 1000000 \<le> ?v" by (rule ceil_div_le_self) simp
  also have "\<dots> \<le> ?X" using v' by (simp add: eqs)
  finally show "c' \<le> ?X + cap_usage k" using assms(3) by (simp add: eqs)
qed


lemma acc_add_block:
  assumes "caps_ok k" and "params_ok k p" and "average_ok k n a" and "unat u \<le> cap_usage k"
  obtains a' where "acc_add u n (periods p) a = Inr a'" and "\<And>n'. n < n' \<Longrightarrow> average_ok k n' a'"
proof -
  let ?X = "cap_usage k * 1000000 + cap_window k" and ?w = "unat (periods p)"
  obtain l v c where a: "acc_abs a = (l, v, c)" by (cases "acc_abs a")
  have w: "0 < ?w" "?w \<le> cap_window k" using assms(2) by (auto simp: params_ok_def unat_gt_0)
  have b: "l < unat n" "v \<le> ?X" "c \<le> ?X + cap_usage k"
    using assms(3) a by (auto simp: average_ok_def acc_abs_def word_less_nat_alt)
  have guard: "acc_guard (unat u) (unat n) ?w (l, v, c)"
    by (rule acc_guard_block) (use assms w b in auto)
  obtain l' v' c' where spec: "acc_spec (unat u) (unat n) ?w (l, v, c) = (l', v', c')" by (metis prod_cases3)
  note new = acc_spec_block [OF w assms(4) b(1,2) spec]
  have "v' < 2 ^ 64" "c' < 2 ^ 64" using new caps_sum_bound [OF assms(1)] by simp_all
  then obtain a' where a': "acc_abs a' = (unat n, v', c')" using acc_abs_surj by blast
  show thesis
  proof
    show "acc_add u n (periods p) a = Inr a'"
      using guard spec a a' new(3) by (simp only: acc_add_refines_raw)
    show "average_ok k n' a'" if "n < n'" for n'
      using that a' new by (auto simp: average_ok_def acc_abs_def word_less_nat_alt)
  qed
qed

lemma mult_ratio_defined:
  assumes "unat v * unat (numerator r) < 2 ^ 64" and "denominator r \<noteq> 0"
  obtains x where "mult_ratio v r = Inr x"
  using assms unfolding mult_ratio_def mult_ratio_guard by simp

lemma update_elastic_limit_block:
  assumes "caps_ok k" and "params_ok k p" and "unat cur \<le> cap_virtual k"
  obtains r where "update_elastic_limit cur avg p = Inr r"
    and "unat (max_usage p) \<le> unat r" and "unat r \<le> unat (max_usage p) * unat (max_multiplier p)"
proof -
  have "unat cur * unat (numerator q) < 2 ^ 64" if "unat (numerator q) \<le> cap_rate k" for q
    using mult_le_mono [OF assms(3) that] assms(1) by (simp add: caps_ok_def)
  then obtain x y where "mult_ratio cur (contract_rate p) = Inr x" "mult_ratio cur (expand_rate p) = Inr y"
    using assms(2) by (metis params_ok_def mult_ratio_defined)
  then obtain r where r: "update_elastic_limit cur avg p = Inr r"
    by (cases "avg > target p") (auto simp: update_elastic_limit_def)
  have "1 \<le> unat (max_multiplier p)" "unat (max_usage p) * unat (max_multiplier p) < 2 ^ 64"
    using assms(1,2) by (auto simp: params_ok_def caps_ok_def unat_gt_0 Suc_le_eq)
  from update_elastic_limit_bounds [OF r this(2,1)] r that show thesis by blast
qed

text \<open>Closing a block succeeds, resets the pending usage and puts the virtual limits in their range.\<close>

definition virtual_in_range :: "elastic_limit_parameters \<Rightarrow> u64 \<Rightarrow> bool" where
  "virtual_in_range p v \<longleftrightarrow> unat (max_usage p) \<le> unat v \<and> unat v \<le> unat (max_usage p) * unat (max_multiplier p)"

lemma process_block_usage_defined:
  assumes "caps_ok k" and "block_inv k n db"
  obtains db' where "process_block_usage n db = Inr db'"
    and "\<And>n'. n < n' \<Longrightarrow> block_inv k n' db'"
    and "pending_cpu_usage (rl_state db') = 0" and "pending_net_usage (rl_state db') = 0"
    and "virtual_in_range (cpu_limit_parameters (rl_config db')) (virtual_cpu_limit (rl_state db'))"
    and "virtual_in_range (net_limit_parameters (rl_config db')) (virtual_net_limit (rl_state db'))"
    and "limits_table db' = limits_table db" and "usage_table db' = usage_table db" and "rl_config db' = rl_config db"
    and "total_ram_bytes (rl_state db') = total_ram_bytes (rl_state db)"
    and "total_cpu_weight (rl_state db') = total_cpu_weight (rl_state db)"
    and "total_net_weight (rl_state db') = total_net_weight (rl_state db)"
proof -
  let ?cp = "cpu_limit_parameters (rl_config db)" and ?np = "net_limit_parameters (rl_config db)"
  have inv: "params_ok k ?cp" "params_ok k ?np"
    "average_ok k n (average_block_cpu_usage (rl_state db))" "average_ok k n (average_block_net_usage (rl_state db))"
    "unat (pending_cpu_usage (rl_state db)) \<le> cap_usage k" "unat (pending_net_usage (rl_state db)) \<le> cap_usage k"
    "unat (virtual_cpu_limit (rl_state db)) \<le> cap_virtual k" "unat (virtual_net_limit (rl_state db)) \<le> cap_virtual k"
    using assms(2) by (simp_all add: block_inv_def)
  obtain c where c: "acc_add (pending_cpu_usage (rl_state db)) n (periods ?cp) (average_block_cpu_usage (rl_state db)) = Inr c"
    "\<And>n'. n < n' \<Longrightarrow> average_ok k n' c"
    using acc_add_block [OF assms(1) inv(1) inv(3) inv(5)] by blast
  obtain e where e: "acc_add (pending_net_usage (rl_state db)) n (periods ?np) (average_block_net_usage (rl_state db)) = Inr e"
    "\<And>n'. n < n' \<Longrightarrow> average_ok k n' e"
    using acc_add_block [OF assms(1) inv(2) inv(4) inv(6)] by blast
  obtain vc where vc: "update_elastic_limit (virtual_cpu_limit (rl_state db)) (average c) ?cp = Inr vc"
    "virtual_in_range ?cp vc"
    using update_elastic_limit_block [OF assms(1) inv(1) inv(7)] unfolding virtual_in_range_def by metis
  obtain vn where vn: "update_elastic_limit (virtual_net_limit (rl_state db)) (average e) ?np = Inr vn"
    "virtual_in_range ?np vn"
    using update_elastic_limit_block [OF assms(1) inv(2) inv(8)] unfolding virtual_in_range_def by metis
  have caps: "unat vc \<le> cap_virtual k" "unat vn \<le> cap_virtual k"
    using vc(2) vn(2) inv(1,2) by (auto simp: virtual_in_range_def params_ok_def)
  let ?db' = "db\<lparr>rl_state := (rl_state db)\<lparr>average_block_cpu_usage := c, virtual_cpu_limit := vc, pending_cpu_usage := 0,
    average_block_net_usage := e, virtual_net_limit := vn, pending_net_usage := 0\<rparr>\<rparr>"
  have run: "process_block_usage n db = Inr ?db'"
    using c(1) e(1) vc(1) vn(1)
    by (simp add: process_block_usage_def update_virtual_cpu_limit_def update_virtual_net_limit_def Let_def)
  have "block_inv k n' ?db'" if "n < n'" for n'
    using inv(1,2) c(2) [OF that] e(2) [OF that] caps by (simp add: block_inv_def)
  from that [OF run this] vc(2) vn(2) show thesis by simp
qed


subsection \<open>Reachable states\<close>

text \<open>
  \<open>rl_reachable k n db\<close>: the tables \<open>db\<close> arise from a fresh database by calls of the
  resource limits manager, \<open>n\<close> being the number of the block under construction. Block
  parameters stay within the bounds \<open>k\<close>; block numbers increase.
\<close>

inductive rl_reachable :: "block_caps \<Rightarrow> u32 \<Rightarrow> resource_db \<Rightarrow> bool" for k where
  init: "0 < n \<Longrightarrow> rl_reachable k n initialize_database"
| new_account: "rl_reachable k n db \<Longrightarrow> initialize_account a db = Inr db' \<Longrightarrow> rl_reachable k n db'"
| set_limits: "rl_reachable k n db \<Longrightarrow> set_account_limits a r w c db = Inr (dec, db') \<Longrightarrow> rl_reachable k n db'"
| update_limits: "rl_reachable k n db \<Longrightarrow> process_account_limit_updates db = Inr db' \<Longrightarrow> rl_reachable k n db'"
| update_usage: "rl_reachable k n db \<Longrightarrow> update_account_usage as slot db = Inr db' \<Longrightarrow> rl_reachable k n db'"
| transaction: "rl_reachable k n db \<Longrightarrow> as \<noteq> [] \<Longrightarrow> add_transaction_usage as cpu net slot db = Inr db' \<Longrightarrow> rl_reachable k n db'"
| ram: "rl_reachable k n db \<Longrightarrow> add_pending_ram_usage a d db = Inr db' \<Longrightarrow> rl_reachable k n db'"
| parameters: "rl_reachable k n db \<Longrightarrow> params_ok k cp \<Longrightarrow> params_ok k np \<Longrightarrow>
    set_block_parameters cp np db = Inr db' \<Longrightarrow> rl_reachable k n db'"
| block: "rl_reachable k n db \<Longrightarrow> process_block_usage n db = Inr db' \<Longrightarrow> n < n' \<Longrightarrow> rl_reachable k n' db'"

definition wf_usage :: "resource_db \<Rightarrow> bool" where
  "wf_usage db \<longleftrightarrow> fm_ok (usage_table db) \<and>
     (\<forall>a. fm_lookup (usage_table db) a \<noteq> None \<longleftrightarrow> fm_lookup (limits_table db) (False, a) \<noteq> None)"

definition rl_inv :: "block_caps \<Rightarrow> u32 \<Rightarrow> resource_db \<Rightarrow> bool" where
  "rl_inv k n db \<longleftrightarrow> wf_limits (limits_table db) \<and> totals_ok db \<and> wf_usage db \<and> block_inv k n db"

text \<open>
  Operations on the usage table only: they keep the set of accounts, and nothing else changes.
\<close>

definition usage_frame :: "resource_db \<Rightarrow> resource_db \<Rightarrow> bool" where
  "usage_frame db db' \<longleftrightarrow> limits_table db' = limits_table db \<and> rl_config db' = rl_config db \<and>
     rl_state db' = rl_state db \<and>
     (wf_usage db \<longrightarrow> wf_usage db')"

interpretation usage: state_frame usage_frame
  by unfold_locales (simp_all add: usage_frame_def)

lemma usage_frame_update:
  assumes "fm_lookup (usage_table db) a = Some u"
  shows "usage_frame db (db\<lparr>usage_table := fm_update a u' (usage_table db)\<rparr>)"
  using assms by (auto simp: usage_frame_def wf_usage_def fm_laws)

lemma usage_frame_inv: "usage_frame db db' \<Longrightarrow> rl_inv k n db \<Longrightarrow> rl_inv k n db'"
  by (simp add: usage_frame_def rl_inv_def totals_ok_def block_inv_def)

lemma add_usage_frame: "add_usage_of_account cpu net slot a db = Inr db' \<Longrightarrow> usage_frame db db'"
  by (auto simp: add_usage_of_account_def Let_def exc_simps intro: usage_frame_update)

lemma update_usage_frame: "update_account_usage as slot db = Inr db' \<Longrightarrow> usage_frame db db'"
  unfolding update_account_usage_def
  by (rule usage.frame_efold) (auto simp: exc_simps intro: usage_frame_update)

lemma add_ram_frame: "add_pending_ram_usage a d db = Inr db' \<Longrightarrow> usage_frame db db'"
  by (auto simp: add_pending_ram_usage_def exc_simps split: if_splits
      intro: usage_frame_update usage.frame_refl)


lemma add_transaction_usage_steps:
  assumes "add_transaction_usage as cpu net slot db = Inr db'"
  obtains db1 where "efold (add_usage_of_account cpu net slot) as db = Inr db1" and "usage_frame db db1"
    and "db' = db1\<lparr>rl_state := (rl_state db)\<lparr>pending_cpu_usage := pending_cpu_usage (rl_state db) + cpu,
           pending_net_usage := pending_net_usage (rl_state db) + net\<rparr>\<rparr>"
    and "pending_cpu_usage (rl_state db') \<le> max_usage (cpu_limit_parameters (rl_config db))"
    and "pending_net_usage (rl_state db') \<le> max_usage (net_limit_parameters (rl_config db))"
proof -
  obtain db1 where run: "efold (add_usage_of_account cpu net slot) as db = Inr db1"
    using assms by (auto simp: add_transaction_usage_def Let_def exc_simps)
  then have fr: "usage_frame db db1"
    by (rule usage.frame_efold) (rule add_usage_frame)
  with assms run that show thesis
    by (auto simp: add_transaction_usage_def Let_def exc_simps usage_frame_def)
qed

lemma transaction_inv:
  assumes "add_transaction_usage as cpu net slot db = Inr db'" and "rl_inv k n db"
  shows "rl_inv k n db'"
  using assms(1)
proof (rule add_transaction_usage_steps)
  fix db1
  assume fr: "usage_frame db db1"
    and db': "db' = db1\<lparr>rl_state := (rl_state db)\<lparr>pending_cpu_usage := pending_cpu_usage (rl_state db) + cpu,
           pending_net_usage := pending_net_usage (rl_state db) + net\<rparr>\<rparr>"
    and c: "pending_cpu_usage (rl_state db') \<le> max_usage (cpu_limit_parameters (rl_config db))"
    and e: "pending_net_usage (rl_state db') \<le> max_usage (net_limit_parameters (rl_config db))"
  have inv: "rl_inv k n db1" and st: "rl_state db1 = rl_state db" "rl_config db1 = rl_config db"
    using usage_frame_inv [OF fr assms(2)] fr by (auto simp: usage_frame_def)
  have "unat (pending_cpu_usage (rl_state db')) \<le> cap_usage k" "unat (pending_net_usage (rl_state db')) \<le> cap_usage k"
    using c e assms(2) by (auto simp: rl_inv_def block_inv_def params_ok_def word_le_nat_alt)
  then show "rl_inv k n db'"
    using inv st by (simp add: rl_inv_def totals_ok_def wf_usage_def block_inv_def db')
qed

lemma positive_part_neg1 [simp]: "positive_part (- 1) = 0"
  by (simp add: positive_part_def)

lemma new_account_inv:
  assumes "initialize_account a db = Inr db'" and "rl_inv k n db"
  shows "rl_inv k n db'"
proof -
  let ?o = "\<lparr>owner = a, net_weight = -1, cpu_weight = -1, ram_bytes = -1\<rparr> :: resource_limits_object"
  obtain u where new: "fm_lookup (limits_table db) (False, a) = None"
    and db': "db' = db\<lparr>limits_table := fm_update (False, a) ?o (limits_table db),
                     usage_table := fm_update a u (usage_table db)\<rparr>"
    using assms(1) by (auto simp: initialize_account_def db_create_def exc_simps split: option.splits)
  have ok: "fm_ok (limits_table db)" "fm_ok (usage_table db)"
    using assms(2) by (auto simp: rl_inv_def wf_limits_def wf_usage_def)
  have "limits_total f (limits_table db') = limits_total f (limits_table db)" if "f ?o = -1" for f
    using ok new that by (simp add: db' limits_total_update)
  then have "totals_ok db'" using assms(2) by (simp add: rl_inv_def totals_ok_def db')
  moreover have "wf_limits (limits_table db')" "wf_usage db'"
    using assms(2) ok by (auto simp: rl_inv_def wf_limits_def wf_usage_def db' fm_laws split: if_splits)
  ultimately show ?thesis using assms(2) by (simp add: rl_inv_def block_inv_def db')
qed

lemma set_account_limits_Inr:
  assumes "set_account_limits a r w c db = Inr (dec, db')" and "wf_limits (limits_table db)"
  obtains old where "get_account_limits db a = Inr (ram_bytes old, net_weight old, cpu_weight old)" and "owner old = a"
    and "dec \<longleftrightarrow> 0 \<le> sint r \<and> (sint (ram_bytes old) < 0 \<or> sint r < sint (ram_bytes old))"
    and "fm_lookup (limits_table db) (False, a) \<noteq> None"
    and "db' = db\<lparr>limits_table := fm_update (True, a)
           (old\<lparr>ram_bytes := r, net_weight := w, cpu_weight := c\<rparr>) (limits_table db)\<rparr>"
proof -
  have ok: "fm_ok (limits_table db)" and own: "\<And>b v x. fm_lookup (limits_table db) (b, x) = Some v \<Longrightarrow> owner v = x"
    using assms(2) by (auto simp: wf_limits_def)
  show thesis
  proof (cases "fm_lookup (limits_table db) (True, a)")
    case None
    then obtain l where l: "fm_lookup (limits_table db) (False, a) = Some l" and la: "owner l = a"
      using assms(1) own by (auto simp: set_account_limits_def exc_simps)
    have upd: "l\<lparr>ram_bytes := r, net_weight := w, cpu_weight := c\<rparr> =
        \<lparr>owner = owner l, net_weight = w, cpu_weight = c, ram_bytes = r\<rparr>" by simp
    show thesis
      by (rule that [of l])
        (use assms(1) None l la in \<open>auto simp: set_account_limits_def get_account_limits_def db_create_def db_get_def
           Let_def upd\<close>)
  next
    case (Some l)
    then have "fm_lookup (limits_table db) (False, a) \<noteq> None" using assms(2) by (auto simp: wf_limits_def)
    then show thesis
      by (intro that [of l])
        (use assms(1) Some own [OF Some] in \<open>auto simp: set_account_limits_def get_account_limits_def Let_def\<close>)
  qed
qed


lemma get_account_limits_pending:
  "fm_ok (limits_table db) \<Longrightarrow>
     get_account_limits (db\<lparr>limits_table := fm_update (True, a) v (limits_table db)\<rparr>) b =
       (if b = a then Inr (ram_bytes v, net_weight v, cpu_weight v) else get_account_limits db b)"
  by (simp add: get_account_limits_def db_get_def fm_laws split: option.splits)

lemma set_limits_inv:
  assumes "set_account_limits a r w c db = Inr (dec, db')" and "rl_inv k n db"
  shows "rl_inv k n db'"
proof -
  have wf: "wf_limits (limits_table db)" using assms(2) by (simp add: rl_inv_def)
  then have ok: "fm_ok (limits_table db)" by (simp add: wf_limits_def)
  from assms(1) wf show ?thesis
  proof (rule set_account_limits_Inr)
    fix old
    assume old: "owner old = a" and act: "fm_lookup (limits_table db) (False, a) \<noteq> None"
      and db': "db' = db\<lparr>limits_table := fm_update (True, a)
           (old\<lparr>ram_bytes := r, net_weight := w, cpu_weight := c\<rparr>) (limits_table db)\<rparr>"
    have "wf_limits (limits_table db')"
      using wf old act by (auto simp: wf_limits_def db' fm_laws split: if_splits)
    moreover have "totals_ok db'" "wf_usage db'" "block_inv k n db'"
      using assms(2) ok
      by (simp_all add: rl_inv_def totals_ok_def wf_usage_def block_inv_def db' limits_total_pending fm_laws)
    ultimately show ?thesis by (simp add: rl_inv_def)
  qed
qed

lemma apply_pending_frame:
  assumes "apply_pending_limits acct p db = Inr db'" and "fm_ok (limits_table db)"
  shows "block_inv k n db' = block_inv k n db"
    and "fm_lookup (limits_table db') (False, a) \<noteq> None \<longleftrightarrow> fm_lookup (limits_table db) (False, a) \<noteq> None"
  using assms
  by (auto simp: apply_pending_limits_def exc_simps block_inv_def fm_laws split: prod.splits if_splits)

lemma update_limits_frame:
  assumes "process_account_limit_updates db = Inr db'" and "wf_limits (limits_table db)" and "totals_ok db"
  shows "block_inv k n db' = block_inv k n db \<and>
    (\<forall>a. fm_lookup (limits_table db') (False, a) \<noteq> None \<longleftrightarrow> fm_lookup (limits_table db) (False, a) \<noteq> None)"
  using assms
proof (induction db rule: process_account_limit_updates.induct)
  case (1 db)
  note loop = process_loop_cases [OF "1.prems"(2)]
  show ?case
  proof (cases "fm_lower_bound (True, 0) (limits_table db)")
    case None
    with "1.prems" loop show ?thesis by auto
  next
    case (Some e)
    obtain pending acct p where e: "e = ((pending, acct), p)" by (metis surj_pair)
    have look: "pending" "fm_lookup (limits_table db) (True, acct) = Some p"
      using loop(2) Some e by auto
    obtain db1 where ap: "apply_pending_limits acct p db = Inr db1"
      and rest: "process_account_limit_updates db1 = Inr db'"
      using "1.prems"(1) loop(1) Some e by (auto simp: exc_simps)
    note step = apply_pending_step [OF ap "1.prems"(2,3) look(2)]
    have "fm_ok (limits_table db)" using "1.prems"(2) by (simp add: wf_limits_def)
    note frame = apply_pending_frame [OF ap this]
    have "limits_table db \<noteq> []" using Some by (auto simp: fm_lower_bound_def)
    from "1.IH" [OF this Some, of "(pending, acct)" p pending acct db1] e look ap rest step(1,2) frame
    show ?thesis by simp
  qed
qed

lemma parameters_inv:
  assumes "set_block_parameters cp np db = Inr db'" and "params_ok k cp" and "params_ok k np" and "rl_inv k n db"
  shows "rl_inv k n db'"
proof -
  have "db' = db\<lparr>rl_config := (rl_config db)\<lparr>cpu_limit_parameters := cp, net_limit_parameters := np\<rparr>\<rparr>"
    using assms(1) by (auto simp: set_block_parameters_def exc_simps)
  with assms(2-4) show ?thesis by (simp add: rl_inv_def totals_ok_def wf_usage_def block_inv_def)
qed

lemma block_step_inv:
  assumes "caps_ok k" and "process_block_usage n db = Inr db'" and "rl_inv k n db" and "n < n'"
  shows "rl_inv k n' db'"
proof -
  have "block_inv k n db" using assms(3) by (simp add: rl_inv_def)
  with assms(1) show ?thesis
    by (rule process_block_usage_defined)
      (use assms(2-4) in \<open>simp add: rl_inv_def totals_ok_def wf_usage_def\<close>)
qed

definition default_caps_ok :: "block_caps \<Rightarrow> bool" where
  "default_caps_ok k \<longleftrightarrow> caps_ok k \<and> params_ok k (cpu_limit_parameters default_limits_config) \<and>
     params_ok k (net_limit_parameters default_limits_config)"

lemma initialize_database_inv:
  assumes "default_caps_ok k" and "0 < n"
  shows "rl_inv k n initialize_database"
proof -
  have mult: "unat (max_usage p) \<le> cap_virtual k" if "params_ok k p" for p
  proof -
    have "unat (max_usage p) \<le> unat (max_usage p) * unat (max_multiplier p)"
      using that by (cases "unat (max_multiplier p)") (auto simp: params_ok_def unat_eq_0)
    also have "\<dots> \<le> cap_virtual k" using that by (simp add: params_ok_def)
    finally show ?thesis .
  qed
  show ?thesis
    using assms mult
    by (simp add: default_caps_ok_def rl_inv_def initialize_database_def totals_ok_def wf_limits_def wf_usage_def
        block_inv_def average_ok_def default_limits_state_def new_accumulator_def limits_total_def fm_sum_eq fm_laws fm_keys_def)
qed

lemma rl_reachable_inv:
  assumes "rl_reachable k n db" and "default_caps_ok k"
  shows "rl_inv k n db"
  using assms
proof (induction rule: rl_reachable.induct)
  case (init n)
  then show ?case by (rule initialize_database_inv [rotated])
next
  case (update_limits n db db')
  then have inv: "rl_inv k n db" by blast
  then have "wf_limits (limits_table db)" "totals_ok db" by (simp_all add: rl_inv_def)
  with update_limits(2) inv show ?case
    using process_limits_invariant [of db db'] update_limits_frame [of db db' k n]
    by (auto simp: rl_inv_def wf_usage_def)
next
  case (block n db db' n')
  then show ?case by (auto simp: default_caps_ok_def intro: block_step_inv)
qed (auto intro: new_account_inv set_limits_inv usage_frame_inv update_usage_frame add_ram_frame
    transaction_inv parameters_inv)


subsection \<open>The per-account share\<close>

lemma unat_u128_mult: "unat x * unat y < 2 ^ 128 \<Longrightarrow> unat (x * y :: u128) = unat x * unat y"
  by (simp add: unat_mult_no_overflow)

lemma unat_used_in_window: "unat (used_in_window v w) = unat v * unat w div 1000000"
proof -
  have "unat v * unat w \<le> 2 ^ 64 * 2 ^ 32"
    using unat_u64_bound [of v] unat_u32_bound [of w] by (intro mult_le_mono) auto
  then have "unat ((ucast v :: u128) * ucast w) = unat v * unat w"
    by (subst unat_u128_mult) auto
  then show ?thesis by (simp add: used_in_window_def unat_word_div)
qed

lemma unat_scast_nonneg:
  assumes "0 \<le> sint (x :: i64)"
  shows "unat (scast x :: u128) = unat x" and "unat x < 2 ^ 63"
proof -
  have b: "sint x < 2 ^ 63" using sint_i64_bounds [of x] by simp
  have "uint (scast x :: u128) = sint x"
    unfolding scast_eq uint_word_of_int using assms b by (intro mod_pos_pos_trivial) auto
  moreover have "uint x = sint x" using assms by (rule uint_eq_sint)
  ultimately show "unat (scast x :: u128) = unat x" by (metis unat_eq_nat_uint)
  show "unat x < 2 ^ 63" using b assms \<open>uint x = sint x\<close> by (simp add: unat_eq_nat_uint nat_less_iff)
qed

lemma unat_max_user_use_in_window:
  assumes "0 \<le> sint weight" and "unat virt < 2 ^ 33"
  shows "unat (max_user_use_in_window virt w weight tot) = unat virt * unat w * unat weight div unat tot"
proof -
  note sw = unat_scast_nonneg [OF assms(1)]
  have vw: "unat virt * unat w < 2 ^ 65"
  proof -
    have "unat virt * unat w \<le> (2 ^ 33 - 1) * 2 ^ 32"
      using assms(2) unat_u32_bound [of w] by (intro mult_le_mono) auto
    then show ?thesis by simp
  qed
  then have cap: "unat ((ucast virt :: u128) * ucast w) = unat virt * unat w"
    by (subst unat_u128_mult) auto
  have "unat virt * unat w * unat weight \<le> (2 ^ 65 - 1) * 2 ^ 63"
    using vw sw(2) by (intro mult_le_mono) auto
  then have "unat ((ucast virt :: u128) * ucast w * scast weight) = unat virt * unat w * unat weight"
    using cap sw(1) by (subst unat_u128_mult) auto
  then show ?thesis by (simp add: max_user_use_in_window_def Let_def unat_word_div)
qed


definition within_share :: "u64 \<Rightarrow> u32 \<Rightarrow> u64 \<Rightarrow> i64 \<Rightarrow> u64 \<Rightarrow> bool" where
  "within_share virt window tot weight v \<longleftrightarrow>
     (0 \<le> sint weight \<and> 0 < tot \<longrightarrow>
      unat v * unat window div 1000000 \<le> unat virt * unat window * unat weight div unat tot)"

text \<open>Account \<open>a\<close> has been charged: its averages moved by the usage, and stay within its share.\<close>

definition charged :: "u64 \<Rightarrow> u64 \<Rightarrow> u32 \<Rightarrow> resource_db \<Rightarrow> account_name \<Rightarrow> resource_usage_object option \<Rightarrow> bool" where
  "charged cpu net slot db a new \<longleftrightarrow>
     (\<exists>u u' rb nw cw. fm_lookup (usage_table db) a = Some u \<and> new = Some u' \<and>
        get_account_limits db a = Inr (rb, nw, cw) \<and> ram_usage u' = ram_usage u \<and>
        acc_add cpu slot (account_cpu_usage_average_window (rl_config db)) (cpu_usage u) = Inr (cpu_usage u') \<and>
        acc_add net slot (account_net_usage_average_window (rl_config db)) (net_usage u) = Inr (net_usage u') \<and>
        within_share (virtual_cpu_limit (rl_state db)) (account_cpu_usage_average_window (rl_config db))
          (total_cpu_weight (rl_state db)) cw (value_ex (cpu_usage u')) \<and>
        within_share (virtual_net_limit (rl_state db)) (account_net_usage_average_window (rl_config db))
          (total_net_weight (rl_state db)) nw (value_ex (net_usage u')))"

lemma charged_frame:
  assumes "usage_frame db1 db2" and look: "fm_lookup (usage_table db1) a = fm_lookup (usage_table db2) a"
  shows "charged cpu net slot db1 a new = charged cpu net slot db2 a new"
proof -
  have eqs: "limits_table db1 = limits_table db2" "rl_config db1 = rl_config db2" "rl_state db1 = rl_state db2"
    using assms(1) by (simp_all add: usage_frame_def)
  have "get_account_limits db1 a = get_account_limits db2 a" unfolding get_account_limits_def eqs ..
  then show ?thesis unfolding charged_def eqs look by simp
qed

lemma add_usage_charged:
  assumes "add_usage_of_account cpu net slot a db = Inr db'" and "fm_ok (usage_table db)"
    and "unat (virtual_cpu_limit (rl_state db)) < 2 ^ 33" and "unat (virtual_net_limit (rl_state db)) < 2 ^ 33"
  shows "charged cpu net slot db a (fm_lookup (usage_table db') a)"
    and "b \<noteq> a \<Longrightarrow> fm_lookup (usage_table db') b = fm_lookup (usage_table db) b"
    and "fm_ok (usage_table db')"
proof -
  obtain u rb nw cw bu where u: "fm_lookup (usage_table db) a = Some u"
    and lim: "get_account_limits db a = Inr (rb, nw, cw)"
    and add: "acc_window_add (rl_config db) net cpu slot u = Inr bu"
    and c: "sint cw \<ge> 0 \<and> total_cpu_weight (rl_state db) > 0 \<longrightarrow>
       used_in_window (value_ex (cpu_usage bu)) (account_cpu_usage_average_window (rl_config db))
         \<le> max_user_use_in_window (virtual_cpu_limit (rl_state db)) (account_cpu_usage_average_window (rl_config db))
             cw (total_cpu_weight (rl_state db))"
    and e: "sint nw \<ge> 0 \<and> total_net_weight (rl_state db) > 0 \<longrightarrow>
       used_in_window (value_ex (net_usage bu)) (account_net_usage_average_window (rl_config db))
         \<le> max_user_use_in_window (virtual_net_limit (rl_state db)) (account_net_usage_average_window (rl_config db))
             nw (total_net_weight (rl_state db))"
    and db': "db' = db\<lparr>usage_table := fm_update a bu (usage_table db)\<rparr>"
    using assms(1) by (force simp: add_usage_of_account_def Let_def exc_simps)
  show "b \<noteq> a \<Longrightarrow> fm_lookup (usage_table db') b = fm_lookup (usage_table db) b"
    and "fm_ok (usage_table db')" using assms(2) by (simp_all add: db' fm_laws)
  show "charged cpu net slot db a (fm_lookup (usage_table db') a)"
    unfolding charged_def within_share_def
    using u lim add c e assms(2-4)
    by (auto simp: db' fm_laws acc_window_add_def exc_simps word_le_nat_alt unat_used_in_window
        unat_max_user_use_in_window)
qed

lemma add_usage_efold_charged:
  assumes "efold (add_usage_of_account cpu net slot) as db = Inr db'" and "distinct as" and "fm_ok (usage_table db)"
    and "unat (virtual_cpu_limit (rl_state db)) < 2 ^ 33" and "unat (virtual_net_limit (rl_state db)) < 2 ^ 33"
  shows "(\<forall>a \<in> set as. charged cpu net slot db a (fm_lookup (usage_table db') a)) \<and>
    (\<forall>a. a \<notin> set as \<longrightarrow> fm_lookup (usage_table db') a = fm_lookup (usage_table db) a)"
  using assms
proof (induction as arbitrary: db)
  case (Cons x as)
  obtain db1 where first: "add_usage_of_account cpu net slot x db = Inr db1"
    and rest: "efold (add_usage_of_account cpu net slot) as db1 = Inr db'"
    using Cons.prems(1) by (auto simp: exc_simps)
  note head = add_usage_charged [OF first Cons.prems(3-5)]
  have fr: "usage_frame db db1" by (rule add_usage_frame [OF first])
  then have "rl_state db1 = rl_state db" by (simp add: usage_frame_def)
  then have IH: "\<forall>a \<in> set as. charged cpu net slot db1 a (fm_lookup (usage_table db') a)"
    "\<forall>a. a \<notin> set as \<longrightarrow> fm_lookup (usage_table db') a = fm_lookup (usage_table db1) a"
    using Cons.IH [OF rest] Cons.prems head(3) by auto
  have "charged cpu net slot db a (fm_lookup (usage_table db') a)" if "a \<in> set as" for a
  proof -
    have "fm_lookup (usage_table db) a = fm_lookup (usage_table db1) a"
      using that Cons.prems(2) head(2) [of a] by (cases "a = x") auto
    with that IH(1) charged_frame [OF fr] show ?thesis by blast
  qed
  then show ?case using head(1,2) IH(2) Cons.prems(2) by auto
qed simp

lemma efold_units_bound:
  assumes "efold (add_usage_of_account cpu net slot) as db = Inr db'" and "as \<noteq> []"
  shows "cpu \<le> max_raw_value" and "net \<le> max_raw_value"
  using assms
  by (cases as; auto simp: exc_simps add_usage_of_account_def acc_window_add_def acc_add_def Let_def)+


lemma pending_no_wrap:
  assumes "caps_ok k" and "unat p \<le> cap_usage k" and "u \<le> max_raw_value"
  shows "unat (p + u) = unat p + unat u"
proof -
  have "unat p + unat u < 2 ^ 64"
    using caps_sum_bound [OF assms(1)] assms(2,3) by (simp add: word_le_nat_alt)
  then show ?thesis by (simp add: unat_add_no_overflow)
qed

lemma add_pending_ram_Inr:
  "(EOS_ASSERT (sint d \<le> 0 \<or> UINT64_MAX - ram_usage u \<ge> d) transaction_exception
        (if sint d = INT64_MIN then Inl undefined_behavior
         else EOS_ASSERT (sint d \<ge> 0 \<or> ram_usage u \<ge> - d) transaction_exception (Inr v)) = Inr v') \<longleftrightarrow>
    sint d \<noteq> INT64_MIN \<and> 0 \<le> uint (ram_usage u) + sint d \<and> uint (ram_usage u) + sint d < 2 ^ 64 \<and> v' = v"
proof -
  have up: "d \<le> UINT64_MAX - ram_usage u \<longleftrightarrow> uint (ram_usage u) + uint d < 2 ^ 64"
  proof -
    have "n + m < 2 ^ 64 \<longleftrightarrow> int n + int m < 2 ^ 64" for n m :: nat by auto
    then show ?thesis unfolding no_overflow_u64 uint_nat .
  qed
  have down: "uint (- d) = - sint d" if "sint d < 0" "sint d \<noteq> INT64_MIN"
  proof -
    have "uint (word_of_int (- sint d) :: u64) = - sint d"
      unfolding uint_word_of_int using that sint_i64_bounds(1) [of d] by (intro mod_pos_pos_trivial) auto
    then show ?thesis by simp
  qed
  consider "0 \<le> sint d" | "sint d < 0" by linarith
  then show ?thesis
  proof cases
    case 1
    with up uint_eq_sint [OF 1] uint_u64_bound [of "ram_usage u"] show ?thesis
      by (auto simp: EOS_ASSERT_Inr_iff INT64_MIN_def)
  next
    case 2
    with down uint_u64_bound [of "ram_usage u"] show ?thesis
      by (auto simp: EOS_ASSERT_Inr_iff word_le_def)
  qed
qed

subsection \<open>Properties\<close>

text \<open>
  C23: adding usage to an average computes, in machine arithmetic, exactly the exponential moving
  average on natural numbers: the old average decays linearly over the window, the new units
  contribute their rounded-up share, and the tracked consumption is restarted from the average on
  a new ordinal. It succeeds exactly when no intermediate value overflows and time does not run
  backwards.
\<close>

theorem usage_average_refines:
  "acc_add units ordinal w a = Inr a' \<longleftrightarrow>
     acc_guard (unat units) (unat ordinal) (unat w) (acc_abs a) \<and>
     acc_abs a' = acc_spec (unat units) (unat ordinal) (unat w) (acc_abs a)"
  by (rule acc_add_refines_raw)

text \<open>
  C9: in every state the resource limits manager can reach, the limits table has one entry per key
  and a pending entry only beside an actual one, the running totals of RAM, CPU and NET are the
  sums of the positive actual limits, every account has both limits and usage, and pending usage,
  block averages and virtual limits respect the bounds on the block parameters.
\<close>

theorem resource_state_invariant:
  assumes "rl_reachable k n db" and "default_caps_ok k"
  shows "wf_limits (limits_table db) \<and> totals_ok db \<and> wf_usage db \<and> block_inv k n db"
  using rl_reachable_inv [OF assms] by (simp add: rl_inv_def)

definition chain_caps :: block_caps where
  "chain_caps = \<lparr>cap_usage = 1048576, cap_window = 120, cap_virtual = 1048576000, cap_rate = 1000\<rparr>"

lemma chain_caps_ok: "default_caps_ok chain_caps"
  by (simp add: default_caps_ok_def caps_ok_def params_ok_def chain_caps_def default_limits_config_def
      EOS_PERCENT_def default_max_block_cpu_usage_def default_max_block_net_usage_def make_ratio_def unat_word_div)

theorem resource_state_invariant_witness:
  "\<exists>db. initialize_account 5 initialize_database = Inr db \<and> wf_limits (limits_table db) \<and> totals_ok db \<and>
     wf_usage db \<and> block_inv chain_caps 1 db"
proof -
  obtain db where "initialize_account 5 initialize_database = Inr db"
    by (simp add: initialize_account_def initialize_database_def db_create_def fm_lookup_def)
  moreover from this have "rl_reachable chain_caps 1 db"
    by (intro rl_reachable.new_account [OF rl_reachable.init]) auto
  ultimately show ?thesis using resource_state_invariant chain_caps_ok by blast
qed





definition one_account :: "resource_db result" where
  "one_account = initialize_account 5 initialize_database"

lemma one_account_reachable: "one_account = Inr db \<Longrightarrow> rl_reachable chain_caps 1 db"
  unfolding one_account_def by (rule rl_reachable.new_account [OF rl_reachable.init]) auto


text \<open>
  C27: changing the RAM usage of an account is exact signed arithmetic: it succeeds exactly when
  the new usage is neither negative nor above 64 bits, and then stores that sum; the one delta
  whose negation overflows is undefined behaviour.
\<close>

theorem ram_usage_exact:
  "add_pending_ram_usage a d db = Inr db' \<longleftrightarrow>
     d = 0 \<and> db' = db \<or>
     d \<noteq> 0 \<and> (\<exists>u. fm_lookup (usage_table db) a = Some u \<and> sint d \<noteq> INT64_MIN \<and>
       0 \<le> uint (ram_usage u) + sint d \<and> uint (ram_usage u) + sint d < 2 ^ 64 \<and>
       db' = db\<lparr>usage_table := fm_update a
         (u\<lparr>ram_usage := word_of_int (uint (ram_usage u) + sint d)\<rparr>) (usage_table db)\<rparr>)"
proof -
  have eq: "word_of_int (uint x + sint d) = x + d" for x :: u64 by simp
  show ?thesis
  proof (cases "d = 0")
    case False
    then show ?thesis
      unfolding add_pending_ram_usage_def eq
      by (simp only: if_False ebind_Inr_iff db_get_Inr add_pending_ram_Inr) blast
  qed (auto simp: add_pending_ram_usage_def)
qed

text \<open>
  C26: limits that were set are the limits in force. After \<open>set_account_limits\<close> the account's
  limits read back as given, the result tells whether the RAM limit was lowered, and every other
  account's limits are as before; folding the pending limits into the actual ones later changes no
  account's limits and leaves no pending entry.
\<close>

theorem account_limits_take_effect:
  assumes "rl_reachable k n db" and "default_caps_ok k"
    and "set_account_limits a r w c db = Inr (dec, db1)" and "process_account_limit_updates db1 = Inr db2"
  shows "get_account_limits db1 a = Inr (r, w, c) \<and>
    (\<forall>b. b \<noteq> a \<longrightarrow> get_account_limits db1 b = get_account_limits db b) \<and>
    (\<exists>r0 w0 c0. get_account_limits db a = Inr (r0, w0, c0) \<and>
       (dec \<longleftrightarrow> 0 \<le> sint r \<and> (sint r0 < 0 \<or> sint r < sint r0))) \<and>
    (\<forall>b. get_account_limits db2 b = get_account_limits db1 b) \<and>
    (\<forall>b. fm_lookup (limits_table db2) (True, b) = None)"
proof -
  have inv: "rl_inv k n db" by (rule rl_reachable_inv [OF assms(1,2)])
  then have wf: "wf_limits (limits_table db)" and ok: "fm_ok (limits_table db)"
    by (auto simp: rl_inv_def wf_limits_def)
  have "rl_inv k n db1" by (rule set_limits_inv [OF assms(3) inv])
  then have after: "(\<forall>b. get_account_limits db2 b = get_account_limits db1 b) \<and>
    (\<forall>b. fm_lookup (limits_table db2) (True, b) = None)"
    using process_limits_invariant [OF assms(4)] by (simp add: rl_inv_def)
  from assms(3) wf show ?thesis
    by (rule set_account_limits_Inr)
      (use after ok in \<open>auto simp: get_account_limits_pending\<close>)
qed


theorem account_limits_take_effect_witness:
  "\<exists>db db1 db2. one_account = Inr db \<and> set_account_limits 5 1000 20 30 db = Inr (True, db1) \<and>
     process_account_limit_updates db1 = Inr db2 \<and> get_account_limits db2 5 = Inr (1000, 20, 30)"
proof -
  have "(case one_account of Inl e \<Rightarrow> False | Inr db \<Rightarrow>
      (case set_account_limits 5 1000 20 30 db of Inl e \<Rightarrow> False | Inr (dec, db1) \<Rightarrow>
        dec \<and> \<not> isl (process_account_limit_updates db1)))" by code_simp
  then obtain db db1 db2 where run: "one_account = Inr db" "set_account_limits 5 1000 20 30 db = Inr (True, db1)"
      "process_account_limit_updates db1 = Inr db2"
    by (auto simp: not_isl_iff split: sum.splits)
  from account_limits_take_effect [OF one_account_reachable [OF run(1)] chain_caps_ok run(2,3)] run
  show ?thesis by auto
qed


end
