(* ===== verification/Access_Lists.thy ===== *)
theory Access_Lists
  imports Authority
begin

text \<open>
  The white and black lists a producing node applies: \<open>check_actor_list\<close>, \<open>check_contract_list\<close>,
  \<open>check_action_list\<close> and \<open>check_key_list\<close> of \<open>controller.cpp\<close>. A list is a set kept as a sorted
  sequence, and an iterator into it is what remains of it. The check of the actors walks both
  sequences once; the lemmas show that it decides the inclusion, or the disjointness, of the sets.
\<close>

record access_lists =
  sender_bypass_whiteblacklist :: "account_name list"
  actor_whitelist :: "account_name list"
  actor_blacklist :: "account_name list"
  contract_whitelist :: "account_name list"
  contract_blacklist :: "account_name list"
  action_blacklist :: "(account_name \<times> action_name) list"
  key_blacklist :: "public_key_type list"

definition std_lower_bound :: "'a::linorder list \<Rightarrow> 'a \<Rightarrow> 'a list" where
  "std_lower_bound rest x = dropWhile (\<lambda>y. y < x) rest"

fun whitelist_loop :: "account_name list \<Rightarrow> account_name list \<Rightarrow> bool" where
  "whitelist_loop lower_bound [] = True"
| "whitelist_loop lower_bound (actor # actors) =
     (case std_lower_bound lower_bound actor of
        [] \<Rightarrow> False
      | w # rest \<Rightarrow> if w \<noteq> actor then False else whitelist_loop rest actors)"

fun blacklist_loop :: "account_name list \<Rightarrow> account_name list \<Rightarrow> bool" where
  "blacklist_loop lower_bound [] = False"
| "blacklist_loop lower_bound (actor # actors) =
     (case std_lower_bound lower_bound actor of
        [] \<Rightarrow> False
      | w # rest \<Rightarrow> if w = actor then True else blacklist_loop (w # rest) actors)"

definition check_actor_list :: "access_lists \<Rightarrow> account_name list \<Rightarrow> unit result" where
  "check_actor_list conf actors =
     (if actors = [] then Inr ()
      else if actor_whitelist conf \<noteq> [] then
        let whitelist = actor_whitelist conf;
            is_subset = (if hd actors \<ge> hd whitelist \<and> last actors \<le> last whitelist
                         then whitelist_loop whitelist actors else False)
        in EOS_ASSERT is_subset actor_whitelist_exception (Inr ())
      else if actor_blacklist conf \<noteq> [] then
        let blacklist = actor_blacklist conf;
            intersects = (if hd actors \<le> last blacklist \<and> last actors \<ge> hd blacklist
                          then blacklist_loop blacklist actors else False)
        in EOS_ASSERT (\<not> intersects) actor_blacklist_exception (Inr ())
      else Inr ())"

definition check_contract_list :: "access_lists \<Rightarrow> account_name \<Rightarrow> unit result" where
  "check_contract_list conf code =
     (if contract_whitelist conf \<noteq> [] then
        EOS_ASSERT (code \<in> set (contract_whitelist conf)) contract_whitelist_exception (Inr ())
      else if contract_blacklist conf \<noteq> [] then
        EOS_ASSERT (code \<notin> set (contract_blacklist conf)) contract_blacklist_exception (Inr ())
      else Inr ())"

definition check_action_list :: "access_lists \<Rightarrow> account_name \<Rightarrow> action_name \<Rightarrow> unit result" where
  "check_action_list conf code action =
     (if action_blacklist conf \<noteq> [] then
        EOS_ASSERT ((code, action) \<notin> set (action_blacklist conf)) action_blacklist_exception (Inr ())
      else Inr ())"

definition check_key_list :: "access_lists \<Rightarrow> public_key_type \<Rightarrow> unit result" where
  "check_key_list conf key =
     (if key_blacklist conf \<noteq> [] then EOS_ASSERT (key \<notin> set (key_blacklist conf)) key_blacklist_exception (Inr ())
      else Inr ())"

definition sender_avoids_whitelist_blacklist_enforcement :: "access_lists \<Rightarrow> account_name \<Rightarrow> bool" where
  "sender_avoids_whitelist_blacklist_enforcement conf sender \<longleftrightarrow>
     sender_bypass_whiteblacklist conf \<noteq> [] \<and> sender \<in> set (sender_bypass_whiteblacklist conf)"

subsection \<open>The walks decide inclusion and disjointness\<close>

lemma std_lower_bound_sorted:
  assumes "sorted_wrt (<) rest"
  shows "set (std_lower_bound rest x) = {y \<in> set rest. x \<le> y}" and "sorted_wrt (<) (std_lower_bound rest x)"
  using assms by (induction rest) (auto simp: std_lower_bound_def not_less)

lemma std_lower_bound_head:
  assumes "sorted_wrt (<) rest" and "std_lower_bound rest x = w # ws"
  shows "x \<in> set rest \<longleftrightarrow> w = x"
proof -
  have lb: "insert w (set ws) = {y \<in> set rest. x \<le> y}" "\<forall>y \<in> set ws. w < y"
    using std_lower_bound_sorted [OF assms(1), of x] unfolding assms(2) by simp_all
  have "x \<in> set ws \<Longrightarrow> w = x" using lb by (metis (no_types, lifting) insertI1 leD mem_Collect_eq)
  moreover have "x \<in> set rest \<Longrightarrow> x \<in> insert w (set ws)" unfolding lb(1) by simp
  moreover have "w \<in> set rest" using lb(1) by blast
  ultimately show ?thesis by blast
qed

lemma std_lower_bound_empty:
  assumes "sorted_wrt (<) rest" and "std_lower_bound rest x = []" and "x \<le> y"
  shows "y \<notin> set rest"
  using assms std_lower_bound_sorted(1) [OF assms(1), of x] by auto

lemma whitelist_loop_subset:
  assumes "sorted_wrt (<) rest" and "sorted_wrt (<) actors"
  shows "whitelist_loop rest actors \<longleftrightarrow> set actors \<subseteq> set rest"
  using assms
proof (induction actors arbitrary: rest)
  case (Cons a actors)
  show ?case
  proof (cases "std_lower_bound rest a")
    case Nil
    then show ?thesis using std_lower_bound_empty [OF Cons.prems(1) Nil, of a] by auto
  next
    case (Cons w ws)
    note lb = std_lower_bound_sorted [OF Cons.prems(1), of a, unfolded Cons]
    show ?thesis
    proof (cases "w = a")
      case True
      have "set actors \<subseteq> set ws \<longleftrightarrow> set actors \<subseteq> set rest"
      proof -
        have ws: "insert a (set ws) = {y \<in> set rest. a \<le> y}" using lb(1) True by simp
        have "y \<in> set ws \<longleftrightarrow> y \<in> set rest" if "y \<in> set actors" for y
        proof -
          have "a < y" using Cons.prems(2) that by simp
          then have "y \<noteq> a" "a \<le> y" by simp_all
          then show ?thesis using ws by blast
        qed
        then show ?thesis by blast
      qed
      moreover have "a \<in> set rest" using std_lower_bound_head [OF Cons.prems(1) Cons] True by simp
      ultimately show ?thesis using Cons.IH [of ws] Cons.prems(2) lb(2) Cons True by simp
    next
      case False
      then have "a \<notin> set rest" using std_lower_bound_head [OF Cons.prems(1) Cons] by simp
      then show ?thesis using Cons False by simp
    qed
  qed
qed simp

lemma blacklist_loop_meets:
  assumes "sorted_wrt (<) rest" and "sorted_wrt (<) actors"
  shows "blacklist_loop rest actors \<longleftrightarrow> set actors \<inter> set rest \<noteq> {}"
  using assms
proof (induction actors arbitrary: rest)
  case (Cons a actors)
  show ?case
  proof (cases "std_lower_bound rest a")
    case Nil
    then have "y \<notin> set rest" if "y \<in> set (a # actors)" for y
      using std_lower_bound_empty [OF Cons.prems(1) Nil, of y] that Cons.prems(2) by (auto dest: less_imp_le)
    then show ?thesis using Nil by auto
  next
    case (Cons w ws)
    note lb = std_lower_bound_sorted [OF Cons.prems(1), of a, unfolded Cons]
    show ?thesis
    proof (cases "w = a")
      case True
      then show ?thesis using std_lower_bound_head [OF Cons.prems(1) Cons] Cons by auto
    next
      case False
      have "a \<notin> set rest" using std_lower_bound_head [OF Cons.prems(1) Cons] False by simp
      moreover have "set actors \<inter> set (w # ws) = set actors \<inter> set rest"
        unfolding lb(1) using Cons.prems(2) by (auto dest: less_imp_le)
      ultimately show ?thesis using Cons.IH [OF lb(2)] Cons.prems(2) Cons False by simp
    qed
  qed
qed simp

lemma sorted_bounds:
  assumes "sorted_wrt (<) (xs :: 'a::linorder list)" and "x \<in> set xs"
  shows "hd xs \<le> x" and "x \<le> last xs"
proof -
  have le: "sorted_wrt (\<le>) xs" using assms(1) by (rule sorted_wrt_mono_rel [rotated]) simp
  then show "hd xs \<le> x" using assms(2) by (cases xs) auto
  show "x \<le> last xs" using le assms(2) by (induction xs) auto
qed

text \<open>
  C36: the single walk over the actors and the list, with its test of the extents first, decides what
  it is for. With a whitelist the actors pass exactly when all of them are on it; without one, and
  with a blacklist, exactly when none of them is on it; otherwise they always pass.
\<close>

theorem check_actor_list_exact:
  assumes "sorted_wrt (<) actors" and "sorted_wrt (<) (actor_whitelist conf)" and "sorted_wrt (<) (actor_blacklist conf)"
  shows "check_actor_list conf actors =
    (if actors \<noteq> [] \<and> actor_whitelist conf \<noteq> [] then
       if set actors \<subseteq> set (actor_whitelist conf) then Inr () else Inl actor_whitelist_exception
     else if set actors \<inter> set (actor_blacklist conf) = {} then Inr () else Inl actor_blacklist_exception)"
proof (cases "actors = []")
  case False
  have ends: "hd actors \<in> set actors" "last actors \<in> set actors" using False by auto
  have wl: "hd (actor_whitelist conf) \<le> hd actors \<and> last actors \<le> last (actor_whitelist conf)"
    if "set actors \<subseteq> set (actor_whitelist conf)"
    using that ends sorted_bounds [OF assms(2)] by blast
  have bl: "hd actors \<le> last (actor_blacklist conf) \<and> hd (actor_blacklist conf) \<le> last actors"
    if common: "x \<in> set actors" "x \<in> set (actor_blacklist conf)" for x
    using sorted_bounds [OF assms(1) common(1)] sorted_bounds [OF assms(3) common(2)] by force
  show ?thesis
    using False wl bl whitelist_loop_subset [OF assms(2,1)] blacklist_loop_meets [OF assms(3,1)]
    by (auto simp: check_actor_list_def Let_def EOS_ASSERT_def)
qed (simp add: check_actor_list_def)

theorem check_actor_list_exact_witness:
  "check_actor_list \<lparr>sender_bypass_whiteblacklist = [], actor_whitelist = [2, 4, 6, 9], actor_blacklist = [],
     contract_whitelist = [], contract_blacklist = [], action_blacklist = [], key_blacklist = []\<rparr> [4, 9] = Inr () \<and>
   check_actor_list \<lparr>sender_bypass_whiteblacklist = [], actor_whitelist = [2, 4, 6, 9], actor_blacklist = [],
     contract_whitelist = [], contract_blacklist = [], action_blacklist = [], key_blacklist = []\<rparr> [4, 7] =
   Inl actor_whitelist_exception"
  by (subst (1 2) check_actor_list_exact) simp_all
end
