(* ===== verification/Chain_Config.thy ===== *)
theory Chain_Config
  imports Prelude
begin

text \<open>
  The parameters of the chain that producers vote for: \<open>chain_config.hpp\<close> and
  \<open>chain_config.cpp\<close>. The lemmas show that a validated configuration has the room between its
  limits that the rest of the code relies on, without wrap-around in the comparisons.
\<close>

record chain_config =
  max_block_net_usage :: u64
  target_block_net_usage_pct :: u32
  max_transaction_net_usage :: u32
  base_per_transaction_net_usage :: u32
  net_usage_leeway :: u32
  context_free_discount_net_usage_num :: u32
  context_free_discount_net_usage_den :: u32
  max_block_cpu_usage :: u32
  target_block_cpu_usage_pct :: u32
  max_transaction_cpu_usage :: u32
  min_transaction_cpu_usage :: u32
  max_transaction_lifetime :: u32
  deferred_trx_expiration_window :: u32
  cfg_max_transaction_delay :: u32
  max_inline_action_size :: u32
  max_inline_action_depth :: u16
  cfg_max_authority_depth :: u16

definition percent_100 :: u32 where
  "percent_100 = 10000"

definition percent_1 :: u32 where
  "percent_1 = 100"

definition min_net_usage_delta_between_base_and_max_for_trx :: u32 where
  "min_net_usage_delta_between_base_and_max_for_trx = 10 * 1024"

definition chain_config_validate :: "chain_config \<Rightarrow> unit result" where
  "chain_config_validate c =
     EOS_ASSERT (target_block_net_usage_pct c \<le> percent_100) action_validate_exception
     (EOS_ASSERT (target_block_net_usage_pct c \<ge> percent_1 div 10) action_validate_exception
     (EOS_ASSERT (target_block_cpu_usage_pct c \<le> percent_100) action_validate_exception
     (EOS_ASSERT (target_block_cpu_usage_pct c \<ge> percent_1 div 10) action_validate_exception
     (EOS_ASSERT ((ucast (max_transaction_net_usage c) :: u64) < max_block_net_usage c) action_validate_exception
     (EOS_ASSERT (max_transaction_cpu_usage c < max_block_cpu_usage c) action_validate_exception
     (EOS_ASSERT (base_per_transaction_net_usage c < max_transaction_net_usage c) action_validate_exception
     (EOS_ASSERT (max_transaction_net_usage c - base_per_transaction_net_usage c \<ge> min_net_usage_delta_between_base_and_max_for_trx)
        action_validate_exception
     (EOS_ASSERT (context_free_discount_net_usage_den c > 0) action_validate_exception
     (EOS_ASSERT (context_free_discount_net_usage_num c \<le> context_free_discount_net_usage_den c) action_validate_exception
     (EOS_ASSERT (min_transaction_cpu_usage c \<le> max_transaction_cpu_usage c) action_validate_exception
     (EOS_ASSERT (max_transaction_cpu_usage c < max_block_cpu_usage c - min_transaction_cpu_usage c) action_validate_exception
     (EOS_ASSERT (1 \<le> cfg_max_authority_depth c) action_validate_exception
     (Inr ())))))))))))))"

definition chain_config_eq :: "chain_config \<Rightarrow> chain_config \<Rightarrow> bool" where
  "chain_config_eq l r \<longleftrightarrow>
     max_block_net_usage l = max_block_net_usage r \<and>
     target_block_net_usage_pct l = target_block_net_usage_pct r \<and>
     max_transaction_net_usage l = max_transaction_net_usage r \<and>
     base_per_transaction_net_usage l = base_per_transaction_net_usage r \<and>
     net_usage_leeway l = net_usage_leeway r \<and>
     context_free_discount_net_usage_num l = context_free_discount_net_usage_num r \<and>
     context_free_discount_net_usage_den l = context_free_discount_net_usage_den r \<and>
     max_block_cpu_usage l = max_block_cpu_usage r \<and>
     target_block_cpu_usage_pct l = target_block_cpu_usage_pct r \<and>
     max_transaction_cpu_usage l = max_transaction_cpu_usage r \<and>
     max_transaction_cpu_usage l = max_transaction_cpu_usage r \<and>
     max_transaction_lifetime l = max_transaction_lifetime r \<and>
     deferred_trx_expiration_window l = deferred_trx_expiration_window r \<and>
     cfg_max_transaction_delay l = cfg_max_transaction_delay r \<and>
     max_inline_action_size l = max_inline_action_size r \<and>
     max_inline_action_depth l = max_inline_action_depth r \<and>
     cfg_max_authority_depth l = cfg_max_authority_depth r"

text \<open>The comparison ignores the least CPU usage of a transaction.\<close>

lemma chain_config_eq_ignores_min_cpu: "chain_config_eq c (c\<lparr>min_transaction_cpu_usage := m\<rparr>)"
  by (simp add: chain_config_eq_def)

text \<open>What a configuration has to be, on numbers.\<close>

definition config_ok :: "chain_config \<Rightarrow> bool" where
  "config_ok c \<longleftrightarrow>
     unat (target_block_net_usage_pct c) \<in> {10..10000} \<and> unat (target_block_cpu_usage_pct c) \<in> {10..10000} \<and>
     unat (base_per_transaction_net_usage c) + 10240 \<le> unat (max_transaction_net_usage c) \<and>
     unat (max_transaction_net_usage c) < unat (max_block_net_usage c) \<and>
     0 < context_free_discount_net_usage_den c \<and>
     unat (context_free_discount_net_usage_num c) \<le> unat (context_free_discount_net_usage_den c) \<and>
     unat (min_transaction_cpu_usage c) \<le> unat (max_transaction_cpu_usage c) \<and>
     unat (max_transaction_cpu_usage c) + unat (min_transaction_cpu_usage c) < unat (max_block_cpu_usage c) \<and>
     1 \<le> unat (cfg_max_authority_depth c)"

lemma unat_diff_less: "unat (y :: u32) \<le> unat x \<Longrightarrow> unat (x - y) = unat x - unat y"
  by (simp add: unat_sub word_le_nat_alt)

text \<open>
  C40: a configuration passes validation exactly when its limits are ordered with room between
  them: base and largest network usage of a transaction are ten kilobytes apart and below that of a
  block, a transaction and the least billed one together fit in the CPU time of a block, the
  discount is a ratio up to one and the targets are between a thousandth and the whole. None of the
  unsigned differences in the checks wraps around.
\<close>

theorem chain_config_validate_exact: "chain_config_validate c = Inr () \<longleftrightarrow> config_ok c"
proof -
  have net: "base_per_transaction_net_usage c < max_transaction_net_usage c \<and>
      min_net_usage_delta_between_base_and_max_for_trx \<le> max_transaction_net_usage c - base_per_transaction_net_usage c \<longleftrightarrow>
    unat (base_per_transaction_net_usage c) + 10240 \<le> unat (max_transaction_net_usage c)"
    using unat_diff_less [of "base_per_transaction_net_usage c" "max_transaction_net_usage c"]
    by (auto simp: word_less_nat_alt word_le_nat_alt min_net_usage_delta_between_base_and_max_for_trx_def)
  have cpu: "max_transaction_cpu_usage c < max_block_cpu_usage c \<and> min_transaction_cpu_usage c \<le> max_transaction_cpu_usage c \<and>
      max_transaction_cpu_usage c < max_block_cpu_usage c - min_transaction_cpu_usage c \<longleftrightarrow>
    unat (min_transaction_cpu_usage c) \<le> unat (max_transaction_cpu_usage c) \<and>
      unat (max_transaction_cpu_usage c) + unat (min_transaction_cpu_usage c) < unat (max_block_cpu_usage c)"
    using unat_diff_less [of "min_transaction_cpu_usage c" "max_block_cpu_usage c"]
    by (auto simp: word_less_nat_alt word_le_nat_alt)
  have pct: "percent_1 div 10 \<le> p \<and> p \<le> percent_100 \<longleftrightarrow> unat p \<in> {10..10000}" for p
    by (simp add: percent_1_def percent_100_def word_le_nat_alt)
  have block: "(ucast (max_transaction_net_usage c) :: u64) < max_block_net_usage c \<longleftrightarrow>
      unat (max_transaction_net_usage c) < unat (max_block_net_usage c)"
    by (simp add: word_less_nat_alt)
  have depth: "1 \<le> cfg_max_authority_depth c \<longleftrightarrow> 1 \<le> unat (cfg_max_authority_depth c)" by (simp add: word_le_nat_alt)
  have ratio: "context_free_discount_net_usage_num c \<le> context_free_discount_net_usage_den c \<longleftrightarrow>
      unat (context_free_discount_net_usage_num c) \<le> unat (context_free_discount_net_usage_den c)" by (simp add: word_le_nat_alt)
  show ?thesis
    unfolding config_ok_def chain_config_validate_def EOS_ASSERT_Inr_iff
    using net cpu pct [of "target_block_net_usage_pct c"] pct [of "target_block_cpu_usage_pct c"] block depth ratio by blast
qed

end
