(* ===== verification/Transaction_Context.thy ===== *)
theory Transaction_Context
  imports Transaction Resource_Limits Access_Lists Chain_Config
begin

text \<open>
  The context a transaction runs in: \<open>transaction_context.cpp\<close>, with the checks of expiration and
  reference block of \<open>controller.cpp\<close>. The context bounds the network and CPU usage of the
  transaction, bills the accounts that authorized it and schedules delayed transactions. Times are
  microseconds. The clock is a sequence of readings and a counter of the readings made so far; the
  signal of the deadline timer and the state of the controller are parameters. The lemmas show
  that the limits set up at the start are the least of all that apply, and what a finished
  transaction has been billed.
\<close>

subsection \<open>The database and the controller\<close>

record account_object =
  ao_vm_type :: u8
  ao_vm_version :: u8
  ao_privileged :: bool
  ao_last_code_update :: time_point
  ao_code_version :: digest_type
  ao_creation_date :: block_timestamp_type
  ao_code :: "u8 list"
  ao_abi :: "u8 list"

record account_sequence_object =
  recv_sequence :: u64
  auth_sequence :: u64
  code_sequence :: u64
  abi_sequence :: u64

record action_receipt =
  ar_receiver :: account_name
  ar_act_digest :: digest_type
  ar_global_sequence :: u64
  ar_recv_sequence :: u64
  ar_auth_sequence :: "(account_name, u64) flat_map"
  ar_code_sequence :: u32
  ar_abi_sequence :: u32

record chain_db = auth_db +
  account_index :: "(account_name, account_object) flat_map"
  account_sequence_index :: "(account_name, account_sequence_object) flat_map"
  resources :: resource_db
  transactions :: "(transaction_id_type \<times> u32) list"
  global_action_sequence :: u64

record controller_env =
  ctl_auth :: auth_env
  ctl_lists :: access_lists
  configuration :: chain_config
  is_producing_block :: bool
  skip_auth_check :: bool
  skip_trx_checks :: bool
  allow_ram_billing_in_notify :: bool
  resource_greylist :: "account_name list"
  head_block_id :: block_id_type
  block_summary :: "u16 \<Rightarrow> block_id_type"
  ctl_crypto :: crypto
  ctl_codec :: trx_codec
  now_at :: "nat \<Rightarrow> time_point"
  use_deadline_timer :: bool
  timer_overhead :: int
  setitimer_fails :: "nat \<Rightarrow> bool"
  timer_fired :: "nat \<Rightarrow> bool"

definition is_ram_billing_in_notify_allowed :: "controller_env \<Rightarrow> bool" where
  "is_ram_billing_in_notify_allowed ctl \<longleftrightarrow> \<not> is_producing_block ctl \<or> allow_ram_billing_in_notify ctl"

definition is_resource_greylisted :: "controller_env \<Rightarrow> account_name \<Rightarrow> bool" where
  "is_resource_greylisted ctl nm \<longleftrightarrow> nm \<in> set (resource_greylist ctl)"

definition block_time :: "controller_env \<Rightarrow> time_point" where
  "block_time ctl = pending_block_time (ctl_auth ctl)"

definition block_slot :: "controller_env \<Rightarrow> u32" where
  "block_slot ctl = set_time_point (word_of_int (block_time ctl))"

definition validate_expiration :: "controller_env \<Rightarrow> 'a transaction_header_scheme \<Rightarrow> unit result" where
  "validate_expiration ctl t =
     EOS_ASSERT (seconds (expiration t) \<ge> block_time ctl) expired_tx_exception
     (EOS_ASSERT (seconds (expiration t) \<le> block_time ctl + seconds (max_transaction_lifetime (configuration ctl)))
        tx_exp_too_far_exception (Inr ()))"

definition validate_tapos :: "controller_env \<Rightarrow> 'a transaction_header_scheme \<Rightarrow> unit result" where
  "validate_tapos ctl t =
     EOS_ASSERT (verify_reference_block (ctl_crypto ctl) (block_summary ctl (ref_block_num t)) t)
       invalid_ref_block_exception (Inr ())"

subsection \<open>The context\<close>

record transaction_context =
  trx :: signed_transaction
  tc_id :: transaction_id_type
  start :: time_point
  published :: time_point
  executed :: "action_receipt list"
  bill_to_accounts :: "account_name list"
  validate_ram_usage :: "account_name list"
  delay :: int
  is_input :: bool
  apply_context_free :: bool
  enforce_whiteblacklist :: bool
  deadline :: time_point
  leeway :: int
  billed_cpu_time_us :: int
  explicit_billed_cpu_time :: bool
  is_initialized :: bool
  net_limit :: u64
  net_limit_due_to_block :: bool
  net_limit_due_to_greylist :: bool
  eager_net_limit :: u64
  trx_net_usage :: u64
  cpu_limit_due_to_greylist :: bool
  initial_objective_duration_limit :: int
  objective_duration_limit :: int
  hard_deadline :: time_point
  deadline_exception_code :: chain_exception
  billing_timer_exception_code :: chain_exception
  pseudo_start :: time_point
  billed_time :: int
  billing_timer_duration_limit :: int
  timer_expired :: bool
  clock :: nat

definition make_transaction_context ::
  "signed_transaction \<Rightarrow> transaction_id_type \<Rightarrow> time_point \<Rightarrow> bool \<Rightarrow> nat \<Rightarrow> transaction_context result" where
  "make_transaction_context t i s expired readings =
     EOS_ASSERT (transaction_extensions t = []) unsupported_feature
     (Inr \<lparr>trx = t, tc_id = i, start = s, published = 0, executed = [], bill_to_accounts = [], validate_ram_usage = [],
       delay = 0, is_input = False, apply_context_free = True, enforce_whiteblacklist = True, deadline = INT64_MAX,
       leeway = 3000, billed_cpu_time_us = 0, explicit_billed_cpu_time = False, is_initialized = False, net_limit = 0,
       net_limit_due_to_block = True, net_limit_due_to_greylist = False, eager_net_limit = 0, trx_net_usage = 0,
       cpu_limit_due_to_greylist = False, initial_objective_duration_limit = 0, objective_duration_limit = 0,
       hard_deadline = INT64_MAX, deadline_exception_code = block_cpu_usage_exceeded,
       billing_timer_exception_code = block_cpu_usage_exceeded, pseudo_start = s, billed_time = 0,
       billing_timer_duration_limit = 0, timer_expired = expired, clock = readings\<rparr>)"

text \<open>The deadline timer. A reading of the clock moves the counter on.\<close>

definition deadline_timer_start :: "controller_env \<Rightarrow> time_point \<Rightarrow> transaction_context \<Rightarrow> transaction_context" where
  "deadline_timer_start ctl tp tc =
     (if tp = INT64_MAX then tc\<lparr>timer_expired := False\<rparr>
      else if \<not> use_deadline_timer ctl then tc\<lparr>timer_expired := True\<rparr>
      else
        let x = tp - now_at ctl (clock tc) in
        tc\<lparr>timer_expired := (if x \<le> timer_overhead ctl then True else setitimer_fails ctl (clock tc)), clock := clock tc + 1\<rparr>)"

definition tc_checktime :: "controller_env \<Rightarrow> transaction_context \<Rightarrow> transaction_context result" where
  "tc_checktime ctl tc =
     (let expired = (timer_expired tc \<or> timer_fired ctl (clock tc)); now = now_at ctl (clock tc);
          tc = tc\<lparr>timer_expired := expired, clock := clock tc + 1\<rparr>
      in if \<not> expired then Inr tc
      else if now > hard_deadline tc then
        (if explicit_billed_cpu_time tc \<or> deadline_exception_code tc = deadline_exception then Inl deadline_exception
         else if deadline_exception_code tc = block_cpu_usage_exceeded then Inl block_cpu_usage_exceeded
         else if deadline_exception_code tc = tx_cpu_usage_exceeded then
           (if cpu_limit_due_to_greylist tc then Inl greylist_cpu_usage_exceeded else Inl tx_cpu_usage_exceeded)
         else if deadline_exception_code tc = leeway_deadline_exception then Inl leeway_deadline_exception
         else Inl transaction_exception)
      else Inr tc)"

definition pause_billing_timer :: "controller_env \<Rightarrow> transaction_context \<Rightarrow> transaction_context" where
  "pause_billing_timer ctl tc =
     (if explicit_billed_cpu_time tc \<or> pseudo_start tc = 0 then tc
      else tc\<lparr>billed_time := now_at ctl (clock tc) - pseudo_start tc, deadline_exception_code := deadline_exception,
              pseudo_start := 0, clock := clock tc + 1\<rparr>)"

definition resume_billing_timer :: "controller_env \<Rightarrow> transaction_context \<Rightarrow> transaction_context" where
  "resume_billing_timer ctl tc =
     (if explicit_billed_cpu_time tc \<or> pseudo_start tc \<noteq> 0 then tc
      else
        let tc = tc\<lparr>pseudo_start := now_at ctl (clock tc) - billed_time tc, clock := clock tc + 1\<rparr>;
            tc = (if pseudo_start tc + billing_timer_duration_limit tc \<le> deadline tc
                  then tc\<lparr>hard_deadline := pseudo_start tc + billing_timer_duration_limit tc,
                          deadline_exception_code := billing_timer_exception_code tc\<rparr>
                  else tc\<lparr>hard_deadline := deadline tc, deadline_exception_code := deadline_exception\<rparr>)
        in deadline_timer_start ctl (hard_deadline tc) tc)"

subsection \<open>Limits and billing\<close>

definition check_net_usage :: "controller_env \<Rightarrow> transaction_context \<Rightarrow> unit result" where
  "check_net_usage ctl tc =
     (if \<not> skip_trx_checks ctl then
        if trx_net_usage tc > eager_net_limit tc then
          if net_limit_due_to_block tc then Inl block_net_usage_exceeded
          else if net_limit_due_to_greylist tc then Inl greylist_net_usage_exceeded
          else Inl tx_net_usage_exceeded
        else Inr ()
      else Inr ())"

definition add_net_usage :: "controller_env \<Rightarrow> u64 \<Rightarrow> transaction_context \<Rightarrow> transaction_context result" where
  "add_net_usage ctl u tc =
     (let tc = tc\<lparr>trx_net_usage := trx_net_usage tc + u\<rparr> in ebind (check_net_usage ctl tc) (\<lambda>_. Inr tc))"

definition validate_cpu_usage_to_bill :: "controller_env \<Rightarrow> int \<Rightarrow> bool \<Rightarrow> transaction_context \<Rightarrow> unit result" where
  "validate_cpu_usage_to_bill ctl billed_us check_minimum tc =
     (if \<not> skip_trx_checks ctl then
        EOS_ASSERT (check_minimum \<longrightarrow> billed_us \<ge> uint (min_transaction_cpu_usage (configuration ctl))) transaction_exception
        (if billing_timer_exception_code tc = block_cpu_usage_exceeded then
           EOS_ASSERT (billed_us \<le> objective_duration_limit tc) block_cpu_usage_exceeded (Inr ())
         else if cpu_limit_due_to_greylist tc then
           EOS_ASSERT (billed_us \<le> objective_duration_limit tc) greylist_cpu_usage_exceeded (Inr ())
         else
           EOS_ASSERT (billed_us \<le> objective_duration_limit tc) tx_cpu_usage_exceeded (Inr ()))
      else Inr ())"

definition set_insert :: "account_name \<Rightarrow> account_name list \<Rightarrow> account_name list" where
  "set_insert a xs = fst (flat_set_insert (<) a xs)"

definition tc_add_ram_usage ::
  "account_name \<Rightarrow> i64 \<Rightarrow> transaction_context \<times> 'a chain_db_scheme \<Rightarrow> (transaction_context \<times> 'a chain_db_scheme) result" where
  "tc_add_ram_usage account ram_delta st =
     (let (tc, db) = st in
      ebind (add_pending_ram_usage account ram_delta (resources db)) (\<lambda>rl.
      Inr (if sint ram_delta > 0 then tc\<lparr>validate_ram_usage := set_insert account (validate_ram_usage tc)\<rparr> else tc,
           db\<lparr>resources := rl\<rparr>)))"

definition update_billed_cpu_time :: "controller_env \<Rightarrow> time_point \<Rightarrow> transaction_context \<Rightarrow> transaction_context" where
  "update_billed_cpu_time ctl now tc =
     (if explicit_billed_cpu_time tc then tc
      else tc\<lparr>billed_cpu_time_us := max (now - pseudo_start tc) (uint (min_transaction_cpu_usage (configuration ctl)))\<rparr>)"

definition large_number_no_overflow :: int where
  "large_number_no_overflow = INT64_MAX div 2"

definition use_elastic_limit :: "controller_env \<Rightarrow> bool \<Rightarrow> account_name \<Rightarrow> bool" where
  "use_elastic_limit ctl force_elastic_limits a \<longleftrightarrow>
     force_elastic_limits \<or> \<not> (is_producing_block ctl \<and> is_resource_greylisted ctl a)"

definition bandwidth_step ::
  "controller_env \<Rightarrow> resource_db \<Rightarrow> bool \<Rightarrow> account_name \<Rightarrow> int \<times> int \<times> bool \<times> bool \<Rightarrow> (int \<times> int \<times> bool \<times> bool) result" where
  "bandwidth_step ctl rl force_elastic_limits a st =
     (let (account_net_limit, account_cpu_limit, greylisted_net, greylisted_cpu) = st;
          elastic = use_elastic_limit ctl force_elastic_limits a in
      ebind (get_account_net_limit rl a elastic) (\<lambda>n.
      let (account_net_limit, greylisted_net) =
            (if sint n \<ge> 0 then (min account_net_limit (sint n), greylisted_net \<or> \<not> elastic) else (account_net_limit, greylisted_net)) in
      ebind (get_account_cpu_limit rl a elastic) (\<lambda>c.
      let (account_cpu_limit, greylisted_cpu) =
            (if sint c \<ge> 0 then (min account_cpu_limit (sint c), greylisted_cpu \<or> \<not> elastic) else (account_cpu_limit, greylisted_cpu)) in
      Inr (account_net_limit, account_cpu_limit, greylisted_net, greylisted_cpu))))"

definition max_bandwidth_billed_accounts_can_pay ::
  "controller_env \<Rightarrow> bool \<Rightarrow> transaction_context \<Rightarrow> 'a chain_db_scheme \<Rightarrow> (int \<times> int \<times> bool \<times> bool) result" where
  "max_bandwidth_billed_accounts_can_pay ctl force_elastic_limits tc db =
     efold (bandwidth_step ctl (resources db) force_elastic_limits) (bill_to_accounts tc)
       (large_number_no_overflow, large_number_no_overflow, False, False)"

subsection \<open>Referenced accounts\<close>

definition validate_context_free_action :: "'a chain_db_scheme \<Rightarrow> action \<Rightarrow> unit \<Rightarrow> unit result" where
  "validate_context_free_action db a u =
     EOS_ASSERT (fm_lookup (account_index db) (act_account a) \<noteq> None) transaction_exception
     (EOS_ASSERT (length (authorization a) = 0) transaction_exception (Inr ()))"

definition validate_action_auth ::
  "'a chain_db_scheme \<Rightarrow> bool \<Rightarrow> permission_level \<Rightarrow> bool \<times> account_name list \<Rightarrow> (bool \<times> account_name list) result" where
  "validate_action_auth db enforce auth st =
     (let (one_auth, actors) = st; one_auth = True in
      EOS_ASSERT (fm_lookup (account_index db) (fst auth) \<noteq> None) transaction_exception
      (ebind (find_permission auth db) (\<lambda>found.
       EOS_ASSERT (found \<noteq> None) transaction_exception
       (Inr (one_auth, if enforce then set_insert (fst auth) actors else actors)))))"

definition validate_action ::
  "'a chain_db_scheme \<Rightarrow> bool \<Rightarrow> action \<Rightarrow> bool \<times> account_name list \<Rightarrow> (bool \<times> account_name list) result" where
  "validate_action db enforce a st =
     EOS_ASSERT (fm_lookup (account_index db) (act_account a) \<noteq> None) transaction_exception
     (efold (validate_action_auth db enforce) (authorization a) st)"

definition validate_referenced_accounts ::
  "controller_env \<Rightarrow> 't transaction_scheme \<Rightarrow> bool \<Rightarrow> 'a chain_db_scheme \<Rightarrow> unit result" where
  "validate_referenced_accounts ctl t enforce_actor_whitelist_blacklist db =
     ebind (efold (validate_context_free_action db) (context_free_actions t) ()) (\<lambda>_.
     ebind (efold (validate_action db enforce_actor_whitelist_blacklist) (actions t) (False, [])) (\<lambda>(one_auth, actors).
     EOS_ASSERT one_auth tx_no_auths
     (if enforce_actor_whitelist_blacklist then check_actor_list (ctl_lists ctl) actors else Inr ())))"

definition record_transaction :: "transaction_id_type \<Rightarrow> u32 \<Rightarrow> 'a chain_db_scheme \<Rightarrow> 'a chain_db_scheme result" where
  "record_transaction i expire db =
     EOS_ASSERT (\<not> list_ex (\<lambda>(j, _). j = i) (transactions db)) tx_duplicate
     (Inr (db\<lparr>transactions := transactions db @ [(i, expire)]\<rparr>))"

subsection \<open>Starting a transaction\<close>

text \<open>\<open>init\<close> up to the accounts to bill: the limits of the block, the chain and the transaction.\<close>

definition lower_net_limit :: "u64 \<Rightarrow> transaction_context \<Rightarrow> transaction_context" where
  "lower_net_limit l tc = (if l \<le> net_limit tc then tc\<lparr>net_limit := l, net_limit_due_to_block := False\<rparr> else tc)"

definition lower_duration_limit :: "int \<Rightarrow> transaction_context \<Rightarrow> transaction_context" where
  "lower_duration_limit d tc =
     (if d \<le> objective_duration_limit tc
      then tc\<lparr>objective_duration_limit := d, billing_timer_exception_code := tx_cpu_usage_exceeded, hard_deadline := start tc + d\<rparr>
      else tc)"

definition init_objective_limits :: "controller_env \<Rightarrow> resource_db \<Rightarrow> transaction_context \<Rightarrow> transaction_context" where
  "init_objective_limits ctl rl tc =
     (let cfg = configuration ctl;
          tc = tc\<lparr>net_limit := get_block_net_limit rl, objective_duration_limit := sint (get_block_cpu_limit rl),
                  hard_deadline := start tc + sint (get_block_cpu_limit rl)\<rparr>;
          tc = lower_net_limit (ucast (max_transaction_net_usage cfg)) tc;
          tc = lower_duration_limit (uint (max_transaction_cpu_usage cfg)) tc;
          trx_specified_net_usage_limit = (ucast (max_net_usage_words (trx tc)) :: u64) * 8;
          tc = (if trx_specified_net_usage_limit > 0 then lower_net_limit trx_specified_net_usage_limit tc else tc);
          tc = (if max_cpu_usage_ms (trx tc) > 0 then lower_duration_limit (uint (max_cpu_usage_ms (trx tc)) * 1000) tc else tc)
      in tc\<lparr>initial_objective_duration_limit := objective_duration_limit tc\<rparr>)"

definition billed_actors :: "'t transaction_scheme \<Rightarrow> account_name list \<Rightarrow> account_name list" where
  "billed_actors t = fold (\<lambda>act. fold (\<lambda>auth. set_insert (fst auth)) (authorization act)) (actions t)"

text \<open>\<open>init\<close> from the limits of the billed accounts to the deadline.\<close>

definition init_account_limits ::
  "controller_env \<Rightarrow> int \<times> int \<times> bool \<times> bool \<Rightarrow> transaction_context \<Rightarrow> transaction_context" where
  "init_account_limits ctl pay tc =
     (let (account_net_limit, account_cpu_limit, greylisted_net, greylisted_cpu) = pay;
          tc = tc\<lparr>net_limit_due_to_greylist := net_limit_due_to_greylist tc \<or> greylisted_net,
                  cpu_limit_due_to_greylist := cpu_limit_due_to_greylist tc \<or> greylisted_cpu,
                  eager_net_limit := net_limit tc\<rparr>;
          new_eager_net_limit = min (eager_net_limit tc)
            (word_of_int (account_net_limit + uint (net_usage_leeway (configuration ctl))));
          tc = (if new_eager_net_limit < eager_net_limit tc
                then tc\<lparr>eager_net_limit := new_eager_net_limit, net_limit_due_to_block := False\<rparr> else tc);
          tc = (if account_cpu_limit + leeway tc \<le> hard_deadline tc - start tc
                then tc\<lparr>hard_deadline := start tc + account_cpu_limit + leeway tc,
                        billing_timer_exception_code := leeway_deadline_exception\<rparr> else tc);
          tc = tc\<lparr>billing_timer_duration_limit := hard_deadline tc - start tc\<rparr>;
          tc = (if explicit_billed_cpu_time tc \<or> deadline tc < hard_deadline tc
                then tc\<lparr>hard_deadline := deadline tc, deadline_exception_code := deadline_exception\<rparr>
                else tc\<lparr>deadline_exception_code := billing_timer_exception_code tc\<rparr>)
      in tc\<lparr>eager_net_limit := eager_net_limit tc div 8 * 8\<rparr>)"

definition init ::
  "controller_env \<Rightarrow> u64 \<Rightarrow> transaction_context \<times> 'a chain_db_scheme \<Rightarrow> (transaction_context \<times> 'a chain_db_scheme) result" where
  "init ctl initial_net_usage st =
     (let (tc, db) = st in
      EOS_ASSERT (\<not> is_initialized tc) transaction_exception
      (let tc = init_objective_limits ctl (resources db) tc in
       ebind (if billed_cpu_time_us tc > 0 then validate_cpu_usage_to_bill ctl (billed_cpu_time_us tc) False tc else Inr ()) (\<lambda>_.
       let tc = tc\<lparr>bill_to_accounts := billed_actors (trx tc) (bill_to_accounts tc)\<rparr> in
       ebind (update_account_usage (bill_to_accounts tc) (block_slot ctl) (resources db)) (\<lambda>rl.
       let db = db\<lparr>resources := rl\<rparr> in
       ebind (max_bandwidth_billed_accounts_can_pay ctl False tc db) (\<lambda>pay.
       let tc = init_account_limits ctl pay tc in
       ebind (if initial_net_usage > 0 then add_net_usage ctl initial_net_usage tc else Inr tc) (\<lambda>tc.
       ebind (tc_checktime ctl tc) (\<lambda>tc.
       let tc = (if skip_trx_checks ctl then tc\<lparr>timer_expired := False\<rparr> else deadline_timer_start ctl (hard_deadline tc) tc)
       in Inr (tc\<lparr>is_initialized := True\<rparr>, db))))))))"

definition init_for_implicit_trx ::
  "controller_env \<Rightarrow> u64 \<Rightarrow> transaction_context \<times> 'a chain_db_scheme \<Rightarrow> (transaction_context \<times> 'a chain_db_scheme) result" where
  "init_for_implicit_trx ctl initial_net_usage st =
     init ctl initial_net_usage ((fst st)\<lparr>published := block_time ctl\<rparr>, snd st)"

definition transaction_id_net_usage :: u32 where
  "transaction_id_net_usage = 32"

definition discounted_size :: "chain_config \<Rightarrow> u64 \<Rightarrow> u64" where
  "discounted_size cfg prunable =
     (if context_free_discount_net_usage_den cfg > 0 \<and>
         context_free_discount_net_usage_num cfg < context_free_discount_net_usage_den cfg
      then (prunable * ucast (context_free_discount_net_usage_num cfg) + ucast (context_free_discount_net_usage_den cfg) - 1)
             div ucast (context_free_discount_net_usage_den cfg)
      else prunable)"

definition delay_net_usage :: "chain_config \<Rightarrow> u64" where
  "delay_net_usage cfg = ucast (base_per_transaction_net_usage cfg) + ucast transaction_id_net_usage"

definition init_for_input_trx ::
  "controller_env \<Rightarrow> u64 \<Rightarrow> u64 \<Rightarrow> u32 \<Rightarrow> bool \<Rightarrow> transaction_context \<times> 'a chain_db_scheme \<Rightarrow>
   (transaction_context \<times> 'a chain_db_scheme) result" where
  "init_for_input_trx ctl packed_trx_unprunable_size packed_trx_prunable_size num_signatures skip_recording st =
     (let (tc, db) = st; cfg = configuration ctl;
          initial_net_usage = ucast (base_per_transaction_net_usage cfg) + packed_trx_unprunable_size +
            discounted_size cfg packed_trx_prunable_size;
          initial_net_usage = (if delay_sec (trx tc) > 0 then initial_net_usage + delay_net_usage cfg else initial_net_usage);
          tc = tc\<lparr>published := block_time ctl, is_input := True\<rparr> in
      ebind (if \<not> skip_trx_checks ctl then
               ebind (validate_expiration ctl (trx tc)) (\<lambda>_.
               ebind (validate_tapos ctl (trx tc)) (\<lambda>_.
               validate_referenced_accounts ctl (trx tc) (enforce_whiteblacklist tc \<and> is_producing_block ctl) db))
             else Inr ()) (\<lambda>_.
      ebind (init ctl initial_net_usage (tc, db)) (\<lambda>(tc, db).
      ebind (if \<not> skip_recording then record_transaction (tc_id tc) (expiration (trx tc)) db else Inr db) (\<lambda>db.
      Inr (tc, db)))))"

definition init_for_deferred_trx ::
  "controller_env \<Rightarrow> time_point \<Rightarrow> transaction_context \<times> 'a chain_db_scheme \<Rightarrow> (transaction_context \<times> 'a chain_db_scheme) result" where
  "init_for_deferred_trx ctl p st = init ctl 0 ((fst st)\<lparr>published := p, apply_context_free := False\<rparr>, snd st)"

subsection \<open>Delayed transactions\<close>

definition overhead_per_row_per_index_ram_bytes :: u64 where
  "overhead_per_row_per_index_ram_bytes = 32"

definition billable_generated_transaction :: u64 where
  "billable_generated_transaction = billable_size_v (96 + 4 + overhead_per_row_per_index_ram_bytes * 5)"

definition transaction_id_to_sender_id :: "transaction_id_type \<Rightarrow> u128" where
  "transaction_id_to_sender_id tid = push_bit 64 (ucast (hash3 tid)) OR ucast (hash2 tid)"

definition create_generated :: "generated_transaction_object \<Rightarrow> 'a chain_db_scheme \<Rightarrow> 'a chain_db_scheme result" where
  "create_generated gto db =
     EOS_ASSERT (\<not> list_ex (\<lambda>g. gto_trx_id g = gto_trx_id gto \<or>
         gto_sender g = gto_sender gto \<and> gto_sender_id g = gto_sender_id gto) (generated db)) table_uniqueness_violation
     (Inr (db\<lparr>generated := generated db @ [gto]\<rparr>))"

definition schedule_transaction ::
  "controller_env \<Rightarrow> transaction_context \<times> 'a chain_db_scheme \<Rightarrow> (transaction_context \<times> 'a chain_db_scheme) result" where
  "schedule_transaction ctl st =
     (let (tc, db) = st in
      ebind (if delay_sec (trx tc) = 0 then add_net_usage ctl (delay_net_usage (configuration ctl)) tc else Inr tc) (\<lambda>tc.
      let first_auth = first_authorizor (trx tc);
          packed = pack_transaction (ctl_codec ctl) (transaction_of (trx tc));
          gto = \<lparr>gto_trx_id = tc_id tc, gto_sender = 0, gto_sender_id = transaction_id_to_sender_id (tc_id tc),
                 gto_payer = first_auth, gto_delay_until = block_time ctl + delay tc,
                 gto_expiration = block_time ctl + delay tc + seconds (deferred_trx_expiration_window (configuration ctl)),
                 gto_published = block_time ctl, gto_packed_trx = packed\<rparr> in
      ebind (create_generated gto db) (\<lambda>db.
      tc_add_ram_usage first_auth (billable_generated_transaction + ucast (of_nat (length packed) :: u32)) (tc, db))))"

subsection \<open>Finishing a transaction\<close>

definition update_usages :: "controller_env \<Rightarrow> 't transaction_scheme \<Rightarrow> 'a chain_db_scheme \<Rightarrow> 'a chain_db_scheme result" where
  "update_usages ctl t db =
     efold (\<lambda>act db. efold (\<lambda>auth db.
       ebind (get_permission auth db) (\<lambda>p. update_permission_usage (ctl_auth ctl) (snd p) db)) (authorization act) db) (actions t) db"

definition lower_final_limits :: "int \<times> int \<times> bool \<times> bool \<Rightarrow> transaction_context \<Rightarrow> transaction_context" where
  "lower_final_limits pay tc =
     (let (account_net_limit, account_cpu_limit, greylisted_net, greylisted_cpu) = pay;
          tc = tc\<lparr>net_limit_due_to_greylist := net_limit_due_to_greylist tc \<or> greylisted_net,
                  cpu_limit_due_to_greylist := cpu_limit_due_to_greylist tc \<or> greylisted_cpu\<rparr>;
          tc = (if word_of_int account_net_limit \<le> net_limit tc
                then tc\<lparr>net_limit := word_of_int account_net_limit, net_limit_due_to_block := False\<rparr> else tc);
          tc = (if account_cpu_limit \<le> objective_duration_limit tc
                then tc\<lparr>objective_duration_limit := account_cpu_limit, billing_timer_exception_code := tx_cpu_usage_exceeded\<rparr> else tc);
          tc = tc\<lparr>trx_net_usage := (trx_net_usage tc + 7) div 8 * 8\<rparr>
      in tc\<lparr>eager_net_limit := net_limit tc\<rparr>)"

definition finalize ::
  "controller_env \<Rightarrow> transaction_context \<times> 'a chain_db_scheme \<Rightarrow> (transaction_context \<times> 'a chain_db_scheme) result" where
  "finalize ctl st =
     (let (tc, db) = st in
      EOS_ASSERT (is_initialized tc) transaction_exception
      (ebind (if is_input tc then update_usages ctl (trx tc) db else Inr db) (\<lambda>db.
       ebind (efold (\<lambda>a u. verify_account_ram_usage (resources db) a) (validate_ram_usage tc) ()) (\<lambda>_.
       ebind (max_bandwidth_billed_accounts_can_pay ctl False tc db) (\<lambda>pay.
       let tc = lower_final_limits pay tc in
       ebind (check_net_usage ctl tc) (\<lambda>_.
       let now = now_at ctl (clock tc); tc = update_billed_cpu_time ctl now (tc\<lparr>clock := clock tc + 1\<rparr>) in
       ebind (validate_cpu_usage_to_bill ctl (billed_cpu_time_us tc) True tc) (\<lambda>_.
       ebind (add_transaction_usage (bill_to_accounts tc) (word_of_int (billed_cpu_time_us tc)) (trx_net_usage tc)
                (block_slot ctl) (resources db)) (\<lambda>rl.
       Inr (tc, db\<lparr>resources := rl\<rparr>)))))))))"

subsection \<open>Sets of accounts\<close>

lemma flat_set_insert_set: "set (fst (flat_set_insert (<) a xs)) = insert a (set (xs :: 'x::linorder list))"
proof (induction xs)
  case (Cons x xs)
  then show ?case by (cases "flat_set_insert (<) a xs") auto
qed simp

lemma flat_set_insert_sorted: "sorted_wrt (<) (xs :: 'x::linorder list) \<Longrightarrow> sorted_wrt (<) (fst (flat_set_insert (<) a xs))"
proof (induction xs)
  case (Cons x xs)
  obtain ys ins where ys: "flat_set_insert (<) a xs = (ys, ins)" by fastforce
  have "set ys = insert a (set xs)" using flat_set_insert_set [of a xs] ys by simp
  moreover have "sorted_wrt (<) ys" using Cons ys by simp
  moreover have "\<forall>y \<in> set xs. x < y" "sorted_wrt (<) xs" using Cons.prems by simp_all
  ultimately show ?case using ys less_trans by (auto simp del: sorted_wrt.simps simp: sorted_wrt.simps)
qed simp

lemma set_insert_sorted:
  assumes "sorted_wrt (<) xs"
  shows "sorted_wrt (<) (set_insert a xs)" and "set (set_insert a xs) = insert a (set xs)"
  using flat_set_insert_sorted [OF assms] flat_set_insert_set by (simp_all add: set_insert_def)

definition actors_of :: "'t transaction_scheme \<Rightarrow> account_name set" where
  "actors_of t = (\<Union>act \<in> set (actions t). fst ` set (authorization act))"

lemma billed_actors_set:
  assumes "sorted_wrt (<) xs"
  shows "sorted_wrt (<) (billed_actors t xs) \<and> set (billed_actors t xs) = set xs \<union> actors_of t"
proof -
  have inner: "sorted_wrt (<) (fold (\<lambda>auth. set_insert (fst auth)) auths ys) \<and>
      set (fold (\<lambda>auth. set_insert (fst auth)) auths ys) = set ys \<union> fst ` set auths"
    if "sorted_wrt (<) ys" for auths :: "permission_level list" and ys
    using that by (induction auths arbitrary: ys) (auto simp: set_insert_sorted)
  have "sorted_wrt (<) (fold (\<lambda>act. fold (\<lambda>auth. set_insert (fst auth)) (authorization act)) acts ys) \<and>
      set (fold (\<lambda>act. fold (\<lambda>auth. set_insert (fst auth)) (authorization act)) acts ys) =
        set ys \<union> (\<Union>act \<in> set acts. fst ` set (authorization act))"
    if "sorted_wrt (<) ys" for acts :: "action list" and ys
    using that
  proof (induction acts arbitrary: ys)
    case (Cons act acts)
    note step = inner [OF Cons.prems, of "authorization act"]
    show ?case using Cons.IH [OF conjunct1 [OF step]] step by auto
  qed simp
  from this [OF assms] show ?thesis by (simp add: billed_actors_def actors_of_def)
qed

subsection \<open>What the billed accounts can pay\<close>

text \<open>The limits in a state of the loop are at most those of an account, unless it has none.\<close>

definition pays :: "controller_env \<Rightarrow> resource_db \<Rightarrow> bool \<Rightarrow> int \<times> int \<times> bool \<times> bool \<Rightarrow> account_name \<Rightarrow> bool" where
  "pays ctl rl force st a \<longleftrightarrow>
     (\<exists>n c. get_account_net_limit rl a (use_elastic_limit ctl force a) = Inr n \<and>
       get_account_cpu_limit rl a (use_elastic_limit ctl force a) = Inr c \<and>
       (sint n \<ge> 0 \<longrightarrow> fst st \<le> sint n) \<and> (sint c \<ge> 0 \<longrightarrow> fst (snd st) \<le> sint c))"

lemma bandwidth_step_pays:
  assumes "bandwidth_step ctl rl force a st = Inr st'"
  shows "pays ctl rl force st' a" and "fst st' \<le> fst st" and "fst (snd st') \<le> fst (snd st)"
    and "0 \<le> fst st \<Longrightarrow> 0 \<le> fst st'" and "0 \<le> fst (snd st) \<Longrightarrow> 0 \<le> fst (snd st')"
proof -
  let ?e = "use_elastic_limit ctl force a"
  obtain x y g h where st: "st = (x, y, g, h)" by (metis surj_pair)
  obtain n where n: "get_account_net_limit rl a ?e = Inr n"
    using assms by (cases "get_account_net_limit rl a ?e") (simp_all add: bandwidth_step_def st Let_def)
  obtain c where c: "get_account_cpu_limit rl a ?e = Inr c"
    using assms by (cases "get_account_cpu_limit rl a ?e") (simp_all add: bandwidth_step_def st Let_def n)
  note nc = n c
  have st': "fst st' = (if sint n \<ge> 0 then min x (sint n) else x)" "fst (snd st') = (if sint c \<ge> 0 then min y (sint c) else y)"
    using assms unfolding bandwidth_step_def st Let_def prod.case nc ebind_simps by (auto split: if_splits)
  show "pays ctl rl force st' a" unfolding pays_def using nc st' by auto
  show "fst st' \<le> fst st" "fst (snd st') \<le> fst (snd st)" "0 \<le> fst st \<Longrightarrow> 0 \<le> fst st'"
    "0 \<le> fst (snd st) \<Longrightarrow> 0 \<le> fst (snd st')"
    using st' by (auto simp: st)
qed

lemma bandwidth_pays:
  assumes "efold (bandwidth_step ctl rl force) accs st = Inr st'" and "0 \<le> fst st" and "0 \<le> fst (snd st)"
  shows "(\<forall>a \<in> set accs. pays ctl rl force st' a) \<and> fst st' \<le> fst st \<and> fst (snd st') \<le> fst (snd st) \<and>
    0 \<le> fst st' \<and> 0 \<le> fst (snd st')"
  using assms
proof (induction accs arbitrary: st)
  case (Cons a accs)
  then obtain s1 where s1: "bandwidth_step ctl rl force a st = Inr s1" "efold (bandwidth_step ctl rl force) accs s1 = Inr st'"
    by (auto simp: exc_simps)
  note step = bandwidth_step_pays [OF s1(1)]
  have rest: "(\<forall>a \<in> set accs. pays ctl rl force st' a) \<and> fst st' \<le> fst s1 \<and> fst (snd st') \<le> fst (snd s1) \<and>
      0 \<le> fst st' \<and> 0 \<le> fst (snd st')"
    using Cons.IH [OF s1(2)] step(4,5) Cons.prems(2,3) by blast
  moreover have "pays ctl rl force st' a"
  proof -
    obtain n c where nc: "get_account_net_limit rl a (use_elastic_limit ctl force a) = Inr n"
      "get_account_cpu_limit rl a (use_elastic_limit ctl force a) = Inr c"
      "sint n \<ge> 0 \<longrightarrow> fst s1 \<le> sint n" "sint c \<ge> 0 \<longrightarrow> fst (snd s1) \<le> sint c"
      using step(1) unfolding pays_def by blast
    then show ?thesis using rest unfolding pays_def by auto
  qed
  ultimately show ?case using step(2,3) by auto
qed simp

subsection \<open>The limits at the start\<close>

lemma lower_net_limit_simps [simp]:
  "net_limit (lower_net_limit l tc) = min l (net_limit tc)"
  "objective_duration_limit (lower_net_limit l tc) = objective_duration_limit tc"
  "trx (lower_net_limit l tc) = trx tc" "bill_to_accounts (lower_net_limit l tc) = bill_to_accounts tc"
  "trx_net_usage (lower_net_limit l tc) = trx_net_usage tc" "billed_cpu_time_us (lower_net_limit l tc) = billed_cpu_time_us tc"
  "tc_id (lower_net_limit l tc) = tc_id tc"
  by (simp_all add: lower_net_limit_def)

lemma lower_duration_limit_simps [simp]:
  "objective_duration_limit (lower_duration_limit d tc) = min d (objective_duration_limit tc)"
  "net_limit (lower_duration_limit d tc) = net_limit tc"
  "trx (lower_duration_limit d tc) = trx tc" "bill_to_accounts (lower_duration_limit d tc) = bill_to_accounts tc"
  "trx_net_usage (lower_duration_limit d tc) = trx_net_usage tc" "billed_cpu_time_us (lower_duration_limit d tc) = billed_cpu_time_us tc"
  "tc_id (lower_duration_limit d tc) = tc_id tc"
  by (simp_all add: lower_duration_limit_def)

lemma init_objective_limits_least:
  fixes ctl rl tc
  defines "tc' \<equiv> init_objective_limits ctl rl tc" and "cfg \<equiv> configuration ctl"
    and "spec \<equiv> (ucast (max_net_usage_words (trx tc)) :: u64) * 8"
  shows "net_limit tc' \<le> get_block_net_limit rl" and "net_limit tc' \<le> ucast (max_transaction_net_usage cfg)"
    and "spec > 0 \<Longrightarrow> net_limit tc' \<le> spec"
    and "objective_duration_limit tc' \<le> sint (get_block_cpu_limit rl)"
    and "objective_duration_limit tc' \<le> uint (max_transaction_cpu_usage cfg)"
    and "max_cpu_usage_ms (trx tc) > 0 \<Longrightarrow> objective_duration_limit tc' \<le> uint (max_cpu_usage_ms (trx tc)) * 1000"
    and "trx tc' = trx tc" and "bill_to_accounts tc' = bill_to_accounts tc" and "trx_net_usage tc' = trx_net_usage tc"
    and "billed_cpu_time_us tc' = billed_cpu_time_us tc" and "tc_id tc' = tc_id tc"
  unfolding tc'_def cfg_def spec_def init_objective_limits_def by (auto simp: Let_def min.coboundedI2)

lemma init_account_limits_facts:
  assumes "pay = (n, c, gn, gc)"
  shows "net_limit (init_account_limits ctl pay tc) = net_limit tc"
    and "eager_net_limit (init_account_limits ctl pay tc) =
      min (net_limit tc) (word_of_int (n + uint (net_usage_leeway (configuration ctl)))) div 8 * 8"
    and "objective_duration_limit (init_account_limits ctl pay tc) = objective_duration_limit tc"
    and "trx (init_account_limits ctl pay tc) = trx tc"
    and "bill_to_accounts (init_account_limits ctl pay tc) = bill_to_accounts tc"
    and "trx_net_usage (init_account_limits ctl pay tc) = trx_net_usage tc"
    and "tc_id (init_account_limits ctl pay tc) = tc_id tc"
  unfolding init_account_limits_def assms by (auto simp: Let_def min_def not_less)

text \<open>Reading the clock and setting the timer leave the limits and the usage alone.\<close>

definition same_limits :: "transaction_context \<Rightarrow> transaction_context \<Rightarrow> bool" where
  "same_limits tc tc' \<longleftrightarrow> trx tc' = trx tc \<and> tc_id tc' = tc_id tc \<and> bill_to_accounts tc' = bill_to_accounts tc \<and>
     net_limit tc' = net_limit tc \<and> eager_net_limit tc' = eager_net_limit tc \<and> trx_net_usage tc' = trx_net_usage tc \<and>
     objective_duration_limit tc' = objective_duration_limit tc"

lemma tc_checktime_same: "tc_checktime ctl tc = Inr tc' \<Longrightarrow> same_limits tc tc'"
  by (auto simp: tc_checktime_def same_limits_def Let_def split: if_splits)

lemma deadline_timer_start_same: "same_limits tc (deadline_timer_start ctl tp tc)"
  by (simp add: deadline_timer_start_def same_limits_def Let_def)

lemma add_net_usage_facts:
  assumes "add_net_usage ctl u tc = Inr tc'"
  shows "tc' = tc\<lparr>trx_net_usage := trx_net_usage tc + u\<rparr>"
    and "\<not> skip_trx_checks ctl \<Longrightarrow> trx_net_usage tc' \<le> eager_net_limit tc'"
  using assms by (auto simp: add_net_usage_def check_net_usage_def exc_simps Let_def not_less split: if_splits)

lemma word_div8_le: "(x :: u64) div 8 * 8 \<le> x" and word_div8_dvd: "8 dvd unat ((x :: u64) div 8 * 8)"
proof -
  have "unat (x div 8 * 8) = unat x div 8 * 8"
    using unat_u64_bound [of x] div_times_less_eq_dividend [of "unat x" 8]
    by (simp add: unat_mult_no_overflow unat_div)
  then show "x div 8 * 8 \<le> x" "8 dvd unat (x div 8 * 8)" by (simp_all add: word_le_nat_alt)
qed


lemma init_run:
  assumes "init ctl u (tc, db) = Inr (tc', db')"
  obtains rl pay tc1 where "tc1 = init_objective_limits ctl (resources db) tc"
    and "update_account_usage (billed_actors (trx tc) (bill_to_accounts tc)) (block_slot ctl) (resources db) = Inr rl"
    and "db' = db\<lparr>resources := rl\<rparr>"
    and "efold (bandwidth_step ctl rl False) (billed_actors (trx tc) (bill_to_accounts tc))
       (large_number_no_overflow, large_number_no_overflow, False, False) = Inr pay"
    and "net_limit tc' = net_limit tc1" and "objective_duration_limit tc' = objective_duration_limit tc1"
    and "eager_net_limit tc' =
      min (net_limit tc1) (word_of_int (fst pay + uint (net_usage_leeway (configuration ctl)))) div 8 * 8"
    and "bill_to_accounts tc' = billed_actors (trx tc) (bill_to_accounts tc)"
    and "trx_net_usage tc' = trx_net_usage tc + u"
    and "\<not> skip_trx_checks ctl \<Longrightarrow> u > 0 \<Longrightarrow> trx_net_usage tc' \<le> eager_net_limit tc'"
proof -
  define tc1 where tc1: "tc1 = init_objective_limits ctl (resources db) tc"
  define tc2 where tc2: "tc2 = tc1\<lparr>bill_to_accounts := billed_actors (trx tc) (bill_to_accounts tc)\<rparr>"
  note obj = init_objective_limits_least [where ctl = ctl and rl = "resources db" and tc = tc, folded tc1]
  obtain rl pay tc4 tc5 where
    rl: "update_account_usage (bill_to_accounts tc2) (block_slot ctl) (resources db) = Inr rl"
    and pay: "max_bandwidth_billed_accounts_can_pay ctl False tc2 (db\<lparr>resources := rl\<rparr>) = Inr pay"
    and tc4: "(if u > 0 then add_net_usage ctl u (init_account_limits ctl pay tc2) else Inr (init_account_limits ctl pay tc2)) = Inr tc4"
    and tc5: "tc_checktime ctl tc4 = Inr tc5"
    and fin: "tc' = (if skip_trx_checks ctl then tc5\<lparr>timer_expired := False\<rparr> else deadline_timer_start ctl (hard_deadline tc5) tc5)
        \<lparr>is_initialized := True\<rparr>" "db' = db\<lparr>resources := rl\<rparr>"
    using assms unfolding init_def Let_def prod.case
    unfolding tc1 [symmetric] obj(7,8) tc2 [symmetric] EOS_ASSERT_Inr_iff ebind_Inr_iff by blast
  obtain n c gn gc where n: "pay = (n, c, gn, gc)" by (metis surj_pair)
  note acc = init_account_limits_facts [OF n, of ctl tc2]
  have t4: "net_limit tc4 = net_limit tc1" "objective_duration_limit tc4 = objective_duration_limit tc1"
    "eager_net_limit tc4 = min (net_limit tc1) (word_of_int (fst pay + uint (net_usage_leeway (configuration ctl)))) div 8 * 8"
    "bill_to_accounts tc4 = bill_to_accounts tc2" "trx_net_usage tc4 = trx_net_usage tc + u"
    "\<not> skip_trx_checks ctl \<Longrightarrow> u > 0 \<Longrightarrow> trx_net_usage tc4 \<le> eager_net_limit tc4"
    using tc4 acc obj(9) add_net_usage_facts [of ctl u "init_account_limits ctl pay tc2" tc4]
    by (auto simp: tc2 n word_gt_0 split: if_splits)
  have same: "same_limits tc4 tc'"
    using tc_checktime_same [OF tc5] deadline_timer_start_same [of tc5 ctl "hard_deadline tc5"] fin(1)
    by (auto simp: same_limits_def)
  show thesis
    by (rule that [OF tc1 _ fin(2)])
      (use rl pay t4 same in \<open>auto simp: tc2 same_limits_def max_bandwidth_billed_accounts_can_pay_def\<close>)
qed


lemma large_number: "large_number_no_overflow = 4611686018427387903"
  by (simp add: large_number_no_overflow_def INT64_MAX_def)

lemma sum_in_u64:
  assumes "0 \<le> n" and "n \<le> large_number_no_overflow"
  shows "int (unat (word_of_int (n + uint (l :: u32)) :: u64)) = n + uint l"
proof -
  have "0 \<le> uint l" "uint l < 2 ^ 32" using uint_bounded [of l] by auto
  then have "uint (word_of_int (n + uint l) :: u64) = n + uint l"
    using assms by (simp add: large_number uint_word_of_int del: of_int_add)
  then show ?thesis by (simp only: uint_nat [symmetric])
qed

lemma specified_net_limit: "unat ((ucast (w :: u32) :: u64) * 8) = unat w * 8"
  using unat_u32_bound [of w] by (simp add: unat_mult_no_overflow)



subsection \<open>What a finished transaction has been billed\<close>

definition only_usages_change :: "'a chain_db_scheme \<Rightarrow> 'a chain_db_scheme \<Rightarrow> bool" where
  "only_usages_change db db' \<longleftrightarrow> (\<exists>u. db' = db\<lparr>usages := u\<rparr>)"

interpretation usages_only: state_frame only_usages_change
proof unfold_locales
  show "only_usages_change db db" for db :: "'a chain_db_scheme"
    unfolding only_usages_change_def by (rule exI [of _ "usages db"]) simp
  show "only_usages_change a c" if "only_usages_change a b" "only_usages_change b c" for a b c :: "'a chain_db_scheme"
    using that unfolding only_usages_change_def by (elim exE) (auto intro: exI)
qed

lemma only_usages_change_step: "update_permission_usage env p db = Inr db' \<Longrightarrow> only_usages_change db db'"
  unfolding update_permission_usage_def ebind_Inr_iff only_usages_change_def by blast

lemma update_usages_frame:
  assumes "update_usages ctl t db = Inr db'"
  shows "only_usages_change db db'"
proof -
  have auths: "only_usages_change a b"
    if "efold (\<lambda>auth db. ebind (get_permission auth db) (\<lambda>p. update_permission_usage (ctl_auth ctl) (snd p) db)) auths a = Inr b"
    for auths and a b :: "'a chain_db_scheme"
    using that by (rule usages_only.frame_efold) (auto simp: ebind_Inr_iff intro: only_usages_change_step)
  show ?thesis
    using assms unfolding update_usages_def by (rule usages_only.frame_efold) (rule auths)
qed

lemma only_usages_change_resources: "only_usages_change db db' \<Longrightarrow> resources db' = resources db"
  unfolding only_usages_change_def by (elim exE) simp

lemma lower_final_limits_facts:
  assumes "0 \<le> fst pay" and "fst pay \<le> large_number_no_overflow"
  shows "unat (net_limit (lower_final_limits pay tc)) \<le> unat (net_limit tc)"
    and "int (unat (net_limit (lower_final_limits pay tc))) \<le> fst pay"
    and "objective_duration_limit (lower_final_limits pay tc) = min (fst (snd pay)) (objective_duration_limit tc)"
    and "trx_net_usage (lower_final_limits pay tc) = (trx_net_usage tc + 7) div 8 * 8"
    and "eager_net_limit (lower_final_limits pay tc) = net_limit (lower_final_limits pay tc)"
    and "bill_to_accounts (lower_final_limits pay tc) = bill_to_accounts tc"
proof -
  obtain n c gn gc where pay: "pay = (n, c, gn, gc)" by (metis surj_pair)
  have n: "int (unat (word_of_int n :: u64)) = n"
    using sum_in_u64 [of n 0] assms by (simp add: pay)
  have "int (unat (net_limit tc)) < n" if "\<not> word_of_int n \<le> net_limit tc"
    using that n unfolding not_le word_less_nat_alt by linarith
  then show "unat (net_limit (lower_final_limits pay tc)) \<le> unat (net_limit tc)"
    and "int (unat (net_limit (lower_final_limits pay tc))) \<le> fst pay"
    using n by (auto simp: lower_final_limits_def pay Let_def word_le_nat_alt)
qed (cases pay; auto simp: lower_final_limits_def Let_def min_def)+

lemma check_net_usage_ok: "check_net_usage ctl tc = Inr () \<Longrightarrow> \<not> skip_trx_checks ctl \<Longrightarrow> trx_net_usage tc \<le> eager_net_limit tc"
  by (auto simp: check_net_usage_def not_less split: if_splits)

lemma validate_cpu_ok:
  assumes "validate_cpu_usage_to_bill ctl b True tc = Inr ()" and "\<not> skip_trx_checks ctl"
  shows "uint (min_transaction_cpu_usage (configuration ctl)) \<le> b \<and> b \<le> objective_duration_limit tc"
  using assms by (auto simp: validate_cpu_usage_to_bill_def exc_simps split: if_splits)

lemma finalize_run:
  assumes "finalize ctl (tc, db) = Inr (tc', db')"
  obtains pay where "\<forall>a \<in> set (validate_ram_usage tc). verify_account_ram_usage (resources db) a = Inr ()"
    and "efold (bandwidth_step ctl (resources db) False) (bill_to_accounts tc)
       (large_number_no_overflow, large_number_no_overflow, False, False) = Inr pay"
    and "check_net_usage ctl (lower_final_limits pay tc) = Inr ()" and "same_limits (lower_final_limits pay tc) tc'"
    and "validate_cpu_usage_to_bill ctl (billed_cpu_time_us tc') True tc' = Inr ()"
    and "add_transaction_usage (bill_to_accounts tc) (word_of_int (billed_cpu_time_us tc')) (trx_net_usage tc') (block_slot ctl)
       (resources db) = Inr (resources db')"
proof -
  obtain db1 pay rl where db1: "(if is_input tc then update_usages ctl (trx tc) db else Inr db) = Inr db1"
    and ram: "efold (\<lambda>a u. verify_account_ram_usage (resources db1) a) (validate_ram_usage tc) () = Inr ()"
    and pay: "max_bandwidth_billed_accounts_can_pay ctl False tc db1 = Inr pay"
    and net: "check_net_usage ctl (lower_final_limits pay tc) = Inr ()"
    and tc': "tc' = update_billed_cpu_time ctl (now_at ctl (clock (lower_final_limits pay tc)))
        ((lower_final_limits pay tc)\<lparr>clock := clock (lower_final_limits pay tc) + 1\<rparr>)"
    and cpu: "validate_cpu_usage_to_bill ctl (billed_cpu_time_us tc') True tc' = Inr ()"
    and rl: "add_transaction_usage (bill_to_accounts tc') (word_of_int (billed_cpu_time_us tc')) (trx_net_usage tc')
        (block_slot ctl) (resources db1) = Inr rl" and db': "db' = db1\<lparr>resources := rl\<rparr>"
    using assms unfolding finalize_def Let_def prod.case EOS_ASSERT_Inr_iff ebind_Inr_iff by auto
  have res: "resources db1 = resources db" 
    using db1 by (auto split: if_splits dest: update_usages_frame only_usages_change_resources)
  have "verify_account_ram_usage (resources db) a = Inr ()" if charged: "a \<in> set (validate_ram_usage tc)" for a
  proof -
    obtain us vs s1 s2 where "validate_ram_usage tc = us @ a # vs"
      and "efold (\<lambda>a u. verify_account_ram_usage (resources db1) a) us () = Inr s1"
      and "verify_account_ram_usage (resources db1) a = Inr s2"
      and "efold (\<lambda>a u. verify_account_ram_usage (resources db1) a) vs s2 = Inr ()"
      by (rule efold_visit [OF ram charged])
    then show ?thesis using res by simp
  qed
  moreover have same: "same_limits (lower_final_limits pay tc) tc'"
    unfolding tc' by (simp add: update_billed_cpu_time_def same_limits_def)
  moreover have "bill_to_accounts tc' = bill_to_accounts tc"
    using same by (cases pay) (simp add: same_limits_def lower_final_limits_def Let_def)
  ultimately show thesis
    using net cpu pay rl unfolding max_bandwidth_billed_accounts_can_pay_def res
    by (intro that [of pay]) (simp_all add: db')
qed

text \<open>
  C7: a transaction that finishes has been billed within every limit. Its network usage is rounded
  up to words of eight bytes and is within the limit it started with and within what every billed
  account can pay; its CPU time is at least the least that is billed and within the same kind of
  limits; exactly these amounts are added to the usage of the block; and every account that was
  charged memory is within its memory limit.
\<close>

theorem finished_transaction_billed:
  assumes "finalize ctl (tc, db) = Inr (tc', db')" and "\<not> skip_trx_checks ctl"
  shows "trx_net_usage tc' = (trx_net_usage tc + 7) div 8 * 8 \<and> unat (trx_net_usage tc') \<le> unat (net_limit tc) \<and>
    uint (min_transaction_cpu_usage (configuration ctl)) \<le> billed_cpu_time_us tc' \<and>
    billed_cpu_time_us tc' \<le> objective_duration_limit tc \<and>
    (\<forall>a \<in> set (bill_to_accounts tc). \<exists>n c. get_account_net_limit (resources db) a (use_elastic_limit ctl False a) = Inr n \<and>
       get_account_cpu_limit (resources db) a (use_elastic_limit ctl False a) = Inr c \<and>
       (sint n \<ge> 0 \<longrightarrow> int (unat (trx_net_usage tc')) \<le> sint n) \<and> (sint c \<ge> 0 \<longrightarrow> billed_cpu_time_us tc' \<le> sint c)) \<and>
    (\<forall>a \<in> set (validate_ram_usage tc). verify_account_ram_usage (resources db) a = Inr ()) \<and>
    pending_net_usage (rl_state (resources db')) = pending_net_usage (rl_state (resources db)) + trx_net_usage tc' \<and>
    pending_cpu_usage (rl_state (resources db')) =
      pending_cpu_usage (rl_state (resources db)) + word_of_int (billed_cpu_time_us tc')"
proof -
  obtain pay where ram: "\<forall>a \<in> set (validate_ram_usage tc). verify_account_ram_usage (resources db) a = Inr ()"
    and fold: "efold (bandwidth_step ctl (resources db) False) (bill_to_accounts tc)
       (large_number_no_overflow, large_number_no_overflow, False, False) = Inr pay"
    and net: "check_net_usage ctl (lower_final_limits pay tc) = Inr ()" and same: "same_limits (lower_final_limits pay tc) tc'"
    and cpu: "validate_cpu_usage_to_bill ctl (billed_cpu_time_us tc') True tc' = Inr ()"
    and rl: "add_transaction_usage (bill_to_accounts tc) (word_of_int (billed_cpu_time_us tc')) (trx_net_usage tc') (block_slot ctl)
       (resources db) = Inr (resources db')"
    by (rule finalize_run [OF assms(1)])
  have "0 \<le> large_number_no_overflow" by (simp add: large_number)
  then have pays: "\<forall>a \<in> set (bill_to_accounts tc). pays ctl (resources db) False pay a"
    and pay: "0 \<le> fst pay" "fst pay \<le> large_number_no_overflow"
    using bandwidth_pays [OF fold] by simp_all
  note low = lower_final_limits_facts [OF pay, of tc]
  have usage: "unat (trx_net_usage tc') \<le> unat (net_limit (lower_final_limits pay tc))"
    using check_net_usage_ok [OF net assms(2)] same low(5) by (simp add: same_limits_def word_le_nat_alt)
  then have n: "unat (trx_net_usage tc') \<le> unat (net_limit tc)" "int (unat (trx_net_usage tc')) \<le> fst pay"
    using low(1,2) by linarith+
  have c: "uint (min_transaction_cpu_usage (configuration ctl)) \<le> billed_cpu_time_us tc'"
    "billed_cpu_time_us tc' \<le> fst (snd pay)" "billed_cpu_time_us tc' \<le> objective_duration_limit tc"
    using validate_cpu_ok [OF cpu assms(2)] same low(3) by (simp_all add: same_limits_def)
  have "\<exists>n c. get_account_net_limit (resources db) a (use_elastic_limit ctl False a) = Inr n \<and>
       get_account_cpu_limit (resources db) a (use_elastic_limit ctl False a) = Inr c \<and>
       (sint n \<ge> 0 \<longrightarrow> int (unat (trx_net_usage tc')) \<le> sint n) \<and> (sint c \<ge> 0 \<longrightarrow> billed_cpu_time_us tc' \<le> sint c)"
    if a: "a \<in> set (bill_to_accounts tc)" for a
    using bspec [OF pays a] n(2) c(2) unfolding pays_def by (meson order_trans)
  moreover have "trx_net_usage tc' = (trx_net_usage tc + 7) div 8 * 8" using same low(4) by (simp add: same_limits_def)
  moreover have "pending_net_usage (rl_state (resources db')) = pending_net_usage (rl_state (resources db)) + trx_net_usage tc'"
    "pending_cpu_usage (rl_state (resources db')) = pending_cpu_usage (rl_state (resources db)) + word_of_int (billed_cpu_time_us tc')"
    using rl by (auto elim!: add_transaction_usage_steps)
  ultimately show ?thesis using n(1) c(1,3) ram by blast
qed


subsection \<open>A sample transaction\<close>

definition sample_config :: chain_config where
  "sample_config = \<lparr>max_block_net_usage = 1048576, target_block_net_usage_pct = 1000, max_transaction_net_usage = 524288,
     base_per_transaction_net_usage = 12, net_usage_leeway = 500, context_free_discount_net_usage_num = 20,
     context_free_discount_net_usage_den = 100, max_block_cpu_usage = 200000, target_block_cpu_usage_pct = 1000,
     max_transaction_cpu_usage = 150000, min_transaction_cpu_usage = 100, max_transaction_lifetime = 3600,
     deferred_trx_expiration_window = 600, cfg_max_transaction_delay = 3888000, max_inline_action_size = 4096,
     max_inline_action_depth = 4, cfg_max_authority_depth = 6\<rparr>"

definition sample_ctl :: controller_env where
  "sample_ctl = \<lparr>ctl_auth = sample_env, ctl_lists = \<lparr>sender_bypass_whiteblacklist = [], actor_whitelist = [], actor_blacklist = [], contract_whitelist = [],
       contract_blacklist = [], action_blacklist = [], key_blacklist = []\<rparr>,
     configuration = sample_config, is_producing_block = False, skip_auth_check = False, skip_trx_checks = False,
     allow_ram_billing_in_notify = False, resource_greylist = [], head_block_id = sample_digest 0,
     block_summary = (\<lambda>_. sample_digest 0), ctl_crypto = trx_crypto, ctl_codec = sample_codec,
     now_at = (\<lambda>n. 1000 + int n), use_deadline_timer = True, timer_overhead = 10, setitimer_fails = (\<lambda>_. False),
     timer_fired = (\<lambda>_. False)\<rparr>"

definition sample_chain_db :: "resource_db \<Rightarrow> chain_db" where
  "sample_chain_db rl = \<lparr>permissions = permissions sample_auth_db, usages = usages sample_auth_db, links = links sample_auth_db,
     generated = [], account_index = [], account_sequence_index = [], resources = rl, transactions = [],
     global_action_sequence = 0\<rparr>"

definition sample_started :: "(transaction_context \<times> chain_db) result" where
  "sample_started =
     ebind (initialize_account 1 initialize_database) (\<lambda>rl.
     ebind (make_transaction_context (make_signed sample_trx [] []) (sample_digest 1) 1000 False 0) (\<lambda>tc.
     Inr (tc, sample_chain_db rl)))"



text \<open>The steps of the limits one after the other, for evaluation.\<close>

lemma init_objective_limits_code [code]:
  "init_objective_limits ctl rl tc = fold (\<lambda>f. f)
     [\<lambda>tc. tc\<lparr>net_limit := get_block_net_limit rl, objective_duration_limit := sint (get_block_cpu_limit rl),
            hard_deadline := start tc + sint (get_block_cpu_limit rl)\<rparr>,
      lower_net_limit (ucast (max_transaction_net_usage (configuration ctl))),
      lower_duration_limit (uint (max_transaction_cpu_usage (configuration ctl))),
      \<lambda>tc. if (ucast (max_net_usage_words (trx tc)) :: u64) * 8 > 0
           then lower_net_limit (ucast (max_net_usage_words (trx tc)) * 8) tc else tc,
      \<lambda>tc. if max_cpu_usage_ms (trx tc) > 0 then lower_duration_limit (uint (max_cpu_usage_ms (trx tc)) * 1000) tc else tc,
      \<lambda>tc. tc\<lparr>initial_objective_duration_limit := objective_duration_limit tc\<rparr>] tc"
  by (simp add: init_objective_limits_def Let_def)

lemma init_account_limits_code [code]:
  "init_account_limits ctl (n, c, gn, gc) tc = fold (\<lambda>f. f)
     [\<lambda>tc. tc\<lparr>net_limit_due_to_greylist := net_limit_due_to_greylist tc \<or> gn,
            cpu_limit_due_to_greylist := cpu_limit_due_to_greylist tc \<or> gc, eager_net_limit := net_limit tc\<rparr>,
      \<lambda>tc. if min (eager_net_limit tc) (word_of_int (n + uint (net_usage_leeway (configuration ctl)))) < eager_net_limit tc
           then tc\<lparr>eager_net_limit := min (eager_net_limit tc) (word_of_int (n + uint (net_usage_leeway (configuration ctl)))),
                   net_limit_due_to_block := False\<rparr> else tc,
      \<lambda>tc. if c + leeway tc \<le> hard_deadline tc - start tc
           then tc\<lparr>hard_deadline := start tc + c + leeway tc, billing_timer_exception_code := leeway_deadline_exception\<rparr> else tc,
      \<lambda>tc. tc\<lparr>billing_timer_duration_limit := hard_deadline tc - start tc\<rparr>,
      \<lambda>tc. if explicit_billed_cpu_time tc \<or> deadline tc < hard_deadline tc
           then tc\<lparr>hard_deadline := deadline tc, deadline_exception_code := deadline_exception\<rparr>
           else tc\<lparr>deadline_exception_code := billing_timer_exception_code tc\<rparr>,
      \<lambda>tc. tc\<lparr>eager_net_limit := eager_net_limit tc div 8 * 8\<rparr>] tc"
  unfolding init_account_limits_def Let_def fold.simps o_apply id_apply prod.case ..

lemma lower_final_limits_code [code]:
  "lower_final_limits (n, c, gn, gc) tc = fold (\<lambda>f. f)
     [\<lambda>tc. tc\<lparr>net_limit_due_to_greylist := net_limit_due_to_greylist tc \<or> gn,
            cpu_limit_due_to_greylist := cpu_limit_due_to_greylist tc \<or> gc\<rparr>,
      \<lambda>tc. if word_of_int n \<le> net_limit tc then tc\<lparr>net_limit := word_of_int n, net_limit_due_to_block := False\<rparr> else tc,
      \<lambda>tc. if c \<le> objective_duration_limit tc
           then tc\<lparr>objective_duration_limit := c, billing_timer_exception_code := tx_cpu_usage_exceeded\<rparr> else tc,
      \<lambda>tc. tc\<lparr>trx_net_usage := (trx_net_usage tc + 7) div 8 * 8\<rparr>,
      \<lambda>tc. tc\<lparr>eager_net_limit := net_limit tc\<rparr>] tc"
  unfolding lower_final_limits_def Let_def fold.simps o_apply id_apply prod.case ..


fun init_bill :: "controller_env \<Rightarrow> transaction_context \<times> 'a chain_db_scheme \<Rightarrow> (transaction_context \<times> 'a chain_db_scheme) result" where
  "init_bill ctl (tc, db) =
     ebind (update_account_usage (billed_actors (trx tc) (bill_to_accounts tc)) (block_slot ctl) (resources db)) (\<lambda>rl.
     Inr (tc\<lparr>bill_to_accounts := billed_actors (trx tc) (bill_to_accounts tc)\<rparr>, db\<lparr>resources := rl\<rparr>))"

fun init_pay :: "controller_env \<Rightarrow> transaction_context \<times> 'a chain_db_scheme \<Rightarrow> (transaction_context \<times> 'a chain_db_scheme) result" where
  "init_pay ctl (tc, db) =
     ebind (max_bandwidth_billed_accounts_can_pay ctl False tc db) (\<lambda>pay. Inr (init_account_limits ctl pay tc, db))"

fun init_usage :: "controller_env \<Rightarrow> u64 \<Rightarrow> transaction_context \<times> 'a chain_db_scheme \<Rightarrow> (transaction_context \<times> 'a chain_db_scheme) result" where
  "init_usage ctl u (tc, db) = ebind (if u > 0 then add_net_usage ctl u tc else Inr tc) (\<lambda>tc. Inr (tc, db))"

fun init_checktime :: "controller_env \<Rightarrow> transaction_context \<times> 'a chain_db_scheme \<Rightarrow> (transaction_context \<times> 'a chain_db_scheme) result" where
  "init_checktime ctl (tc, db) = ebind (tc_checktime ctl tc) (\<lambda>tc. Inr (tc, db))"

fun init_deadline :: "controller_env \<Rightarrow> transaction_context \<times> 'a chain_db_scheme \<Rightarrow> (transaction_context \<times> 'a chain_db_scheme) result" where
  "init_deadline ctl (tc, db) =
     Inr ((if skip_trx_checks ctl then tc\<lparr>timer_expired := False\<rparr>
           else deadline_timer_start ctl (hard_deadline tc) tc)\<lparr>is_initialized := True\<rparr>, db)"

lemma init_code [code]:
  "init ctl u (tc, db) = EOS_ASSERT (\<not> is_initialized tc) transaction_exception
     (ebind (if billed_cpu_time_us tc > 0
             then validate_cpu_usage_to_bill ctl (billed_cpu_time_us tc) False (init_objective_limits ctl (resources db) tc) else Inr ()) (\<lambda>_.
      ebind (ebind (ebind (ebind (init_bill ctl (init_objective_limits ctl (resources db) tc, db)) (init_pay ctl)) (init_usage ctl u))
        (init_checktime ctl)) (init_deadline ctl)))"
  unfolding init_def Let_def prod.case init_objective_limits_least(10)
  by (auto simp: ebind_def split: sum.splits)



theorem finished_transaction_billed_witness:
  "\<exists>tc db tc' db'. ebind sample_started (init sample_ctl 100) = Inr (tc, db) \<and> finalize sample_ctl (tc, db) = Inr (tc', db') \<and>
     trx_net_usage tc' = (trx_net_usage tc + 7) div 8 * 8 \<and> 100 \<le> billed_cpu_time_us tc' \<and>
     pending_net_usage (rl_state (resources db')) = pending_net_usage (rl_state (resources db)) + trx_net_usage tc'"
proof -
  have "\<not> isl (ebind (ebind sample_started (init sample_ctl 100)) (finalize sample_ctl))" by code_simp
  then obtain tc db tc' db' where run: "ebind sample_started (init sample_ctl 100) = Inr (tc, db)"
      "finalize sample_ctl (tc, db) = Inr (tc', db')"
    unfolding not_isl_iff ebind_Inr_iff by (metis surj_pair)
  have "\<not> skip_trx_checks sample_ctl" "min_transaction_cpu_usage (configuration sample_ctl) = 100"
    by (simp_all add: sample_ctl_def sample_config_def)
  with finished_transaction_billed [OF run(2)] have "trx_net_usage tc' = (trx_net_usage tc + 7) div 8 * 8 \<and> 100 \<le> billed_cpu_time_us tc' \<and>
     pending_net_usage (rl_state (resources db')) = pending_net_usage (rl_state (resources db)) + trx_net_usage tc'"
    by simp
  with run show ?thesis by blast
qed

end
