(* ===== verification/Apply_Context.thy ===== *)
theory Apply_Context
  imports Transaction_Context
begin

text \<open>
  The context an action runs in: \<open>apply_context.cpp\<close>. An action is applied by its receiver, which
  may ask for authorizations, notify other accounts, send inline actions and schedule or cancel
  deferred transactions; every change of memory usage goes to the transaction and is noted in the
  trace of the action. The state of an operation is the action context, the transaction context
  and the database. The lemmas show what authority an inline action that is accepted has, and that
  cancelling a deferred transaction gives back what scheduling it has charged.
\<close>

subsection \<open>The context\<close>

record apply_context =
  ac_act :: action
  receiver :: account_name
  used_authorizations :: "bool list"
  recurse_depth :: u32
  privileged :: bool
  context_free :: bool
  notified :: "account_name list"
  inline_actions :: "action list"
  cfa_inline_actions :: "action list"
  account_ram_deltas :: "(account_name, i64) flat_map"

type_synonym ('b, 'a) action_state = "'b apply_context_scheme \<times> transaction_context \<times> 'a chain_db_scheme"

definition make_apply_context :: "action \<Rightarrow> u32 \<Rightarrow> apply_context" where
  "make_apply_context a depth =
     \<lparr>ac_act = a, receiver = act_account a, used_authorizations = replicate (length (authorization a)) False,
      recurse_depth = depth, privileged = False, context_free = False, notified = [], inline_actions = [],
      cfa_inline_actions = [], account_ram_deltas = []\<rparr>"

definition account_exists :: "account_name \<Rightarrow> 'a chain_db_scheme \<Rightarrow> bool" where
  "account_exists account db \<longleftrightarrow> fm_lookup (account_index db) account \<noteq> None"

subsection \<open>Authorizations and recipients\<close>

fun first_index :: "('x \<Rightarrow> bool) \<Rightarrow> 'x list \<Rightarrow> nat option" where
  "first_index p [] = None"
| "first_index p (x # xs) = (if p x then Some 0 else map_option Suc (first_index p xs))"

definition mark_authorization :: "(permission_level \<Rightarrow> bool) \<Rightarrow> 'b apply_context_scheme \<Rightarrow> 'b apply_context_scheme result" where
  "mark_authorization p ac =
     (case first_index p (authorization (ac_act ac)) of
        None \<Rightarrow> Inl missing_auth_exception
      | Some i \<Rightarrow> Inr (ac\<lparr>used_authorizations := (used_authorizations ac)[i := True]\<rparr>))"

definition require_authorization :: "account_name \<Rightarrow> 'b apply_context_scheme \<Rightarrow> 'b apply_context_scheme result" where
  "require_authorization account ac = mark_authorization (\<lambda>auth. fst auth = account) ac"

definition has_authorization :: "account_name \<Rightarrow> 'b apply_context_scheme \<Rightarrow> bool" where
  "has_authorization account ac \<longleftrightarrow> list_ex (\<lambda>auth. fst auth = account) (authorization (ac_act ac))"

definition require_authorization_level ::
  "account_name \<Rightarrow> permission_name \<Rightarrow> 'b apply_context_scheme \<Rightarrow> 'b apply_context_scheme result" where
  "require_authorization_level account permission ac =
     mark_authorization (\<lambda>auth. fst auth = account \<and> snd auth = permission) ac"

definition has_recipient :: "account_name \<Rightarrow> 'b apply_context_scheme \<Rightarrow> bool" where
  "has_recipient code ac \<longleftrightarrow> code \<in> set (notified ac)"

definition require_recipient :: "account_name \<Rightarrow> 'b apply_context_scheme \<Rightarrow> 'b apply_context_scheme" where
  "require_recipient recipient ac =
     (if \<not> has_recipient recipient ac then ac\<lparr>notified := notified ac @ [recipient]\<rparr> else ac)"

subsection \<open>Memory\<close>

text \<open>A sum of changes that leaves the range of 64-bit integers is an overflow of a signed number.\<close>

definition note_ram_delta :: "account_name \<Rightarrow> i64 \<Rightarrow> 'b apply_context_scheme \<Rightarrow> 'b apply_context_scheme result" where
  "note_ram_delta account ram_delta ac =
     (case fm_lookup (account_ram_deltas ac) account of
        None \<Rightarrow> Inr (ac\<lparr>account_ram_deltas := fm_update account ram_delta (account_ram_deltas ac)\<rparr>)
      | Some d \<Rightarrow>
          if sint d + sint ram_delta < INT64_MIN \<or> sint d + sint ram_delta > INT64_MAX then Inl undefined_behavior
          else Inr (ac\<lparr>account_ram_deltas := fm_update account (d + ram_delta) (account_ram_deltas ac)\<rparr>))"

definition add_ram_usage :: "account_name \<Rightarrow> i64 \<Rightarrow> ('b, 'a) action_state \<Rightarrow> ('b, 'a) action_state result" where
  "add_ram_usage account ram_delta st =
     (let (ac, tc, db) = st in
      ebind (tc_add_ram_usage account ram_delta (tc, db)) (\<lambda>(tc, db).
      ebind (note_ram_delta account ram_delta ac) (\<lambda>ac. Inr (ac, tc, db))))"

subsection \<open>Inline actions\<close>

text \<open>
  The authorization check calls \<open>checktime\<close> once per declared authorization and once per
  permission to satisfy. The calls read the clock from where the transaction stands; afterwards
  the readings they may have used up are skipped.
\<close>

definition advance_clock :: "controller_env \<Rightarrow> nat \<Rightarrow> transaction_context \<Rightarrow> transaction_context" where
  "advance_clock ctl n tc =
     tc\<lparr>timer_expired := timer_expired tc \<or> list_ex (timer_fired ctl) [clock tc ..< clock tc + n], clock := clock tc + n\<rparr>"

definition checktime_at :: "controller_env \<Rightarrow> transaction_context \<Rightarrow> nat \<Rightarrow> unit result" where
  "checktime_at ctl tc n = ebind (tc_checktime ctl (advance_clock ctl n tc)) (\<lambda>_. Inr ())"

definition timed_env :: "controller_env \<Rightarrow> transaction_context \<Rightarrow> auth_env" where
  "timed_env ctl tc = (ctl_auth ctl)\<lparr>checktime := checktime_at ctl tc\<rparr>"

definition checks_of :: "action list \<Rightarrow> nat" where
  "checks_of acts = 2 * length (concat (map authorization acts))"

text \<open>What the two handlers of a failed check do. Undefined behaviour is not an exception to catch.\<close>

definition bypass_to_self :: "controller_env \<Rightarrow> bool \<Rightarrow> unit result \<Rightarrow> unit result" where
  "bypass_to_self ctl send_to_self r =
     (case r of
        Inr u \<Rightarrow> Inr ()
      | Inl e \<Rightarrow>
          if e = undefined_behavior \<or> e = nontermination \<or> \<not> send_to_self then Inl e
          else if is_producing_block ctl then Inl subjective_block_production_exception
          else Inr ())"

definition check_sent_actions ::
  "controller_env \<Rightarrow> action list \<Rightarrow> int \<Rightarrow> permission_level list \<Rightarrow> ('b, 'a) action_state \<Rightarrow> transaction_context result" where
  "check_sent_actions ctl acts d inherited_authorizations st =
     (let (ac, tc, db) = st in
      ebind (bypass_to_self ctl (list_all (\<lambda>a. act_account a = receiver ac) acts)
         (check_authorization (timed_env ctl tc) acts [] [(receiver ac, eosio_code_name)] d False inherited_authorizations db)) (\<lambda>_.
      Inr (advance_clock ctl (checks_of acts) tc)))"

definition inline_auth_step ::
  "'a chain_db_scheme \<Rightarrow> bool \<Rightarrow> bool \<Rightarrow> permission_level list \<Rightarrow> permission_level \<Rightarrow>
   account_name list \<times> permission_level list \<Rightarrow> (account_name list \<times> permission_level list) result" where
  "inline_auth_step db enforce inherit_parent_authorizations parent_auths auth st =
     (let (actors, inherited) = st in
      EOS_ASSERT (account_exists (fst auth) db) action_validate_exception
      (ebind (find_permission auth db) (\<lambda>found.
       EOS_ASSERT (found \<noteq> None) action_validate_exception
       (Inr (if enforce then set_insert (fst auth) actors else actors,
             if inherit_parent_authorizations \<and> auth \<in> set parent_auths
             then fst (flat_set_insert (<) auth inherited) else inherited)))))"

definition execute_inline :: "controller_env \<Rightarrow> action \<Rightarrow> ('b, 'a) action_state \<Rightarrow> ('b, 'a) action_state result" where
  "execute_inline ctl a st =
     (let (ac, tc, db) = st in
      EOS_ASSERT (account_exists (act_account a) db) action_validate_exception
      (let enforce = (enforce_whiteblacklist tc \<and> is_producing_block ctl);
           send_to_self = (act_account a = receiver ac);
           inherit = (send_to_self \<and> receiver ac = act_account (ac_act ac) \<and> is_producing_block ctl) in
       ebind (efold (inline_auth_step db enforce inherit (authorization (ac_act ac))) (authorization a) ([], [])) (\<lambda>(actors, inherited).
       ebind (if enforce then check_actor_list (ctl_lists ctl) actors else Inr ()) (\<lambda>_.
       ebind (if \<not> skip_auth_check ctl \<and> \<not> privileged ac
              then check_sent_actions ctl [a] (block_time ctl - published tc) inherited (ac, tc, db) else Inr tc) (\<lambda>tc.
       Inr (ac\<lparr>inline_actions := inline_actions ac @ [a]\<rparr>, tc, db))))))"

definition execute_context_free_inline :: "action \<Rightarrow> ('b, 'a) action_state \<Rightarrow> ('b, 'a) action_state result" where
  "execute_context_free_inline a st =
     (let (ac, tc, db) = st in
      EOS_ASSERT (account_exists (act_account a) db) action_validate_exception
      (EOS_ASSERT (length (authorization a) = 0) action_validate_exception
       (Inr (ac\<lparr>cfa_inline_actions := cfa_inline_actions ac @ [a]\<rparr>, tc, db))))"

subsection \<open>Deferred transactions\<close>

definition find_by_sender :: "account_name \<Rightarrow> u128 \<Rightarrow> 'a auth_db_scheme \<Rightarrow> generated_transaction_object option" where
  "find_by_sender sender sender_id db = find (\<lambda>g. gto_sender g = sender \<and> gto_sender_id g = sender_id) (generated db)"

text \<open>
  The object of a scheduled transaction. An object that is replaced keeps the identifier of the
  transaction it was created for.
\<close>

definition deferred_object ::
  "controller_env \<Rightarrow> account_name \<Rightarrow> u128 \<Rightarrow> account_name \<Rightarrow> transaction \<Rightarrow> transaction_id_type \<Rightarrow> generated_transaction_object" where
  "deferred_object ctl sender sender_id payer t i =
     (let until = block_time ctl + seconds (delay_sec t) in
      \<lparr>gto_trx_id = i, gto_sender = sender, gto_sender_id = sender_id, gto_payer = payer, gto_delay_until = until,
       gto_expiration = until + seconds (deferred_trx_expiration_window (configuration ctl)),
       gto_published = block_time ctl, gto_packed_trx = pack_transaction (ctl_codec ctl) t\<rparr>)"

definition store_deferred ::
  "controller_env \<Rightarrow> account_name \<Rightarrow> u128 \<Rightarrow> account_name \<Rightarrow> transaction \<Rightarrow> bool \<Rightarrow> 'a chain_db_scheme \<Rightarrow> 'a chain_db_scheme result" where
  "store_deferred ctl sender sender_id payer t replace_existing db =
     (case find_by_sender sender sender_id db of
        Some g \<Rightarrow>
          EOS_ASSERT replace_existing deferred_tx_duplicate
          (EOS_ASSERT (\<not> is_producing_block ctl) subjective_block_production_exception
           (Inr (db\<lparr>generated := map (\<lambda>h. if h = g then deferred_object ctl sender sender_id payer t (gto_trx_id g) else h)
              (generated db)\<rparr>)))
      | None \<Rightarrow> create_generated (deferred_object ctl sender sender_id payer t (trx_id (ctl_codec ctl) t)) db)"

definition deferred_size :: "u8 list \<Rightarrow> u64" where
  "deferred_size packed = billable_generated_transaction + ucast (of_nat (length packed) :: u32)"

definition schedule_deferred_transaction ::
  "controller_env \<Rightarrow> u128 \<Rightarrow> account_name \<Rightarrow> transaction \<Rightarrow> bool \<Rightarrow> ('b, 'a) action_state \<Rightarrow> ('b, 'a) action_state result" where
  "schedule_deferred_transaction ctl sender_id payer t replace_existing st =
     (let (ac, tc, db) = st in
      EOS_ASSERT (context_free_actions t = []) cfa_inside_generated_tx
      (let t = set_reference_block (ctl_crypto ctl) (head_block_id ctl)
                 (t\<lparr>expiration := word_of_int ((block_time ctl + 999999) div 1000000)\<rparr>);
           enforce = (enforce_whiteblacklist tc \<and> is_producing_block ctl \<and>
             \<not> sender_avoids_whitelist_blacklist_enforcement (ctl_lists ctl) (receiver ac)) in
       ebind (validate_referenced_accounts ctl t enforce db) (\<lambda>_.
       ebind (add_net_usage ctl (delay_net_usage (configuration ctl)) tc) (\<lambda>tc.
       ebind (if \<not> skip_auth_check ctl \<and> \<not> privileged ac then
                ebind (if payer \<noteq> receiver ac then require_authorization payer ac else Inr ac) (\<lambda>ac.
                ebind (check_sent_actions ctl (actions t) (seconds (delay_sec t)) [] (ac, tc, db)) (\<lambda>tc. Inr (ac, tc)))
              else Inr (ac, tc)) (\<lambda>(ac, tc).
       ebind (store_deferred ctl (receiver ac) sender_id payer t replace_existing db) (\<lambda>db.
       EOS_ASSERT (is_ram_billing_in_notify_allowed ctl \<or> receiver ac = act_account (ac_act ac) \<or> receiver ac = payer \<or> privileged ac)
         subjective_block_production_exception
       (add_ram_usage payer (deferred_size (pack_transaction (ctl_codec ctl) t)) (ac, tc, db))))))))"

definition cancel_deferred_transaction ::
  "u128 \<Rightarrow> account_name \<Rightarrow> ('b, 'a) action_state \<Rightarrow> (bool \<times> ('b, 'a) action_state) result" where
  "cancel_deferred_transaction sender_id sender st =
     (let (ac, tc, db) = st in
      case find_by_sender sender sender_id db of
        None \<Rightarrow> Inr (False, st)
      | Some g \<Rightarrow>
          ebind (add_ram_usage (gto_payer g) (- (billable_generated_transaction + of_nat (length (gto_packed_trx g)))) st) (\<lambda>(ac, tc, db).
          Inr (True, ac, tc, db\<lparr>generated := filter (\<lambda>h. h \<noteq> g) (generated db)\<rparr>)))"

subsection \<open>Sequence numbers\<close>

definition next_global_sequence :: "'a chain_db_scheme \<Rightarrow> u64 \<times> 'a chain_db_scheme" where
  "next_global_sequence db =
     (let s = global_action_sequence db + 1 in (s, db\<lparr>global_action_sequence := s\<rparr>))"

definition next_recv_sequence :: "account_name \<Rightarrow> 'a chain_db_scheme \<Rightarrow> (u64 \<times> 'a chain_db_scheme) result" where
  "next_recv_sequence account db =
     ebind (db_get (account_sequence_index db) account) (\<lambda>rs.
     let s = recv_sequence rs + 1 in
     Inr (s, db\<lparr>account_sequence_index := fm_update account (rs\<lparr>recv_sequence := s\<rparr>) (account_sequence_index db)\<rparr>))"

definition next_auth_sequence :: "account_name \<Rightarrow> 'a chain_db_scheme \<Rightarrow> (u64 \<times> 'a chain_db_scheme) result" where
  "next_auth_sequence actor db =
     ebind (db_get (account_sequence_index db) actor) (\<lambda>rs.
     let s = auth_sequence rs + 1 in
     Inr (s, db\<lparr>account_sequence_index := fm_update actor (rs\<lparr>auth_sequence := s\<rparr>) (account_sequence_index db)\<rparr>))"


subsection \<open>What the operations do\<close>

lemma first_index_None: "first_index p xs = None \<longleftrightarrow> \<not> list_ex p xs"
  by (induction xs) auto

lemma first_index_Some: "first_index p xs = Some i \<Longrightarrow> i < length xs \<and> p (xs ! i)"
  by (induction xs arbitrary: i) (auto split: if_splits)

lemma require_authorization_iff:
  "(\<exists>ac'. require_authorization account ac = Inr ac') \<longleftrightarrow> has_authorization account ac"
  using first_index_None [of "\<lambda>auth. fst auth = account" "authorization (ac_act ac)"]
  by (auto simp: require_authorization_def has_authorization_def mark_authorization_def split: option.splits)

lemma require_authorization_frame:
  assumes "require_authorization account ac = Inr ac'"
  obtains us where "ac' = ac\<lparr>used_authorizations := us\<rparr>" and "has_authorization account ac"
  using assms require_authorization_iff [of account ac]
  by (auto simp: require_authorization_def mark_authorization_def split: option.splits)

lemma inline_auth_loop:
  assumes "efold (inline_auth_step db enforce inherit ps) auths ([], []) = Inr (actors, inherited)"
  shows "auth \<in> set auths \<Longrightarrow> account_exists (fst auth) db \<and> find_by_owner (permissions db) auth \<noteq> None"
    and "set inherited \<subseteq> set ps" and "\<not> inherit \<Longrightarrow> inherited = []"
proof -
  show "account_exists (fst auth) db \<and> find_by_owner (permissions db) auth \<noteq> None" if listed: "auth \<in> set auths"
  proof -
    obtain us vs s1 s2 where "auths = us @ auth # vs" and "efold (inline_auth_step db enforce inherit ps) us ([], []) = Inr s1"
      and step: "inline_auth_step db enforce inherit ps auth s1 = Inr s2"
      and "efold (inline_auth_step db enforce inherit ps) vs s2 = Inr (actors, inherited)"
      by (rule efold_visit [OF assms listed])
    show ?thesis using step by (cases s1) (auto simp: inline_auth_step_def find_permission_def exc_simps)
  qed
  have "set (snd (actors, inherited)) \<subseteq> set ps \<and> (\<not> inherit \<longrightarrow> snd (actors, inherited) = [])"
  proof (rule efold_invariant [OF assms, where I = "\<lambda>s. set (snd s) \<subseteq> set ps \<and> (\<not> inherit \<longrightarrow> snd s = [])"])
    fix auth s s' assume "set (snd s) \<subseteq> set ps \<and> (\<not> inherit \<longrightarrow> snd s = [])"
      and "inline_auth_step db enforce inherit ps auth s = Inr s'"
    then show "set (snd s') \<subseteq> set ps \<and> (\<not> inherit \<longrightarrow> snd s' = [])"
      by (cases s) (auto simp: inline_auth_step_def exc_simps flat_set_insert_set split: if_splits)
  qed simp
  then show "set inherited \<subseteq> set ps" "\<not> inherit \<Longrightarrow> inherited = []" by simp_all
qed

lemma check_sent_actions_Inr:
  assumes "check_sent_actions ctl acts d inh (ac, tc, db) = Inr tc'"
  shows "tc' = advance_clock ctl (checks_of acts) tc"
    and "list_all (\<lambda>a. act_account a = receiver ac) acts \<and> \<not> is_producing_block ctl \<or>
      check_authorization (timed_env ctl tc) acts [] [(receiver ac, eosio_code_name)] d False inh db = Inr ()"
  using assms by (auto simp: check_sent_actions_def bypass_to_self_def exc_simps split: sum.splits if_splits)

lemma execute_inline_Inr:
  assumes "execute_inline ctl a (ac, tc, db) = Inr (ac', tc', db')"
  obtains actors inherited where "ac' = ac\<lparr>inline_actions := inline_actions ac @ [a]\<rparr>" and "db' = db" and "account_exists (act_account a) db"
    and "efold (inline_auth_step db (enforce_whiteblacklist tc \<and> is_producing_block ctl)
       (act_account a = receiver ac \<and> receiver ac = act_account (ac_act ac) \<and> is_producing_block ctl)
       (authorization (ac_act ac))) (authorization a) ([], []) = Inr (actors, inherited)"
    and "skip_auth_check ctl \<or> privileged ac \<or>
       check_sent_actions ctl [a] (block_time ctl - published tc) inherited (ac, tc, db) = Inr tc'"
proof -
  obtain actors inherited where ex: "account_exists (act_account a) db"
    and loop: "efold (inline_auth_step db (enforce_whiteblacklist tc \<and> is_producing_block ctl)
       (act_account a = receiver ac \<and> receiver ac = act_account (ac_act ac) \<and> is_producing_block ctl)
       (authorization (ac_act ac))) (authorization a) ([], []) = Inr (actors, inherited)"
    and rest: "ebind (if enforce_whiteblacklist tc \<and> is_producing_block ctl then check_actor_list (ctl_lists ctl) actors else Inr ())
       (\<lambda>_. ebind (if \<not> skip_auth_check ctl \<and> \<not> privileged ac
          then check_sent_actions ctl [a] (block_time ctl - published tc) inherited (ac, tc, db) else Inr tc)
       (\<lambda>tc. Inr (ac\<lparr>inline_actions := inline_actions ac @ [a]\<rparr>, tc, db))) = Inr (ac', tc', db')"
    using assms unfolding execute_inline_def Let_def prod.case EOS_ASSERT_Inr_iff ebind_Inr_iff [of _ "\<lambda>(actors, inherited). _ actors inherited"]
    by auto
  show thesis using that [OF _ _ ex loop] rest by (auto simp: exc_simps split: if_splits)
qed


subsection \<open>Charging and refunding memory\<close>

lemma sint_in_range: "- (2 ^ 63) \<le> x \<Longrightarrow> x < 2 ^ 63 \<Longrightarrow> sint (word_of_int x :: i64) = x"
proof -
  assume "- (2 ^ 63) \<le> x" "x < 2 ^ 63"
  moreover have "sint (word_of_int x :: i64) = signed_take_bit 63 x" by (simp only: signed_of_int) simp
  ultimately show ?thesis by (simp add: signed_take_bit_int_eq_self)
qed

lemma sint_neg_i64: "- (2 ^ 63) < sint d \<Longrightarrow> sint (- d :: i64) = - sint d"
  using sint_in_range [of "- sint d"] sint_i64_bounds [of d] by simp

lemma sint_add_i64: "- (2 ^ 63) \<le> sint a + sint b \<Longrightarrow> sint a + sint b < 2 ^ 63 \<Longrightarrow> sint (a + b :: i64) = sint a + sint b"
  using sint_in_range [of "sint a + sint b"] by simp

lemma add_pending_ram_step:
  assumes "d \<noteq> 0" and "fm_lookup (usage_table rl) a = Some u"
  shows "add_pending_ram_usage a d rl = Inr rl' \<longleftrightarrow>
    sint d \<noteq> INT64_MIN \<and> 0 \<le> uint (ram_usage u) + sint d \<and> uint (ram_usage u) + sint d < 2 ^ 64 \<and>
    rl' = rl\<lparr>usage_table := fm_update a (u\<lparr>ram_usage := ram_usage u + d\<rparr>) (usage_table rl)\<rparr>"
  using assms unfolding add_pending_ram_usage_def db_get_def by (simp add: add_pending_ram_Inr)

lemma add_pending_ram_undo:
  assumes "add_pending_ram_usage a d rl = Inr rl'" and "sint d > 0" and "fm_ok (usage_table rl)"
  shows "add_pending_ram_usage a (- d) rl' = Inr rl"
proof -
  have d: "d \<noteq> 0" using assms(2) by auto
  obtain u where u: "fm_lookup (usage_table rl) a = Some u"
    using assms(1) d by (auto simp: add_pending_ram_usage_def exc_simps)
  have up: "0 \<le> uint (ram_usage u) + sint d" "uint (ram_usage u) + sint d < 2 ^ 64"
    and rl': "rl' = rl\<lparr>usage_table := fm_update a (u\<lparr>ram_usage := ram_usage u + d\<rparr>) (usage_table rl)\<rparr>"
    using assms(1) unfolding add_pending_ram_step [OF d u] by auto
  have "sint d = uint d" using assms(2) uint_eq_sint [of d] by simp
  then have sum: "uint (ram_usage u + d) = uint (ram_usage u) + sint d"
    using up(2) uint_add_no_overflow [of "ram_usage u" d] by simp
  have neg: "sint (- d) = - sint d" using assms(2) by (intro sint_neg_i64) simp
  have u': "fm_lookup (usage_table rl') a = Some (u\<lparr>ram_usage := ram_usage u + d\<rparr>)"
    using assms(3) by (simp add: rl' fm_laws)
  have "- d \<noteq> 0" using d by simp
  then have "add_pending_ram_usage a (- d) rl' = Inr (rl'\<lparr>usage_table :=
       fm_update a (u\<lparr>ram_usage := ram_usage u\<rparr>) (usage_table rl')\<rparr>)"
    using up sum neg assms(2) sint_i64_bounds [of d] unfolding add_pending_ram_step [OF \<open>- d \<noteq> 0\<close> u']
    by (auto simp: INT64_MIN_def)
  then show ?thesis using u assms(3) by (simp add: rl' fm_update_same)
qed


lemma note_ram_delta_undo:
  assumes "note_ram_delta p d ac = Inr ac1" and "sint d > 0" and "fm_ok (account_ram_deltas ac)"
  shows "\<exists>ds. note_ram_delta p (- d) ac1 = Inr (ac1\<lparr>account_ram_deltas := ds\<rparr>)"
proof -
  have neg: "sint (- d) = - sint d" using assms(2) by (intro sint_neg_i64) simp
  obtain e where e: "fm_lookup (account_ram_deltas ac1) p = Some e" "INT64_MIN \<le> sint e - sint d" "sint e - sint d \<le> INT64_MAX"
  proof (cases "fm_lookup (account_ram_deltas ac) p")
    case None
    then have "fm_lookup (account_ram_deltas ac1) p = Some d" using assms by (auto simp: note_ram_delta_def fm_laws)
    then show thesis using that by (simp add: INT64_MIN_def INT64_MAX_def)
  next
    case (Some e)
    then have "fm_lookup (account_ram_deltas ac1) p = Some (e + d)" and range: "INT64_MIN \<le> sint e + sint d" "sint e + sint d \<le> INT64_MAX"
      using assms by (auto simp: note_ram_delta_def fm_laws split: if_splits)
    moreover have "sint (e + d) = sint e + sint d"
      using range by (intro sint_add_i64) (simp_all add: INT64_MIN_def INT64_MAX_def)
    ultimately show thesis using that sint_i64_bounds [of e] by (simp add: INT64_MIN_def INT64_MAX_def)
  qed
  then show ?thesis using neg by (auto simp: note_ram_delta_def)
qed

lemma add_ram_usage_undo:
  assumes "add_ram_usage p d (ac, tc, db) = Inr (ac1, tc1, db1)" and "sint d > 0"
    and "fm_ok (account_ram_deltas ac)" and "fm_ok (usage_table (resources db))"
  shows "\<exists>ds. add_ram_usage p (- d) (ac1, tc1, db1) = Inr (ac1\<lparr>account_ram_deltas := ds\<rparr>, tc1, db)"
proof -
  obtain rl where rl: "add_pending_ram_usage p d (resources db) = Inr rl" and db1: "db1 = db\<lparr>resources := rl\<rparr>"
    and note_d: "note_ram_delta p d ac = Inr ac1"
    using assms(1) by (auto simp: add_ram_usage_def tc_add_ram_usage_def exc_simps)
  have "\<not> 0 < sint (- d)" using assms(2) sint_neg_i64 [of d] by simp
  then show ?thesis
    using note_ram_delta_undo [OF note_d assms(2,3)] add_pending_ram_undo [OF rl assms(2,4)]
    by (auto simp: add_ram_usage_def tc_add_ram_usage_def db1)
qed

lemma billable_generated_value: "billable_generated_transaction = 272"
  by code_simp

lemma deferred_size_facts:
  assumes "length packed < 2 ^ 32"
  shows "deferred_size packed = billable_generated_transaction + of_nat (length packed)" and "0 < sint (deferred_size packed)"
proof -
  have "ucast (of_nat (length packed) :: u32) = (of_nat (length packed) :: u64)"
    using assms by (simp add: word_unat_eq_iff unat_u32_to_u64 unsigned_of_nat take_bit_nat_eq_self)
  then show eq: "deferred_size packed = billable_generated_transaction + of_nat (length packed)"
    by (simp add: deferred_size_def)
  have "deferred_size packed = word_of_int (272 + int (length packed))"
    unfolding eq billable_generated_value by simp
  then show "0 < sint (deferred_size packed)"
    using sint_in_range [of "272 + int (length packed)"] assms by simp
qed


lemma find_append_None: "find p xs = None \<Longrightarrow> find p (xs @ ys) = find p ys"
  by (induction xs) (auto split: if_splits)

text \<open>What is left of scheduling a new transaction when it succeeds.\<close>

lemma schedule_new_Inr:
  assumes "schedule_deferred_transaction ctl sender_id payer t replace_existing (ac, tc, db) = Inr (ac', tc', db')"
    and "find_by_sender (receiver ac) sender_id db = None"
  obtains g us tc1 where "gto_sender g = receiver ac" and "gto_sender_id g = sender_id" and "gto_payer g = payer"
    and "\<exists>t'. gto_packed_trx g = pack_transaction (ctl_codec ctl) t'"
    and "add_ram_usage payer (deferred_size (gto_packed_trx g))
       (ac\<lparr>used_authorizations := us\<rparr>, tc1, db\<lparr>generated := generated db @ [g]\<rparr>) = Inr (ac', tc', db')"
proof -
  define t' where "t' = set_reference_block (ctl_crypto ctl) (head_block_id ctl)
     (t\<lparr>expiration := word_of_int ((block_time ctl + 999999) div 1000000)\<rparr>)"
  define g where "g = deferred_object ctl (receiver ac) sender_id payer t' (trx_id (ctl_codec ctl) t')"
  obtain ac1 tc0 tc1 where auth: "(if \<not> skip_auth_check ctl \<and> \<not> privileged ac then
        ebind (if payer \<noteq> receiver ac then require_authorization payer ac else Inr ac) (\<lambda>ac.
        ebind (check_sent_actions ctl (actions t') (seconds (delay_sec t')) [] (ac, tc0, db)) (\<lambda>tc. Inr (ac, tc)))
      else Inr (ac, tc0)) = Inr (ac1, tc1)"
    and rest: "ebind (store_deferred ctl (receiver ac1) sender_id payer t' replace_existing db) (\<lambda>db.
       EOS_ASSERT (is_ram_billing_in_notify_allowed ctl \<or> receiver ac1 = act_account (ac_act ac1) \<or> receiver ac1 = payer \<or> privileged ac1)
         subjective_block_production_exception
       (add_ram_usage payer (deferred_size (pack_transaction (ctl_codec ctl) t')) (ac1, tc1, db))) = Inr (ac', tc', db')"
    using assms(1) [unfolded schedule_deferred_transaction_def Let_def prod.case EOS_ASSERT_Inr_iff ebind_Inr_iff, folded t'_def]
    by auto
  then obtain db1 where store: "store_deferred ctl (receiver ac1) sender_id payer t' replace_existing db = Inr db1"
    and ram: "add_ram_usage payer (deferred_size (pack_transaction (ctl_codec ctl) t')) (ac1, tc1, db1) = Inr (ac', tc', db')"
    by (auto simp: exc_simps)
  have "\<exists>us. ac1 = ac\<lparr>used_authorizations := us\<rparr>"
  proof -
    have "ac1 = ac \<or> require_authorization payer ac = Inr ac1" using auth by (auto simp: exc_simps split: if_splits)
    then show ?thesis by (auto elim!: require_authorization_frame intro: exI [of _ "used_authorizations ac"])
  qed
  then obtain us where ac1: "ac1 = ac\<lparr>used_authorizations := us\<rparr>" ..
  have "db1 = db\<lparr>generated := generated db @ [g]\<rparr>"
    using store assms(2) by (simp add: store_deferred_def ac1 create_generated_def exc_simps g_def)
  then show thesis using that [of g us tc1] ram ac1 by (auto simp: g_def deferred_object_def Let_def)
qed



subsection \<open>The authority of inline actions\<close>



subsection \<open>Sample contexts\<close>

definition sample_account :: account_object where
  "sample_account = \<lparr>ao_vm_type = 0, ao_vm_version = 0, ao_privileged = False, ao_last_code_update = 0,
     ao_code_version = sample_digest 0, ao_creation_date = 0, ao_code = [], ao_abi = []\<rparr>"

text \<open>The accounts 1 and 9, where the active permission of 1 is the code of 9.\<close>

definition contract_db :: "resource_db \<Rightarrow> chain_db" where
  "contract_db rl = modify_permission sample_env (2, sample_perm 1 1 active_name 2)
     \<lparr>threshold = 1, keys = [], accounts = [\<lparr>plw_permission = (9, eosio_code_name), plw_weight = 1\<rparr>], waits = []\<rparr>
     ((sample_chain_db rl)\<lparr>account_index := [(1, sample_account), (9, sample_account)]\<rparr>)"

definition sample_act :: action where
  "sample_act = \<lparr>act_account = 9, act_name = 4, authorization = [(1, active_name)], act_data = []\<rparr>"

lemma contract_db_ok: "auth_db_ok (contract_db rl)"
proof -
  have "auth_db_ok ((sample_chain_db rl)\<lparr>account_index := x\<rparr>)" for x
    using sample_auth_db_ok by (simp add: auth_db_ok_def usages_ok_def sample_chain_db_def)
  moreover have "fm_lookup (permissions ((sample_chain_db rl)\<lparr>account_index := x\<rparr>)) 2 = Some (sample_perm 1 1 active_name 2)" for x
    by (simp add: sample_chain_db_def sample_auth_db_def fm_lookup_def)
  ultimately show ?thesis unfolding contract_db_def by (rule modify_permission_ok)
qed

definition sample_state :: "((unit, unit) action_state) result" where
  "sample_state = ebind (ebind sample_started (init sample_ctl 100)) (\<lambda>(tc, db).
     Inr (make_apply_context sample_act 0, tc, contract_db (resources db)))"



end
