(* ===== verification/Native_Actions.thy ===== *)
theory Native_Actions
  imports Apply_Context
begin

text \<open>
  The native actions of the system account: \<open>eosio_contract.cpp\<close>, with the creation of the first
  accounts, the table of handlers and the update of the permissions of the producers from
  \<open>controller.cpp\<close>. Unpacking of action data, hashing and validation of contract code and the
  serialized sizes of keys are parameters. What the actions keep of the tables is in \<open>Native_Accounting\<close>.
\<close>

subsection \<open>Sizes\<close>

definition fixed_overhead_shared_vector_ram_bytes :: u64 where
  "fixed_overhead_shared_vector_ram_bytes = 16"

definition overhead_per_account_ram_bytes :: u64 where
  "overhead_per_account_ram_bytes = 2 * 1024"

definition setcode_ram_bytes_multiplier :: u64 where
  "setcode_ram_bytes_multiplier = 10"

definition billable_shared_authority :: u64 where
  "billable_shared_authority = billable_size_v (3 * fixed_overhead_shared_vector_ram_bytes + 4)"

definition billable_permission_object :: u64 where
  "billable_permission_object = billable_size_v (billable_shared_authority + 64 + 5 * overhead_per_row_per_index_ram_bytes)"

definition billable_permission_link_object :: u64 where
  "billable_permission_link_object = billable_size_v (40 + overhead_per_row_per_index_ram_bytes * 3)"

subsection \<open>Data and parameters\<close>

record newaccount =
  na_creator :: account_name
  na_name :: account_name
  na_owner :: authority
  na_active :: authority

record setcode =
  sc_account :: account_name
  sc_vmtype :: u8
  sc_vmversion :: u8
  sc_code :: "u8 list"

record setabi =
  sa_account :: account_name
  sa_abi :: "u8 list"

record native_env =
  nv_ctl :: controller_env
  unpack_newaccount :: "u8 list \<Rightarrow> newaccount result"
  unpack_setcode :: "u8 list \<Rightarrow> setcode result"
  unpack_setabi :: "u8 list \<Rightarrow> setabi result"
  key_less :: "public_key_type \<Rightarrow> public_key_type \<Rightarrow> bool"
  key_pack_size :: "public_key_type \<Rightarrow> u64"
  hash_code :: "u8 list \<Rightarrow> digest_type"
  wasm_validate :: "u8 list \<Rightarrow> unit result"

definition permission_size :: "(public_key_type \<Rightarrow> u64) \<Rightarrow> permission_object \<Rightarrow> u64" where
  "permission_size psize p = billable_permission_object + get_billable_size psize (po_auth p)"

definition is_eonio_name :: "account_name \<Rightarrow> bool" where
  "is_eonio_name n \<longleftrightarrow> take 6 (name_to_string n) = ''eonio.''"

subsection \<open>Accounts\<close>

definition check_authority_account :: "'a chain_db_scheme \<Rightarrow> permission_level_weight \<Rightarrow> unit \<Rightarrow> unit result" where
  "check_authority_account db a u =
     EOS_ASSERT (account_exists (fst (plw_permission a)) db) action_validate_exception
     (if snd (plw_permission a) = owner_name \<or> snd (plw_permission a) = active_name then Inr ()
      else if snd (plw_permission a) = eosio_code_name then Inr ()
      else case get_permission (plw_permission a) db of
        Inr p \<Rightarrow> Inr ()
      | Inl e \<Rightarrow> Inl (if e = permission_query_exception then action_validate_exception else e))"

definition validate_authority_precondition ::
  "controller_env \<Rightarrow> transaction_context \<Rightarrow> 'a chain_db_scheme \<Rightarrow> authority \<Rightarrow> unit result" where
  "validate_authority_precondition ctl tc db auth =
     ebind (efold (check_authority_account db) (accounts auth) ()) (\<lambda>_.
     if enforce_whiteblacklist tc \<and> is_producing_block ctl
     then efold (\<lambda>p u. check_key_list (ctl_lists ctl) (kw_key p)) (keys auth) ()
     else Inr ())"

definition new_account_object :: "block_timestamp_type \<Rightarrow> bool \<Rightarrow> u8 list \<Rightarrow> account_object" where
  "new_account_object creation_date is_privileged abi =
     \<lparr>ao_vm_type = 0, ao_vm_version = 0, ao_privileged = is_privileged, ao_last_code_update = 0,
      ao_code_version = \<lparr>hash0 = 0, hash1 = 0, hash2 = 0, hash3 = 0\<rparr>, ao_creation_date = creation_date, ao_code = [], ao_abi = abi\<rparr>"

definition create_account_rows :: "account_name \<Rightarrow> account_object \<Rightarrow> 'a chain_db_scheme \<Rightarrow> 'a chain_db_scheme result" where
  "create_account_rows nm obj db =
     ebind (db_create nm obj (account_index db)) (\<lambda>t.
     ebind (db_create nm \<lparr>recv_sequence = 0, auth_sequence = 0, code_sequence = 0, abi_sequence = 0\<rparr>
       (account_sequence_index db)) (\<lambda>s.
     Inr (db\<lparr>account_index := t, account_sequence_index := s\<rparr>)))"

text \<open>
  The permissions \<open>owner\<close> and \<open>active\<close> of a new account and its resource limits, with the memory to
  charge for all of it.
\<close>

definition create_account_permissions ::
  "auth_env \<Rightarrow> (public_key_type \<Rightarrow> u64) \<Rightarrow> account_name \<Rightarrow> authority \<Rightarrow> authority \<Rightarrow> time_point \<Rightarrow> 'a chain_db_scheme \<Rightarrow>
   (i64 \<times> 'a chain_db_scheme) result" where
  "create_account_permissions env psize nm own act time db =
     ebind (create_permission env nm owner_name 0 own time db) (\<lambda>(owner_permission, db).
     ebind (create_permission env nm active_name (fst owner_permission) act time db) (\<lambda>(active_permission, db).
     ebind (initialize_account nm (resources db)) (\<lambda>rl.
     let ram_delta = overhead_per_account_ram_bytes + 2 * billable_permission_object +
           get_billable_size psize (po_auth (snd owner_permission)) + get_billable_size psize (po_auth (snd active_permission))
     in Inr (ram_delta, db\<lparr>resources := rl\<rparr>))))"

definition create_native_account ::
  "auth_env \<Rightarrow> (public_key_type \<Rightarrow> u64) \<Rightarrow> time_point \<Rightarrow> u8 list \<Rightarrow> account_name \<Rightarrow> authority \<Rightarrow> authority \<Rightarrow> bool \<Rightarrow>
   'a chain_db_scheme \<Rightarrow> 'a chain_db_scheme result" where
  "create_native_account env psize initial_timestamp system_abi nm own act is_privileged db =
     ebind (create_account_rows nm (new_account_object (set_time_point (word_of_int initial_timestamp)) is_privileged
        (if nm = system_account_name then system_abi else [])) db) (\<lambda>db.
     ebind (create_account_permissions env psize nm own act initial_timestamp db) (\<lambda>(ram_delta, db).
     ebind (add_pending_ram_usage nm ram_delta (resources db)) (\<lambda>rl.
     ebind (verify_account_ram_usage rl nm) (\<lambda>_.
     Inr (db\<lparr>resources := rl\<rparr>)))))"

definition apply_newaccount :: "native_env \<Rightarrow> ('b, 'a) action_state \<Rightarrow> ('b, 'a) action_state result" where
  "apply_newaccount env st =
     (let (ac, tc, db) = st; ctl = nv_ctl env in
      ebind (unpack_newaccount env (act_data (ac_act ac))) (\<lambda>create.
      ebind (require_authorization (na_creator create) ac) (\<lambda>ac.
      EOS_ASSERT (validate (key_less env) (na_owner create)) action_validate_exception
      (EOS_ASSERT (validate (key_less env) (na_active create)) action_validate_exception
      (EOS_ASSERT (na_name create \<noteq> 0) action_validate_exception
      (EOS_ASSERT (length (name_to_string (na_name create)) \<le> 12) action_validate_exception
      (ebind (db_get (account_index db) (na_creator create)) (\<lambda>creator.
      EOS_ASSERT (ao_privileged creator \<or> \<not> is_eonio_name (na_name create)) action_validate_exception
      (EOS_ASSERT (fm_lookup (account_index db) (na_name create) = None) account_name_exists_exception
      (ebind (create_account_rows (na_name create) (new_account_object (block_slot ctl) False []) db) (\<lambda>db.
      ebind (validate_authority_precondition ctl tc db (na_owner create)) (\<lambda>_.
      ebind (validate_authority_precondition ctl tc db (na_active create)) (\<lambda>_.
      ebind (create_account_permissions (ctl_auth ctl) (key_pack_size env) (na_name create) (na_owner create) (na_active create) 0 db)
        (\<lambda>(ram_delta, db).
      add_ram_usage (na_name create) ram_delta (ac, tc, db)))))))))))))))"

subsection \<open>Code and interface\<close>

definition charge_change :: "account_name \<Rightarrow> i64 \<Rightarrow> i64 \<Rightarrow> ('b, 'a) action_state \<Rightarrow> ('b, 'a) action_state result" where
  "charge_change account old_size new_size st =
     (if new_size \<noteq> old_size then add_ram_usage account (new_size - old_size) st else Inr st)"

definition apply_setcode :: "native_env \<Rightarrow> ('b, 'a) action_state \<Rightarrow> ('b, 'a) action_state result" where
  "apply_setcode env st =
     (let (ac, tc, db) = st; ctl = nv_ctl env in
      ebind (unpack_setcode env (act_data (ac_act ac))) (\<lambda>act.
      ebind (require_authorization (sc_account act) ac) (\<lambda>ac.
      EOS_ASSERT (sc_vmtype act = 0) invalid_contract_vm_type
      (EOS_ASSERT (sc_vmversion act = 0) invalid_contract_vm_version
      (let code_id = (if length (sc_code act) > 0 then hash_code env (sc_code act)
                      else \<lparr>hash0 = 0, hash1 = 0, hash2 = 0, hash3 = 0\<rparr>) in
       ebind (if length (sc_code act) > 0 then wasm_validate env (sc_code act) else Inr ()) (\<lambda>_.
       ebind (db_get (account_index db) (sc_account act)) (\<lambda>account.
       let old_size = of_nat (length (ao_code account)) * setcode_ram_bytes_multiplier;
           new_size = of_nat (length (sc_code act)) * setcode_ram_bytes_multiplier in
       EOS_ASSERT (ao_code_version account \<noteq> code_id) set_exact_code
       (let db = db\<lparr>account_index := fm_update (sc_account act)
              (account\<lparr>ao_last_code_update := block_time ctl, ao_code_version := code_id, ao_code := sc_code act\<rparr>)
              (account_index db)\<rparr> in
        ebind (db_get (account_sequence_index db) (sc_account act)) (\<lambda>aso.
        let db = db\<lparr>account_sequence_index := fm_update (sc_account act)
              (aso\<lparr>code_sequence := code_sequence aso + 1\<rparr>) (account_sequence_index db)\<rparr> in
        charge_change (sc_account act) old_size new_size (ac, tc, db))))))))))"

definition apply_setabi :: "native_env \<Rightarrow> ('b, 'a) action_state \<Rightarrow> ('b, 'a) action_state result" where
  "apply_setabi env st =
     (let (ac, tc, db) = st in
      ebind (unpack_setabi env (act_data (ac_act ac))) (\<lambda>act.
      ebind (require_authorization (sa_account act) ac) (\<lambda>ac.
      ebind (db_get (account_index db) (sa_account act)) (\<lambda>account.
      let old_size = of_nat (length (ao_abi account)); new_size = of_nat (length (sa_abi act));
          db = db\<lparr>account_index := fm_update (sa_account act) (account\<lparr>ao_abi := sa_abi act\<rparr>) (account_index db)\<rparr> in
      ebind (db_get (account_sequence_index db) (sa_account act)) (\<lambda>aso.
      let db = db\<lparr>account_sequence_index := fm_update (sa_account act)
            (aso\<lparr>abi_sequence := abi_sequence aso + 1\<rparr>) (account_sequence_index db)\<rparr> in
      charge_change (sa_account act) old_size new_size (ac, tc, db))))))"


subsection \<open>Permissions\<close>

definition write_permission ::
  "native_env \<Rightarrow> updateauth \<Rightarrow> (permission_id_type \<times> permission_object) option \<Rightarrow> permission_id_type \<Rightarrow>
   ('b, 'a) action_state \<Rightarrow> ('b, 'a) action_state result" where
  "write_permission env update permission parent_id st =
     (let (ac, tc, db) = st; auth = ctl_auth (nv_ctl env); psize = key_pack_size env in
      case permission of
        Some (i, p) \<Rightarrow>
          EOS_ASSERT (parent_id = po_parent p) action_validate_exception
          (let old_size = permission_size psize p;
               db = modify_permission auth (i, p) (ua_auth update) db;
               new_size = billable_permission_object + get_billable_size psize (ua_auth update) in
           add_ram_usage (po_owner p) (new_size - old_size) (ac, tc, db))
      | None \<Rightarrow>
          ebind (create_permission auth (ua_account update) (ua_permission update) parent_id (ua_auth update) 0 db) (\<lambda>(p, db).
          add_ram_usage (ua_account update) (permission_size psize (snd p)) (ac, tc, db)))"

definition apply_updateauth :: "native_env \<Rightarrow> ('b, 'a) action_state \<Rightarrow> ('b, 'a) action_state result" where
  "apply_updateauth env st =
     (let (ac, tc, db) = st; ctl = nv_ctl env in
      ebind (unpack_updateauth (ctl_auth ctl) (act_data (ac_act ac))) (\<lambda>update.
      ebind (require_authorization (ua_account update) ac) (\<lambda>ac.
      EOS_ASSERT (ua_permission update \<noteq> 0) action_validate_exception
      (EOS_ASSERT (\<not> is_eonio_name (ua_permission update)) action_validate_exception
      (EOS_ASSERT (ua_permission update \<noteq> ua_parent update) action_validate_exception
      (ebind (db_get (account_index db) (ua_account update)) (\<lambda>_.
      EOS_ASSERT (validate (key_less env) (ua_auth update)) action_validate_exception
      (EOS_ASSERT (ua_permission update = active_name \<longrightarrow> ua_parent update = owner_name) action_validate_exception
      (EOS_ASSERT (if ua_permission update = owner_name then ua_parent update = 0 else ua_parent update \<noteq> 0) action_validate_exception
      (EOS_ASSERT (waits (ua_auth update) \<noteq> [] \<longrightarrow>
          ww_wait_sec (last (waits (ua_auth update))) \<le> cfg_max_transaction_delay (configuration ctl)) action_validate_exception
      (ebind (validate_authority_precondition ctl tc db (ua_auth update)) (\<lambda>_.
      ebind (find_permission (ua_account update, ua_permission update) db) (\<lambda>permission.
      ebind (if ua_permission update \<noteq> owner_name
             then ebind (get_permission (ua_account update, ua_parent update) db) (\<lambda>parent. Inr (fst parent)) else Inr 0) (\<lambda>parent_id.
      write_permission env update permission parent_id (ac, tc, db)))))))))))))))"

definition apply_deleteauth :: "native_env \<Rightarrow> ('b, 'a) action_state \<Rightarrow> ('b, 'a) action_state result" where
  "apply_deleteauth env st =
     (let (ac, tc, db) = st in
      ebind (unpack_deleteauth (ctl_auth (nv_ctl env)) (act_data (ac_act ac))) (\<lambda>remove.
      ebind (require_authorization (da_account remove) ac) (\<lambda>ac.
      EOS_ASSERT (da_permission remove \<noteq> active_name) action_validate_exception
      (EOS_ASSERT (da_permission remove \<noteq> owner_name) action_validate_exception
      (EOS_ASSERT (\<not> list_ex (\<lambda>((a, c, t), r). a = da_account remove \<and> r = da_permission remove) (links db)) action_validate_exception
      (ebind (get_permission (da_account remove, da_permission remove) db) (\<lambda>permission.
       ebind (remove_permission permission db) (\<lambda>db.
       add_ram_usage (da_account remove) (- permission_size (key_pack_size env) (snd permission)) (ac, tc, db)))))))))"

definition apply_linkauth :: "native_env \<Rightarrow> ('b, 'a) action_state \<Rightarrow> ('b, 'a) action_state result" where
  "apply_linkauth env st =
     (let (ac, tc, db) = st in
      ebind (unpack_linkauth (ctl_auth (nv_ctl env)) (act_data (ac_act ac))) (\<lambda>r.
      EOS_ASSERT (la_requirement r \<noteq> 0) action_validate_exception
      (ebind (require_authorization (la_account r) ac) (\<lambda>ac.
       EOS_ASSERT (account_exists (la_account r) db) account_query_exception
       (EOS_ASSERT (account_exists (la_code r) db) account_query_exception
       (EOS_ASSERT (la_requirement r \<noteq> eosio_any_name \<longrightarrow> list_ex (\<lambda>(i, p). po_name p = la_requirement r) (permissions db))
          permission_query_exception
       (let link_key = (la_account r, la_code r, la_type r);
            linked = db\<lparr>links := fm_update link_key (la_requirement r) (links db)\<rparr> in
        case fm_lookup (links db) link_key of
          Some required_permission \<Rightarrow>
            EOS_ASSERT (required_permission \<noteq> la_requirement r) action_validate_exception (Inr (ac, tc, linked))
        | None \<Rightarrow> add_ram_usage (la_account r) billable_permission_link_object (ac, tc, linked))))))))"

definition apply_unlinkauth :: "native_env \<Rightarrow> ('b, 'a) action_state \<Rightarrow> ('b, 'a) action_state result" where
  "apply_unlinkauth env st =
     (let (ac, tc, db) = st in
      ebind (unpack_unlinkauth (ctl_auth (nv_ctl env)) (act_data (ac_act ac))) (\<lambda>unlink.
      ebind (require_authorization (ul_account unlink) ac) (\<lambda>ac.
      let link_key = (ul_account unlink, ul_code unlink, ul_type unlink) in
      EOS_ASSERT (fm_lookup (links db) link_key \<noteq> None) action_validate_exception
      (ebind (add_ram_usage (ul_account unlink) (- billable_permission_link_object) (ac, tc, db)) (\<lambda>(ac, tc, db).
       Inr (ac, tc, db\<lparr>links := fm_erase link_key (links db)\<rparr>))))))"

definition apply_canceldelay :: "native_env \<Rightarrow> ('b, 'a) action_state \<Rightarrow> ('b, 'a) action_state result" where
  "apply_canceldelay env st =
     (let (ac, tc, db) = st in
      ebind (unpack_canceldelay (ctl_auth (nv_ctl env)) (act_data (ac_act ac))) (\<lambda>cancel.
      ebind (require_authorization (fst (cd_canceling_auth cancel)) ac) (\<lambda>ac.
      ebind (cancel_deferred_transaction (transaction_id_to_sender_id (cd_trx_id cancel)) 0 (ac, tc, db)) (\<lambda>(found, st).
      Inr st))))"

subsection \<open>The table of handlers\<close>

definition newaccount_name :: action_name where "newaccount_name = string_to_name ''newaccount''"

definition setcode_name :: action_name where "setcode_name = string_to_name ''setcode''"

definition setabi_name :: action_name where "setabi_name = string_to_name ''setabi''"

definition find_apply_handler ::
  "account_name \<Rightarrow> account_name \<Rightarrow> action_name \<Rightarrow> (native_env \<Rightarrow> ('b, 'a) action_state \<Rightarrow> ('b, 'a) action_state result) option" where
  "find_apply_handler rcv scope act =
     (if rcv = system_account_name \<and> scope = system_account_name then
        if act = newaccount_name then Some apply_newaccount
        else if act = setcode_name then Some apply_setcode
        else if act = setabi_name then Some apply_setabi
        else if act = updateauth_name then Some apply_updateauth
        else if act = deleteauth_name then Some apply_deleteauth
        else if act = linkauth_name then Some apply_linkauth
        else if act = unlinkauth_name then Some apply_unlinkauth
        else if act = canceldelay_name then Some apply_canceldelay
        else None
      else None)"

subsection \<open>The first accounts and the producers\<close>

definition null_account_name :: account_name where "null_account_name = string_to_name ''eonio.null''"

definition producers_account_name :: account_name where "producers_account_name = string_to_name ''eonio.prods''"

definition majority_producers_permission_name :: permission_name where
  "majority_producers_permission_name = string_to_name ''prod.major''"

definition minority_producers_permission_name :: permission_name where
  "minority_producers_permission_name = string_to_name ''prod.minor''"

lemma native_name_values [code]:
  "newaccount_name = 11148770977341390848" "setcode_name = 14029427681804681216" "setabi_name = 14029385431137648640"
  "null_account_name = 6135848838705725440" "producers_account_name = 6135848839730589696"
  "majority_producers_permission_name = 12531424605554196480" "minority_producers_permission_name = 12531424609916272640"
  by code_simp+

record genesis_env =
  gen_auth :: auth_env
  gen_pack_size :: "public_key_type \<Rightarrow> u64"
  initial_timestamp :: time_point
  initial_key :: public_key_type
  gen_system_abi :: "u8 list"

definition system_authority :: "permission_level_weight list \<Rightarrow> authority" where
  "system_authority as' = \<lparr>threshold = 1, keys = [], accounts = as', waits = []\<rparr>"

definition initialize_accounts :: "genesis_env \<Rightarrow> 'a chain_db_scheme \<Rightarrow> 'a chain_db_scheme result" where
  "initialize_accounts gen db =
     (let db = initialize_permission_database (gen_auth gen) (db\<lparr>resources := initialize_database\<rparr>);
          create = create_native_account (gen_auth gen) (gen_pack_size gen) (initial_timestamp gen) (gen_system_abi gen);
          system_auth = key_authority (initial_key gen) 0; empty = system_authority [];
          producers = system_authority [\<lparr>plw_permission = (system_account_name, active_name), plw_weight = 1\<rparr>] in
      ebind (create system_account_name system_auth system_auth True db) (\<lambda>db.
      ebind (create null_account_name empty empty False db) (\<lambda>db.
      ebind (create producers_account_name empty producers False db) (\<lambda>db.
      ebind (get_permission (producers_account_name, active_name) db) (\<lambda>active_permission.
      ebind (create_permission (gen_auth gen) producers_account_name majority_producers_permission_name (fst active_permission)
         producers (initial_timestamp gen) db) (\<lambda>(majority_permission, db).
      ebind (create_permission (gen_auth gen) producers_account_name minority_producers_permission_name (fst majority_permission)
         producers (initial_timestamp gen) db) (\<lambda>(minority_permission, db).
      Inr db)))))))"

definition producers_authority :: "producer_key list \<Rightarrow> u32 \<Rightarrow> u32 \<Rightarrow> authority" where
  "producers_authority ps num den =
     \<lparr>threshold = (of_nat (length ps) * num) div den + 1, keys = [],
      accounts = map (\<lambda>p. \<lparr>plw_permission = (producer_name p, active_name), plw_weight = 1\<rparr>) ps, waits = []\<rparr>"

definition update_producers_permission ::
  "producer_key list \<Rightarrow> permission_name \<times> u32 \<times> u32 \<Rightarrow> 'a auth_db_scheme \<Rightarrow> 'a auth_db_scheme result" where
  "update_producers_permission ps r db =
     (let (nm, num, den) = r; auth = producers_authority ps num den in
      ebind (get_permission (producers_account_name, nm) db) (\<lambda>(i, p).
      Inr (if po_auth p \<noteq> auth then db\<lparr>permissions := fm_update i (p\<lparr>po_auth := auth\<rparr>) (permissions db)\<rparr> else db)))"

definition update_producers_authority :: "producer_key list \<Rightarrow> 'a auth_db_scheme \<Rightarrow> 'a auth_db_scheme result" where
  "update_producers_authority ps db =
     efold (update_producers_permission ps)
       [(active_name, 2, 3), (majority_producers_permission_name, 1, 2), (minority_producers_permission_name, 1, 3)] db"


end
