(* ===== verification/Native_Accounting.thy ===== *)
theory Native_Accounting
  imports Native_Actions
begin

text \<open>
  What the native actions keep of the database. The tables of accounts, sequence numbers, resource
  usage and permissions stay in step, and the memory an account is charged for is the memory of
  its rows: every operation charges or refunds exactly what its rows grow or shrink by.
\<close>

subsection \<open>Memory of an account\<close>

definition rl_ram :: "resource_db \<Rightarrow> account_name \<Rightarrow> u64" where
  "rl_ram rl a = (case fm_lookup (usage_table rl) a of None \<Rightarrow> 0 | Some u \<Rightarrow> ram_usage u)"

definition account_size :: "account_object \<Rightarrow> u64" where
  "account_size acc = overhead_per_account_ram_bytes + of_nat (length (ao_code acc)) * setcode_ram_bytes_multiplier +
     of_nat (length (ao_abi acc))"

definition generated_size :: "generated_transaction_object \<Rightarrow> u64" where
  "generated_size g = billable_generated_transaction + of_nat (length (gto_packed_trx g))"

text \<open>The rows an account pays for: itself, its permissions and links, and the transactions it has scheduled.\<close>

definition native_ram :: "(public_key_type \<Rightarrow> u64) \<Rightarrow> 'a chain_db_scheme \<Rightarrow> account_name \<Rightarrow> u64" where
  "native_ram psize db a =
     fm_sum (\<lambda>n acc. if n = a then account_size acc else 0) (account_index db) +
     fm_sum (\<lambda>i p. if i \<noteq> 0 \<and> po_owner p = a then permission_size psize p else 0) (permissions db) +
     fm_sum (\<lambda>k r. if fst k = a then billable_permission_link_object else 0) (links db) +
     (\<Sum>g \<leftarrow> generated db. if gto_payer g = a then generated_size g else 0)"

lemma native_ram_account:
  "fm_ok (account_index db) \<Longrightarrow> native_ram psize (db\<lparr>account_index := fm_update n acc (account_index db)\<rparr>) a =
     native_ram psize db a + (if n = a then account_size acc else 0) -
     (case fm_lookup (account_index db) n of None \<Rightarrow> 0 | Some acc0 \<Rightarrow> if n = a then account_size acc0 else 0)"
  by (simp add: native_ram_def fm_sum_update)

lemma native_ram_permission:
  "fm_ok (permissions db) \<Longrightarrow> native_ram psize (db\<lparr>permissions := fm_update i p (permissions db)\<rparr>) a =
     native_ram psize db a + (if i \<noteq> 0 \<and> po_owner p = a then permission_size psize p else 0) -
     (case fm_lookup (permissions db) i of None \<Rightarrow> 0 | Some q \<Rightarrow> if i \<noteq> 0 \<and> po_owner q = a then permission_size psize q else 0)"
  by (simp add: native_ram_def fm_sum_update split: option.split)

lemma native_ram_permission_erase:
  "fm_ok (permissions db) \<Longrightarrow> native_ram psize (db\<lparr>permissions := fm_erase i (permissions db)\<rparr>) a =
     native_ram psize db a -
     (case fm_lookup (permissions db) i of None \<Rightarrow> 0 | Some q \<Rightarrow> if i \<noteq> 0 \<and> po_owner q = a then permission_size psize q else 0)"
  by (simp add: native_ram_def fm_sum_erase split: option.split)

lemma native_ram_link:
  "fm_ok (links db) \<Longrightarrow> native_ram psize (db\<lparr>links := fm_update k r (links db)\<rparr>) a =
     native_ram psize db a + (if fst k = a then billable_permission_link_object else 0) -
     (case fm_lookup (links db) k of None \<Rightarrow> 0 | Some q \<Rightarrow> if fst k = a then billable_permission_link_object else 0)"
  by (simp add: native_ram_def fm_sum_update)

lemma native_ram_unlink:
  "fm_ok (links db) \<Longrightarrow> native_ram psize (db\<lparr>links := fm_erase k (links db)\<rparr>) a =
     native_ram psize db a -
     (case fm_lookup (links db) k of None \<Rightarrow> 0 | Some q \<Rightarrow> if fst k = a then billable_permission_link_object else 0)"
  by (simp add: native_ram_def fm_sum_erase)

lemma native_ram_other [simp]:
  "native_ram psize (db\<lparr>account_sequence_index := s\<rparr>) a = native_ram psize db a"
  "native_ram psize (db\<lparr>resources := rl\<rparr>) a = native_ram psize db a"
  "native_ram psize (db\<lparr>usages := u\<rparr>) a = native_ram psize db a"
  "native_ram psize (db\<lparr>transactions := ts\<rparr>) a = native_ram psize db a"
  "native_ram psize (db\<lparr>global_action_sequence := q\<rparr>) a = native_ram psize db a"
  by (simp_all add: native_ram_def)

lemma native_ram_cancel:
  assumes "distinct (generated db)" and "g \<in> set (generated db)"
  shows "native_ram psize (db\<lparr>generated := filter (\<lambda>h. h \<noteq> g) (generated db)\<rparr>) a =
    native_ram psize db a - (if gto_payer g = a then generated_size g else 0)"
proof -
  define f where "f h = (if gto_payer h = a then generated_size h else 0)" for h
  have "(\<Sum>h \<leftarrow> filter (\<lambda>h. h \<noteq> g) hs. f h) = (\<Sum>h \<leftarrow> hs. f h) - f g" if "distinct hs" "g \<in> set hs" for hs
    using that
  proof (induction hs)
    case (Cons h hs)
    show ?case
    proof (cases "h = g")
      case True
      then have "filter (\<lambda>h. h \<noteq> g) hs = hs" using Cons.prems by (intro filter_True) auto
      then show ?thesis using True by simp
    qed (use Cons in auto)
  qed simp
  from this [OF assms] show ?thesis by (simp add: native_ram_def f_def)
qed

lemma native_ram_schedule:
  "native_ram psize (db\<lparr>generated := generated db @ [g]\<rparr>) a =
    native_ram psize db a + (if gto_payer g = a then generated_size g else 0)"
  by (simp add: native_ram_def)

lemma add_pending_ram_effect:
  assumes "add_pending_ram_usage p d rl = Inr rl'" and "fm_ok (usage_table rl)"
  shows "fm_ok (usage_table rl')" and "fm_lookup (usage_table rl') a \<noteq> None \<longleftrightarrow> fm_lookup (usage_table rl) a \<noteq> None"
    and "rl_ram rl' a = rl_ram rl a + (if a = p then d else 0)"
proof -
  have "fm_ok (usage_table rl') \<and> (fm_lookup (usage_table rl') a \<noteq> None \<longleftrightarrow> fm_lookup (usage_table rl) a \<noteq> None) \<and>
      rl_ram rl' a = rl_ram rl a + (if a = p then d else 0)"
  proof (cases "d = 0")
    case True
    then show ?thesis using assms by (simp add: add_pending_ram_usage_def)
  next
    case False
    then obtain u where u: "fm_lookup (usage_table rl) p = Some u"
      using assms(1) by (auto simp: add_pending_ram_usage_def exc_simps)
    then have "rl' = rl\<lparr>usage_table := fm_update p (u\<lparr>ram_usage := ram_usage u + d\<rparr>) (usage_table rl)\<rparr>"
      using assms(1) by (simp add: add_pending_ram_step [OF False u])
    then show ?thesis using assms(2) u by (simp add: rl_ram_def fm_laws)
  qed
  then show "fm_ok (usage_table rl')" "fm_lookup (usage_table rl') a \<noteq> None \<longleftrightarrow> fm_lookup (usage_table rl) a \<noteq> None"
    "rl_ram rl' a = rl_ram rl a + (if a = p then d else 0)" by simp_all
qed

lemma add_ram_usage_effect:
  assumes "add_ram_usage p d (ac, tc, db) = Inr (ac', tc', db')"
  obtains rl where "db' = db\<lparr>resources := rl\<rparr>" and "add_pending_ram_usage p d (resources db) = Inr rl"
  using assms by (auto simp: add_ram_usage_def tc_add_ram_usage_def exc_simps)


subsection \<open>The tables are in step\<close>

definition has_permission :: "account_name \<Rightarrow> permission_name \<Rightarrow> 'a auth_db_scheme \<Rightarrow> bool" where
  "has_permission a nm db \<longleftrightarrow> (\<exists>i p. fm_lookup (permissions db) i = Some p \<and> po_owner p = a \<and> po_name p = nm)"

text \<open>
  Every account has its row of sequence numbers, its resource usage and its permissions \<open>owner\<close> and
  \<open>active\<close>, and every permission belongs to an account.
\<close>

definition accounts_ok :: "'a chain_db_scheme \<Rightarrow> bool" where
  "accounts_ok db \<longleftrightarrow> fm_ok (account_index db) \<and> fm_ok (account_sequence_index db) \<and> fm_ok (usage_table (resources db)) \<and>
     (\<forall>a. fm_lookup (account_sequence_index db) a \<noteq> None \<longleftrightarrow> account_exists a db) \<and>
     (\<forall>a. fm_lookup (usage_table (resources db)) a \<noteq> None \<longleftrightarrow> account_exists a db) \<and>
     (\<forall>a. account_exists a db \<longrightarrow> has_permission a owner_name db \<and> has_permission a active_name db) \<and>
     (\<forall>i p. fm_lookup (permissions db) i = Some p \<and> i \<noteq> 0 \<longrightarrow> account_exists (po_owner p) db)"

definition generated_ok :: "'a auth_db_scheme \<Rightarrow> bool" where
  "generated_ok db \<longleftrightarrow> distinct (map (\<lambda>g. (gto_sender g, gto_sender_id g)) (generated db))"

definition native_ok :: "'a chain_db_scheme \<Rightarrow> bool" where
  "native_ok db \<longleftrightarrow> auth_db_ok db \<and> accounts_ok db \<and> generated_ok db"

lemma native_okD:
  assumes "native_ok db"
  shows "auth_db_ok db" and "accounts_ok db" and "generated_ok db" and "fm_ok (permissions db)" and "fm_ok (links db)"
    and "fm_ok (account_index db)" and "fm_ok (account_sequence_index db)" and "fm_ok (usage_table (resources db))"
    and "distinct (generated db)" and "hierarchy_ok (permissions db)"
  using assms auth_db_okD [of db]
  by (auto simp: native_ok_def accounts_ok_def generated_ok_def distinct_map)

lemma native_ok_other [simp]:
  "native_ok (db\<lparr>transactions := ts\<rparr>) = native_ok db"
  "native_ok (db\<lparr>global_action_sequence := q\<rparr>) = native_ok db"
  by (simp_all add: native_ok_def auth_db_ok_def usages_ok_def accounts_ok_def generated_ok_def account_exists_def has_permission_def)

lemma native_ok_resources:
  assumes "native_ok db" and "fm_ok (usage_table rl)"
    and "\<And>a. fm_lookup (usage_table rl) a \<noteq> None \<longleftrightarrow> fm_lookup (usage_table (resources db)) a \<noteq> None"
  shows "native_ok (db\<lparr>resources := rl\<rparr>)"
  using assms
  by (simp add: native_ok_def auth_db_ok_def usages_ok_def accounts_ok_def generated_ok_def account_exists_def has_permission_def)

lemma native_ok_links:
  assumes "native_ok db" and "fm_ok l"
  shows "native_ok (db\<lparr>links := l\<rparr>)"
  using assms
  by (simp add: native_ok_def auth_db_ok_def usages_ok_def accounts_ok_def generated_ok_def account_exists_def has_permission_def)

lemma native_ok_generated:
  assumes "native_ok db" and "generated_ok (db\<lparr>generated := gs\<rparr>)"
  shows "native_ok (db\<lparr>generated := gs\<rparr>)"
  using assms
  by (simp add: native_ok_def auth_db_ok_def usages_ok_def accounts_ok_def account_exists_def has_permission_def)

text \<open>A change of permissions keeps the tables in step when the names of the accounts stay.\<close>

lemma native_ok_permissions:
  assumes "native_ok db" and "auth_db_ok (db\<lparr>usages := u, permissions := t\<rparr>)"
    and "\<And>a nm. nm = owner_name \<or> nm = active_name \<Longrightarrow> has_permission a nm db \<Longrightarrow> has_permission a nm (db\<lparr>permissions := t\<rparr>)"
    and "\<And>i p. fm_lookup t i = Some p \<Longrightarrow> i \<noteq> 0 \<Longrightarrow> account_exists (po_owner p) db"
  shows "native_ok (db\<lparr>usages := u, permissions := t\<rparr>)"
proof -
  have "accounts_ok (db\<lparr>usages := u, permissions := t\<rparr>)"
    using native_okD(2) [OF assms(1)] assms(3,4) unfolding accounts_ok_def account_exists_def has_permission_def
    by simp blast
  moreover have "generated_ok (db\<lparr>usages := u, permissions := t\<rparr>)" using native_okD(3) [OF assms(1)] by (simp add: generated_ok_def)
  ultimately show ?thesis using assms(2) by (simp add: native_ok_def)
qed

lemma native_ok_account:
  assumes "native_ok db" and "account_exists a db"
  shows "native_ok (db\<lparr>account_index := fm_update a acc (account_index db),
    account_sequence_index := fm_update a s (account_sequence_index db)\<rparr>)"
proof -
  let ?db = "db\<lparr>account_index := fm_update a acc (account_index db), account_sequence_index := fm_update a s (account_sequence_index db)\<rparr>"
  have ex: "account_exists n ?db \<longleftrightarrow> account_exists n db" for n
    using assms(2) native_okD(6) [OF assms(1)] by (simp add: account_exists_def fm_laws)
  have "fm_lookup (account_sequence_index ?db) n \<noteq> None \<longleftrightarrow> account_exists n db" for n
    using native_okD(2,7) [OF assms(1)] assms(2) by (auto simp: accounts_ok_def fm_laws)
  then have "accounts_ok ?db"
    using native_okD(2,6,7) [OF assms(1)] unfolding accounts_ok_def ex by (simp add: fm_laws has_permission_def)
  then show ?thesis using assms(1) by (simp add: native_ok_def auth_db_ok_def usages_ok_def generated_ok_def)
qed


subsection \<open>Every operation charges for its rows\<close>

definition ram_balance :: "(public_key_type \<Rightarrow> u64) \<Rightarrow> 'a chain_db_scheme \<Rightarrow> account_name \<Rightarrow> u64" where
  "ram_balance psize db a = rl_ram (resources db) a - native_ram psize db a"

definition ram_frame :: "(public_key_type \<Rightarrow> u64) \<Rightarrow> 'a chain_db_scheme \<Rightarrow> 'a chain_db_scheme \<Rightarrow> bool" where
  "ram_frame psize db db' \<longleftrightarrow> (native_ok db \<longrightarrow> native_ok db' \<and> ram_balance psize db' = ram_balance psize db)"

interpretation ram: state_frame "ram_frame psize" for psize
  by unfold_locales (simp_all add: ram_frame_def)

lemma ram_frame_charge:
  assumes "native_ok db \<Longrightarrow> native_ok db1"
    and "\<And>a. native_ok db \<Longrightarrow> native_ram psize db1 a = native_ram psize db a + (if a = n then d else 0)"
    and "\<And>a. rl_ram (resources db1) a = rl_ram (resources db) a"
    and "add_pending_ram_usage n d (resources db1) = Inr rl"
  shows "ram_frame psize db (db1\<lparr>resources := rl\<rparr>)"
  unfolding ram_frame_def
proof
  assume ok: "native_ok db"
  note fx = add_pending_ram_effect [OF assms(4) native_okD(8) [OF assms(1) [OF ok]]]
  have "native_ok (db1\<lparr>resources := rl\<rparr>)" by (rule native_ok_resources [OF assms(1) [OF ok] fx(1,2)])
  moreover have "ram_balance psize (db1\<lparr>resources := rl\<rparr>) a = ram_balance psize db a" for a
    using assms(2) [OF ok] assms(3) fx(3) by (simp add: ram_balance_def)
  ultimately show "native_ok (db1\<lparr>resources := rl\<rparr>) \<and> ram_balance psize (db1\<lparr>resources := rl\<rparr>) = ram_balance psize db" by blast
qed

lemma ram_frame_same:
  assumes "native_ok db \<Longrightarrow> native_ok db'" and "\<And>a. native_ok db \<Longrightarrow> native_ram psize db' a = native_ram psize db a"
    and "\<And>a. rl_ram (resources db') a = rl_ram (resources db) a"
  shows "ram_frame psize db db'"
  unfolding ram_frame_def ram_balance_def using assms by auto

lemma account_update_frame:
  assumes "fm_lookup (account_index db) n = Some acc"
    and "d = account_size acc' - account_size acc"
    and "add_pending_ram_usage n d (resources db) = Inr rl"
  shows "ram_frame psize db (db\<lparr>account_index := fm_update n acc' (account_index db),
    account_sequence_index := fm_update n s (account_sequence_index db), resources := rl\<rparr>)"
proof -
  let ?db = "db\<lparr>account_index := fm_update n acc' (account_index db), account_sequence_index := fm_update n s (account_sequence_index db)\<rparr>"
  have "native_ram psize ?db a = native_ram psize db a + (if a = n then d else 0)" if "native_ok db" for a
    using native_ram_account [OF native_okD(6) [OF that], of psize n acc' a] by (cases "a = n") (simp_all add: assms(1,2))
  then have "ram_frame psize db (?db\<lparr>resources := rl\<rparr>)"
    using assms(1,3) by (intro ram_frame_charge [where d = d and n = n]) (auto intro: native_ok_account simp: account_exists_def)
  then show ?thesis by simp
qed

lemma charge_changeE:
  assumes "charge_change n old new (ac, tc, db) = Inr (ac', tc', db')"
  obtains rl where "db' = db\<lparr>resources := rl\<rparr>" and "add_pending_ram_usage n (new - old) (resources db) = Inr rl"
proof (cases "new = old")
  case True
  then show thesis using assms that [of "resources db"] by (simp add: charge_change_def add_pending_ram_usage_def)
qed (use assms that in \<open>auto simp: charge_change_def elim: add_ram_usage_effect\<close>)

lemma setcode_frame:
  assumes "apply_setcode env (ac, tc, db) = Inr (ac', tc', db')"
  shows "ram_frame psize db db'"
  using assms unfolding apply_setcode_def Let_def prod.case EOS_ASSERT_Inr_iff ebind_Inr_iff db_get_Inr
  by (elim exE conjE charge_changeE)
    (simp split del: if_split, rule account_update_frame [rotated 2], assumption, assumption, simp add: account_size_def)

lemma setabi_frame:
  assumes "apply_setabi env (ac, tc, db) = Inr (ac', tc', db')"
  shows "ram_frame psize db db'"
  using assms unfolding apply_setabi_def Let_def prod.case EOS_ASSERT_Inr_iff ebind_Inr_iff db_get_Inr
  by (elim exE conjE charge_changeE)
    (simp split del: if_split, rule account_update_frame [rotated 2], assumption, assumption, simp add: account_size_def)


subsection \<open>New permissions\<close>

definition perm_in :: "account_name \<Rightarrow> permission_name \<Rightarrow> permission_index \<Rightarrow> bool" where
  "perm_in a nm t \<longleftrightarrow> (\<exists>i p. fm_lookup t i = Some p \<and> po_owner p = a \<and> po_name p = nm)"

lemma has_permission_in: "has_permission a nm db \<longleftrightarrow> perm_in a nm (permissions db)"
  by (simp add: has_permission_def perm_in_def)

lemma perm_in_new:
  assumes "fm_ok t" and "fm_lookup t i = None"
  shows "perm_in a nm (fm_update i p t) \<longleftrightarrow> perm_in a nm t \<or> po_owner p = a \<and> po_name p = nm"
proof
  assume "perm_in a nm (fm_update i p t)"
  then show "perm_in a nm t \<or> po_owner p = a \<and> po_name p = nm"
    using assms(1) by (auto simp: perm_in_def fm_laws split: if_splits)
next
  assume r: "perm_in a nm t \<or> po_owner p = a \<and> po_name p = nm"
  have lk: "fm_lookup (fm_update i p t) j = (if j = i then Some p else fm_lookup t j)" for j using assms(1) by (simp add: fm_laws)
  show "perm_in a nm (fm_update i p t)"
    using r assms(2) unfolding perm_in_def lk by (metis option.distinct(1))
qed

lemma create_permission_shape:
  assumes "create_permission env account nm parent auth time db = Inr ((i, p), db')"
  obtains u where "db' = db\<lparr>usages := u, permissions := fm_update i p (permissions db)\<rparr>"
    and "po_owner p = account" and "po_name p = nm" and "po_auth p = auth"
  using assms by (auto simp: create_permission_def Let_def exc_simps)

lemma permission_created:
  assumes "create_permission env account nm parent auth time db = Inr ((i, p), db')" and "env_ok env" and "native_ok db"
    and "account \<noteq> 0" and "nm \<noteq> 0" and "account_exists account db"
    and "fm_lookup (permissions db) parent = Some q" and "parent \<noteq> 0 \<Longrightarrow> po_owner q = account"
  shows "native_ok db'" and "native_ram psize db' a = native_ram psize db a + (if a = account then permission_size psize p else 0)"
    and "resources db' = resources db"
proof -
  note ok = create_permission_ok [OF assms(2) native_okD(1) [OF assms(3)] assms(1,4,5,7,8)]
  obtain u where db': "db' = db\<lparr>usages := u, permissions := fm_update i p (permissions db)\<rparr>"
    by (rule create_permission_shape [OF assms(1)])
  note t = native_okD(4) [OF assms(3)]
  show "native_ok db'"
    unfolding db'
  proof (rule native_ok_permissions [OF assms(3)])
    show "auth_db_ok (db\<lparr>usages := u, permissions := fm_update i p (permissions db)\<rparr>)" using ok(1) db' by simp
    show "has_permission b n (db\<lparr>permissions := fm_update i p (permissions db)\<rparr>)" if "has_permission b n db" for b n
      using that by (simp add: has_permission_in perm_in_new [OF t ok(10)])
    show "account_exists (po_owner r) db" if "fm_lookup (fm_update i p (permissions db)) j = Some r" "j \<noteq> 0" for j r
      using that t native_okD(2) [OF assms(3)] assms(6) ok(3) by (auto simp: fm_laws accounts_ok_def split: if_splits)
  qed
  show "native_ram psize db' a = native_ram psize db a + (if a = account then permission_size psize p else 0)"
    using native_ram_permission [of "db\<lparr>usages := u\<rparr>" psize i p a] t ok(2,3,10) by (auto simp: db')
  show "resources db' = resources db" by (simp add: db')
qed

subsection \<open>New accounts\<close>

lemma initialize_account_effect:
  assumes "initialize_account n rl = Inr rl'" and "fm_ok (usage_table rl)"
  shows "fm_ok (usage_table rl')" and "fm_lookup (usage_table rl') a \<noteq> None \<longleftrightarrow> a = n \<or> fm_lookup (usage_table rl) a \<noteq> None"
    and "rl_ram rl' a = rl_ram rl a"
  using assms by (auto simp: initialize_account_def exc_simps rl_ram_def fm_laws)

lemma create_account_shape:
  assumes "create_account_rows n obj db = Inr db1" and "create_account_permissions env psize n own act time db1 = Inr (d, db2)"
    and "env_ok env" and "native_ok db" and "n \<noteq> 0"
  obtains i p j q u rl where
    "db2 = db\<lparr>account_index := fm_update n obj (account_index db),
       account_sequence_index := fm_update n \<lparr>recv_sequence = 0, auth_sequence = 0, code_sequence = 0, abi_sequence = 0\<rparr>
         (account_sequence_index db),
       usages := u, permissions := fm_update j q (fm_update i p (permissions db)), resources := rl\<rparr>"
    and "fm_lookup (account_index db) n = None" and "initialize_account n (resources db) = Inr rl"
    and "auth_db_ok db2" and "i \<noteq> 0" and "j \<noteq> 0" and "po_owner p = n" and "po_owner q = n" and "po_name p = owner_name" and "po_name q = active_name"
    and "fm_lookup (permissions db) i = None" and "fm_lookup (fm_update i p (permissions db)) j = None"
    and "d = overhead_per_account_ram_bytes + permission_size psize p + permission_size psize q"
proof -
  let ?s = "\<lparr>recv_sequence = 0, auth_sequence = 0, code_sequence = 0, abi_sequence = 0\<rparr> :: account_sequence_object"
  have rows: "fm_lookup (account_index db) n = None"
    "db1 = db\<lparr>account_index := fm_update n obj (account_index db), account_sequence_index := fm_update n ?s (account_sequence_index db)\<rparr>"
    using assms(1) by (auto simp: create_account_rows_def exc_simps)
  have ok1: "auth_db_ok db1" using native_okD(1) [OF assms(4)] rows(2) by (simp add: auth_db_ok_def usages_ok_def)
  obtain i p j q dbo dba rl where own: "create_permission env n owner_name 0 own time db1 = Inr ((i, p), dbo)"
    and act: "create_permission env n active_name i act time dbo = Inr ((j, q), dba)"
    and rl: "initialize_account n (resources dba) = Inr rl" and db2: "db2 = dba\<lparr>resources := rl\<rparr>"
    and d: "d = overhead_per_account_ram_bytes + 2 * billable_permission_object + get_billable_size psize (po_auth p) + get_billable_size psize (po_auth q)"
    using assms(2) by (auto simp: create_account_permissions_def Let_def exc_simps)
  have names: "owner_name \<noteq> 0" "active_name \<noteq> 0" by (simp_all add: name_values)
  obtain r where r: "fm_lookup (permissions db1) 0 = Some r" using hierarchy_reserved [OF auth_db_okD(1) [OF ok1]] by blast
  note o = create_permission_ok [OF assms(3) ok1 own assms(5) names(1) r]
  have p: "fm_lookup (permissions dbo) i = Some p" using o(7) auth_db_okD(4) [OF ok1] by (simp add: fm_laws)
  note a = create_permission_ok [OF assms(3) o(1) act assms(5) names(2) p]
  obtain u where dbo: "dbo = db1\<lparr>usages := u, permissions := fm_update i p (permissions db1)\<rparr>" by (rule create_permission_shape [OF own])
  obtain v where dba: "dba = dbo\<lparr>usages := v, permissions := fm_update j q (permissions dbo)\<rparr>" by (rule create_permission_shape [OF act])
  show thesis
  proof (rule that [where i = i and p = p and j = j and q = q and u = v and rl = rl])
    show "auth_db_ok db2" using a(1) o(3) by (simp add: db2 auth_db_ok_def usages_ok_def)
    show "d = overhead_per_account_ram_bytes + permission_size psize p + permission_size psize q" by (simp add: d permission_size_def)
  qed (use rows rl o a in \<open>simp_all add: db2 dba dbo\<close>)
qed


lemma create_account_frame:
  assumes "create_account_rows n obj db = Inr db1" and "create_account_permissions env psize n own act time db1 = Inr (d, db2)"
    and "env_ok env" and "native_ok db" and "n \<noteq> 0" and "ao_code obj = []"
  shows "native_ok db2" and "native_ram psize db2 a = native_ram psize db a + (if a = n then d + of_nat (length (ao_abi obj)) else 0)"
    and "rl_ram (resources db2) a = rl_ram (resources db) a"
proof -
  let ?s = "\<lparr>recv_sequence = 0, auth_sequence = 0, code_sequence = 0, abi_sequence = 0\<rparr> :: account_sequence_object"
  obtain i p j q u rl where db2: "db2 = db\<lparr>account_index := fm_update n obj (account_index db),
       account_sequence_index := fm_update n ?s (account_sequence_index db),
       usages := u, permissions := fm_update j q (fm_update i p (permissions db)), resources := rl\<rparr>"
    and new: "fm_lookup (account_index db) n = None" and rl: "initialize_account n (resources db) = Inr rl"
    and auth: "auth_db_ok db2" and ij: "i \<noteq> 0" "j \<noteq> 0" and own: "po_owner p = n" "po_owner q = n"
    and nm: "po_name p = owner_name" "po_name q = active_name"
    and fresh: "fm_lookup (permissions db) i = None" "fm_lookup (fm_update i p (permissions db)) j = None"
    and d: "d = overhead_per_account_ram_bytes + permission_size psize p + permission_size psize q"
    by (rule create_account_shape [OF assms(1-5)])
  note t = native_okD(4) [OF assms(4)] and A = native_okD(2) [OF assms(4)] and fx = initialize_account_effect [OF rl native_okD(8) [OF assms(4)]]
  have t1: "fm_ok (fm_update i p (permissions db))" using t by (simp add: fm_laws)
  have ex: "account_exists b db2 \<longleftrightarrow> b = n \<or> account_exists b db" for b
    using native_okD(6) [OF assms(4)] by (simp add: db2 account_exists_def fm_laws)
  have seq: "fm_lookup (account_sequence_index db2) b \<noteq> None \<longleftrightarrow> b = n \<or> account_exists b db" for b
    using native_okD(7) [OF assms(4)] A by (simp add: db2 accounts_ok_def fm_laws)
  have use: "fm_lookup (usage_table (resources db2)) b \<noteq> None \<longleftrightarrow> b = n \<or> account_exists b db" for b
    using fx(2) A by (simp add: db2 accounts_ok_def)
  have has: "has_permission b m db2 \<longleftrightarrow> has_permission b m db \<or> b = n \<and> (m = owner_name \<or> m = active_name)" for b m
    using own nm by (auto simp: has_permission_in db2 perm_in_new [OF t1 fresh(2)] perm_in_new [OF t fresh(1)])
  have owners: "account_exists (po_owner r) db2" if "fm_lookup (permissions db2) k = Some r" "k \<noteq> 0" for k r
    using that own t t1 A ex by (auto simp: db2 fm_laws accounts_ok_def split: if_splits)
  have oks: "fm_ok (account_index db2)" "fm_ok (account_sequence_index db2)" "fm_ok (usage_table (resources db2))"
    using native_okD(6,7) [OF assms(4)] fx(1) by (simp_all add: db2 fm_laws)
  have std: "has_permission b owner_name db2 \<and> has_permission b active_name db2" if "account_exists b db2" for b
    using that A unfolding has ex accounts_ok_def by blast
  have "accounts_ok db2"
    unfolding accounts_ok_def using oks seq use std owners by (simp add: ex) blast
  moreover have "generated_ok db2" using native_okD(3) [OF assms(4)] by (simp add: db2 generated_ok_def)
  ultimately show "native_ok db2" using auth by (simp add: native_ok_def)
  show "rl_ram (resources db2) a = rl_ram (resources db) a" using fx(3) by (simp add: db2)
  have "native_ram psize db2 a = native_ram psize (db\<lparr>account_index := fm_update n obj (account_index db)\<rparr>) a +
      (if a = n then permission_size psize p + permission_size psize q else 0)"
    using t t1 ij own fresh by (simp add: native_ram_def db2 fm_sum_update)
  also have "\<dots> = native_ram psize db a + (if a = n then d + of_nat (length (ao_abi obj)) else 0)"
    using native_ram_account [OF native_okD(6) [OF assms(4)], of psize n obj a] new assms(6) by (simp add: d account_size_def)
  finally show "native_ram psize db2 a = native_ram psize db a + (if a = n then d + of_nat (length (ao_abi obj)) else 0)" .
qed

lemma newaccount_frame:
  assumes "apply_newaccount env (ac, tc, db) = Inr (ac', tc', db')" and "env_ok (ctl_auth (nv_ctl env))"
  shows "ram_frame (key_pack_size env) db db'"
proof -
  obtain create :: newaccount and ac1 db1 d db2 where n: "na_name create \<noteq> 0"
    and rows: "create_account_rows (na_name create) (new_account_object (block_slot (nv_ctl env)) False []) db = Inr db1"
    and perms: "create_account_permissions (ctl_auth (nv_ctl env)) (key_pack_size env) (na_name create) (na_owner create) (na_active create) 0 db1
       = Inr (d, db2)"
    and ram: "add_ram_usage (na_name create) d (ac1, tc, db2) = Inr (ac', tc', db')"
    using assms(1) [unfolded apply_newaccount_def Let_def prod.case EOS_ASSERT_Inr_iff ebind_Inr_iff] by auto
  obtain rl where db': "db' = db2\<lparr>resources := rl\<rparr>" and rl: "add_pending_ram_usage (na_name create) d (resources db2) = Inr rl"
    by (rule add_ram_usage_effect [OF ram])
  have obj: "ao_code (new_account_object t b []) = []" "ao_abi (new_account_object t b []) = []" for t b
    by (simp_all add: new_account_object_def)
  have "ram_frame (key_pack_size env) db (db2\<lparr>resources := rl\<rparr>) \<or> \<not> native_ok db"
  proof (cases "native_ok db")
    case True
    note fr = create_account_frame [OF rows perms assms(2) True n obj(1)]
    show ?thesis using fr rl obj(2) by (intro disjI1 ram_frame_charge [where d = d and n = "na_name create"]) simp_all
  qed simp
  then show ?thesis by (auto simp: db' ram_frame_def)
qed


subsection \<open>Changes of permissions\<close>

lemma permission_rewritten:
  assumes "native_ok db" and "fm_lookup (permissions db) i = Some p" and "i \<noteq> 0"
    and "po_owner p' = po_owner p" and "po_name p' = po_name p" and "po_parent p' = po_parent p" and "po_usage_id p' = po_usage_id p"
  shows "native_ok (db\<lparr>permissions := fm_update i p' (permissions db)\<rparr>)"
    and "native_ram psize (db\<lparr>permissions := fm_update i p' (permissions db)\<rparr>) a = native_ram psize db a +
      (if a = po_owner p then permission_size psize p' - permission_size psize p else 0)"
proof -
  let ?t = "fm_update i p' (permissions db)"
  note t = native_okD(4) [OF assms(1)] and A = native_okD(1) [OF assms(1)]
  have lk: "fm_lookup ?t j = (if j = i then Some p' else fm_lookup (permissions db) j)" for j using t by (simp add: fm_laws)
  have "hierarchy_ok ?t" by (rule hierarchy_modify [OF auth_db_okD(1) [OF A] assms(2,4-6)])
  moreover have "usages_ok (db\<lparr>permissions := ?t\<rparr>)"
  proof (rule usages_ok_transfer [OF auth_db_okD(2) [OF A]])
    show "fm_ok (usages (db\<lparr>permissions := ?t\<rparr>))" using auth_db_okD(5) [OF A] by simp
    show "\<exists>q. fm_lookup (permissions db) j = Some q \<and> po_usage_id q = po_usage_id r"
      if "fm_lookup (permissions (db\<lparr>permissions := ?t\<rparr>)) j = Some r" for j r
      using that lk [of j] assms(2,7) by (cases "j = i") auto
  qed simp
  ultimately have auth: "auth_db_ok (db\<lparr>usages := usages db, permissions := ?t\<rparr>)" using A by (simp add: auth_db_ok_def)
  have "native_ok (db\<lparr>usages := usages db, permissions := ?t\<rparr>)"
  proof (rule native_ok_permissions [OF assms(1) auth])
    show "has_permission b n (db\<lparr>permissions := ?t\<rparr>)" if has: "has_permission b n db" for b n
    proof -
      obtain j q where q: "fm_lookup (permissions db) j = Some q" "po_owner q = b" "po_name q = n" using has by (auto simp: has_permission_def)
      then have "fm_lookup ?t j = Some (if j = i then p' else q)" "po_owner (if j = i then p' else q) = b" "po_name (if j = i then p' else q) = n"
        using lk [of j] assms(2,4,5) by (cases "j = i"; simp)+
      then show ?thesis unfolding has_permission_def by (intro exI [of _ j] exI [of _ "if j = i then p' else q"]) simp
    qed
    show "account_exists (po_owner r) db" if "fm_lookup ?t j = Some r" "j \<noteq> 0" for j r
    proof -
      have "\<exists>r'. fm_lookup (permissions db) j = Some r' \<and> po_owner r' = po_owner r"
        using that(1) lk [of j] assms(2,4) by (cases "j = i") auto
      with native_okD(2) [OF assms(1)] that(2) show ?thesis unfolding accounts_ok_def by metis
    qed
  qed
  then show "native_ok (db\<lparr>permissions := ?t\<rparr>)" by simp
  show "native_ram psize (db\<lparr>permissions := ?t\<rparr>) a = native_ram psize db a +
      (if a = po_owner p then permission_size psize p' - permission_size psize p else 0)"
    using native_ram_permission [OF t, of psize i p' a] assms(2-4) by auto
qed

lemma permission_modified:
  assumes "native_ok db" and "fm_lookup (permissions db) i = Some p" and "i \<noteq> 0"
  shows "native_ok (modify_permission env (i, p) auth db)"
    and "native_ram psize (modify_permission env (i, p) auth db) a = native_ram psize db a +
      (if a = po_owner p then billable_permission_object + get_billable_size psize auth - permission_size psize p else 0)"
  using permission_rewritten [OF assms, of "p\<lparr>po_auth := auth, po_last_updated := pending_block_time env\<rparr>"]
  by (simp_all add: modify_permission_def permission_size_def [of psize "p\<lparr>po_auth := auth, po_last_updated := pending_block_time env\<rparr>"])

lemma write_permission_frame:
  assumes "write_permission env update (find_by_owner (permissions db) (ua_account update, ua_permission update)) parent_id (ac, tc, db) = Inr (ac', tc', db')"
    and "env_ok (ctl_auth (nv_ctl env))" and "ua_account update \<noteq> 0" and "ua_permission update \<noteq> 0" and "account_exists (ua_account update) db"
    and "native_ok db \<Longrightarrow> \<exists>q. fm_lookup (permissions db) parent_id = Some q \<and> (parent_id \<noteq> 0 \<longrightarrow> po_owner q = ua_account update)"
  shows "ram_frame (key_pack_size env) db db'"
proof (cases "find_by_owner (permissions db) (ua_account update, ua_permission update)")
  case None
  let ?ps = "key_pack_size env"
  obtain i p db1 where create: "create_permission (ctl_auth (nv_ctl env)) (ua_account update) (ua_permission update) parent_id (ua_auth update) 0 db
       = Inr ((i, p), db1)"
    and ram: "add_ram_usage (ua_account update) (permission_size ?ps p) (ac, tc, db1) = Inr (ac', tc', db')"
    using assms(1) None by (auto simp: write_permission_def Let_def exc_simps)
  obtain rl where db': "db' = db1\<lparr>resources := rl\<rparr>" and rl: "add_pending_ram_usage (ua_account update) (permission_size ?ps p) (resources db1) = Inr rl"
    by (rule add_ram_usage_effect [OF ram])
  have created: "native_ok db1 \<and> native_ram ?ps db1 a = native_ram ?ps db a + (if a = ua_account update then permission_size ?ps p else 0)"
    if ok: "native_ok db" for a
    using assms(6) [OF ok] permission_created [OF create assms(2) ok assms(3-5)] by blast
  have "resources db1 = resources db" using create by (auto elim!: create_permission_shape)
  then show ?thesis unfolding db' using created rl by (intro ram_frame_charge) auto
next
  case (Some ip)
  let ?ps = "key_pack_size env" and ?m = "\<lambda>ip. modify_permission (ctl_auth (nv_ctl env)) ip (ua_auth update) db"
  obtain i p where perm: "find_by_owner (permissions db) (ua_account update, ua_permission update) = Some (i, p)" using Some by (cases ip) auto
  have "add_ram_usage (po_owner p) (billable_permission_object + get_billable_size ?ps (ua_auth update) - permission_size ?ps p) (ac, tc, ?m (i, p))
      = Inr (ac', tc', db')"
    using assms(1) perm by (auto simp: write_permission_def Let_def exc_simps)
  then obtain rl where db': "db' = (?m (i, p))\<lparr>resources := rl\<rparr>"
    and rl: "add_pending_ram_usage (po_owner p) (billable_permission_object + get_billable_size ?ps (ua_auth update) - permission_size ?ps p)
       (resources (?m (i, p))) = Inr rl"
    by (rule add_ram_usage_effect)
  have row: "fm_lookup (permissions db) i = Some p \<and> i \<noteq> 0" if ok: "native_ok db"
    using find_by_owner_iff [OF native_okD(10) [OF ok]] perm assms(3) hierarchy_reserved [OF native_okD(10) [OF ok]]
    by (metis option.inject)
  show ?thesis unfolding db'
    using row permission_modified by (intro ram_frame_charge [OF _ _ _ rl]) (blast, blast, simp add: modify_permission_def)
qed

lemma updateauth_frame:
  assumes "apply_updateauth env (ac, tc, db) = Inr (ac', tc', db')" and "env_ok (ctl_auth (nv_ctl env))"
  shows "ram_frame (key_pack_size env) db db'"
proof -
  obtain update :: updateauth and ac1 parent_id where nm: "ua_account update \<noteq> 0" "ua_permission update \<noteq> 0"
    and ex: "account_exists (ua_account update) db"
    and par: "(if ua_permission update \<noteq> owner_name
       then ebind (get_permission (ua_account update, ua_parent update) db) (\<lambda>parent. Inr (fst parent)) else Inr 0) = Inr parent_id"
    and wr: "write_permission env update (find_by_owner (permissions db) (ua_account update, ua_permission update)) parent_id (ac1, tc, db)
       = Inr (ac', tc', db')"
    using assms(1) [unfolded apply_updateauth_def Let_def prod.case EOS_ASSERT_Inr_iff ebind_Inr_iff find_permission_def db_get_Inr]
    by (elim exE conjE) (simp add: account_exists_def)
  have "\<exists>q. fm_lookup (permissions db) parent_id = Some q \<and> (parent_id \<noteq> 0 \<longrightarrow> po_owner q = ua_account update)" if ok: "native_ok db"
    using par get_permission_Inr [OF native_okD(1) [OF ok]] hierarchy_reserved [OF native_okD(10) [OF ok]]
    by (auto simp: exc_simps split: if_splits)
  from write_permission_frame [OF wr assms(2) nm ex this] show ?thesis .
qed

lemma permission_removed:
  assumes "native_ok db" and "fm_lookup (permissions db) i = Some p" and "i \<noteq> 0" and "remove_permission (i, p) db = Inr db'"
    and "po_name p \<noteq> owner_name" and "po_name p \<noteq> active_name"
  shows "native_ok db'" and "native_ram psize db' a = native_ram psize db a - (if a = po_owner p then permission_size psize p else 0)"
    and "resources db' = resources db"
proof -
  let ?t = "fm_erase i (permissions db)"
  have db': "db' = db\<lparr>usages := fm_erase (po_usage_id p) (usages db), permissions := ?t\<rparr>"
    using assms(4) by (auto simp: remove_permission_def exc_simps)
  note t = native_okD(4) [OF assms(1)]
  have lk: "fm_lookup ?t j = Some q \<longleftrightarrow> j \<noteq> i \<and> fm_lookup (permissions db) j = Some q" for j q using t by (simp add: fm_laws)
  show "native_ok db'"
    unfolding db'
  proof (rule native_ok_permissions [OF assms(1)])
    show "auth_db_ok (db\<lparr>usages := fm_erase (po_usage_id p) (usages db), permissions := ?t\<rparr>)"
      using remove_permission_ok [OF native_okD(1) [OF assms(1)] assms(2-4)] by (simp only: db')
    show "has_permission b n (db\<lparr>permissions := ?t\<rparr>)" if "n = owner_name \<or> n = active_name" "has_permission b n db" for b n
      using that assms(2,5,6) unfolding has_permission_def by (simp add: lk) (metis option.inject)
    show "account_exists (po_owner q) db" if "fm_lookup ?t j = Some q" "j \<noteq> 0" for j q
      using that native_okD(2) [OF assms(1)] by (auto simp: accounts_ok_def lk)
  qed
  show "native_ram psize db' a = native_ram psize db a - (if a = po_owner p then permission_size psize p else 0)"
    using native_ram_permission_erase [of "db\<lparr>usages := fm_erase (po_usage_id p) (usages db)\<rparr>" psize i a] t assms(2,3) by (auto simp: db')
  show "resources db' = resources db" by (simp add: db')
qed

lemma deleteauth_frame:
  assumes "apply_deleteauth env (ac, tc, db) = Inr (ac', tc', db')"
  shows "ram_frame (key_pack_size env) db db'"
proof -
  let ?ps = "key_pack_size env"
  obtain remove :: deleteauth and ac1 i p db1 where nm: "da_permission remove \<noteq> active_name" "da_permission remove \<noteq> owner_name"
    and get: "get_permission (da_account remove, da_permission remove) db = Inr (i, p)" and rem: "remove_permission (i, p) db = Inr db1"
    and ram: "add_ram_usage (da_account remove) (- permission_size ?ps p) (ac1, tc, db1) = Inr (ac', tc', db')"
    using assms [unfolded apply_deleteauth_def Let_def prod.case EOS_ASSERT_Inr_iff ebind_Inr_iff] by auto
  obtain rl where db': "db' = db1\<lparr>resources := rl\<rparr>"
    and rl: "add_pending_ram_usage (da_account remove) (- permission_size ?ps p) (resources db1) = Inr rl"
    by (rule add_ram_usage_effect [OF ram])
  have "native_ok db1 \<and> native_ram ?ps db1 a = native_ram ?ps db a + (if a = da_account remove then - permission_size ?ps p else 0)"
    if ok: "native_ok db" for a
  proof -
    have row: "fm_lookup (permissions db) i = Some p" "po_owner p = da_account remove" "po_name p = da_permission remove" "da_account remove \<noteq> 0"
      using get get_permission_Inr [OF native_okD(1) [OF ok]] by auto
    then have "i \<noteq> 0" using hierarchy_reserved [OF native_okD(10) [OF ok]] by (metis option.inject)
    with permission_removed(1) [OF ok row(1) _ rem] permission_removed(2) [OF ok row(1) _ rem, of ?ps a] row nm show ?thesis by simp
  qed
  moreover have "resources db1 = resources db" using rem by (auto simp: remove_permission_def exc_simps)
  ultimately show ?thesis unfolding db' using rl by (intro ram_frame_charge) auto
qed

subsection \<open>Links and deferred transactions\<close>

lemma linkauth_frame:
  assumes "apply_linkauth env (ac, tc, db) = Inr (ac', tc', db')"
  shows "ram_frame psize db db'"
proof -
  obtain r :: linkauth and ac1 where step: "(case fm_lookup (links db) (la_account r, la_code r, la_type r) of
      Some q \<Rightarrow> EOS_ASSERT (q \<noteq> la_requirement r) action_validate_exception
        (Inr (ac1, tc, db\<lparr>links := fm_update (la_account r, la_code r, la_type r) (la_requirement r) (links db)\<rparr>))
    | None \<Rightarrow> add_ram_usage (la_account r) billable_permission_link_object
        (ac1, tc, db\<lparr>links := fm_update (la_account r, la_code r, la_type r) (la_requirement r) (links db)\<rparr>)) = Inr (ac', tc', db')"
    using assms [unfolded apply_linkauth_def Let_def prod.case EOS_ASSERT_Inr_iff ebind_Inr_iff] by (elim exE conjE)
  let ?k = "(la_account r, la_code r, la_type r)" and ?B = billable_permission_link_object
  let ?db = "db\<lparr>links := fm_update ?k (la_requirement r) (links db)\<rparr>"
  have ok: "native_ok ?db" if "native_ok db" using that native_okD(5) [OF that] by (intro native_ok_links) (simp_all add: fm_laws)
  have ram: "native_ram psize ?db a = native_ram psize db a + (if fm_lookup (links db) ?k = None \<and> a = la_account r then ?B else 0)"
    if "native_ok db" for a
    using native_ram_link [OF native_okD(5) [OF that], of psize ?k "la_requirement r" a] by (auto split: option.splits)
  show ?thesis
  proof (cases "fm_lookup (links db) ?k")
    case None
    then have "add_ram_usage (la_account r) ?B (ac1, tc, ?db) = Inr (ac', tc', db')" using step by simp
    then obtain rl where "db' = ?db\<lparr>resources := rl\<rparr>" "add_pending_ram_usage (la_account r) ?B (resources ?db) = Inr rl"
      by (rule add_ram_usage_effect)
    then show ?thesis using ok ram None by (simp only:) (rule ram_frame_charge, auto)
  next
    case (Some q)
    then have "db' = ?db" using step by (auto simp: EOS_ASSERT_Inr_iff)
    then show ?thesis using ok ram Some by (simp only:) (rule ram_frame_same, auto)
  qed
qed

lemma unlinkauth_frame:
  assumes "apply_unlinkauth env (ac, tc, db) = Inr (ac', tc', db')"
  shows "ram_frame psize db db'"
proof -
  let ?B = billable_permission_link_object
  obtain unlink :: unlinkauth and ac1 db2
    where linked: "fm_lookup (links db) (ul_account unlink, ul_code unlink, ul_type unlink) \<noteq> None"
    and ram: "add_ram_usage (ul_account unlink) (- ?B) (ac1, tc, db) = Inr (ac', tc', db2)"
    and db': "db' = db2\<lparr>links := fm_erase (ul_account unlink, ul_code unlink, ul_type unlink) (links db2)\<rparr>"
    using assms [unfolded apply_unlinkauth_def Let_def prod.case EOS_ASSERT_Inr_iff ebind_Inr_iff]
    by auto
  let ?k = "(ul_account unlink, ul_code unlink, ul_type unlink)"
  let ?db = "db\<lparr>links := fm_erase ?k (links db)\<rparr>"
  obtain rl where db2: "db2 = db\<lparr>resources := rl\<rparr>" and rl: "add_pending_ram_usage (ul_account unlink) (- ?B) (resources db) = Inr rl"
    by (rule add_ram_usage_effect [OF ram])
  have ok: "native_ok ?db" if "native_ok db" using that native_okD(5) [OF that] by (intro native_ok_links) (simp_all add: fm_laws)
  have "native_ram psize ?db a = native_ram psize db a + (if a = ul_account unlink then - ?B else 0)" if "native_ok db" for a
    using native_ram_unlink [OF native_okD(5) [OF that], of psize ?k a] linked by (auto split: option.splits)
  then have "ram_frame psize db (?db\<lparr>resources := rl\<rparr>)" using ok rl by (intro ram_frame_charge) auto
  moreover have "db' = ?db\<lparr>resources := rl\<rparr>" by (simp add: db' db2)
  ultimately show ?thesis by simp
qed

lemma cancel_frame:
  assumes "cancel_deferred_transaction sender_id sender (ac, tc, db) = Inr (found, ac', tc', db')"
  shows "ram_frame psize db db'"
proof (cases "find_by_sender sender sender_id db")
  case None
  then show ?thesis using assms ram.frame_refl by (simp add: cancel_deferred_transaction_def)
next
  case (Some g)
  then obtain ac1 tc1 db1 where ram: "add_ram_usage (gto_payer g) (- generated_size g) (ac, tc, db) = Inr (ac1, tc1, db1)"
    and db': "db' = db1\<lparr>generated := filter (\<lambda>h. h \<noteq> g) (generated db1)\<rparr>"
    using assms by (auto simp: cancel_deferred_transaction_def generated_size_def exc_simps)
  obtain rl where db1: "db1 = db\<lparr>resources := rl\<rparr>" and rl: "add_pending_ram_usage (gto_payer g) (- generated_size g) (resources db) = Inr rl"
    by (rule add_ram_usage_effect [OF ram])
  let ?db = "db\<lparr>generated := filter (\<lambda>h. h \<noteq> g) (generated db)\<rparr>"
  have g: "g \<in> set (generated db)" using Some by (auto simp: find_by_sender_def find_Some_iff)
  have "native_ok ?db" if "native_ok db"
    using that native_okD(3) [OF that] by (intro native_ok_generated) (simp_all add: generated_ok_def distinct_map_filter)
  moreover have "native_ram psize ?db a = native_ram psize db a + (if a = gto_payer g then - generated_size g else 0)" if "native_ok db" for a
    using native_ram_cancel [OF native_okD(9) [OF that] g, of psize a] by auto
  ultimately have "ram_frame psize db (?db\<lparr>resources := rl\<rparr>)" using rl by (intro ram_frame_charge) auto
  moreover have "db' = ?db\<lparr>resources := rl\<rparr>" by (simp add: db' db1)
  ultimately show ?thesis by simp
qed

lemma canceldelay_frame:
  assumes "apply_canceldelay env (ac, tc, db) = Inr (ac', tc', db')"
  shows "ram_frame psize db db'"
  using assms [unfolded apply_canceldelay_def Let_def prod.case EOS_ASSERT_Inr_iff ebind_Inr_iff]
  by (auto intro: cancel_frame)

lemma handler_frame:
  assumes "find_apply_handler rcv scope act = Some h" and "h env (ac, tc, db) = Inr (ac', tc', db')"
    and "env_ok (ctl_auth (nv_ctl env))" and "key_pack_size env = psize"
  shows "ram_frame psize db db'"
  using assms unfolding find_apply_handler_def
  by (auto split: if_splits intro: newaccount_frame setcode_frame setabi_frame updateauth_frame deleteauth_frame linkauth_frame
    unlinkauth_frame canceldelay_frame)

end
