(* ===== verification/Chain_Invariant.thy ===== *)
theory Chain_Invariant
  imports Native_Accounting
begin

text \<open>
  The states a chain of native actions reaches from genesis. The steps are the native actions, the
  start and the end of transactions, scheduling and cancelling of deferred transactions, the
  sequence numbers, the operations of the resource limits and the update of the permissions of the
  producers. In every reachable state the tables are in step, and the memory charged to an account
  is the memory of its rows.
\<close>

subsection \<open>Genesis\<close>

definition empty_chain_db :: chain_db where
  "empty_chain_db = \<lparr>permissions = [], usages = [], links = [], generated = [], account_index = [], account_sequence_index = [],
     resources = initialize_database, transactions = [], global_action_sequence = 0\<rparr>"

text \<open>What genesis does not charge: the interface of the system account.\<close>

definition uncharged :: "u8 list \<Rightarrow> account_name \<Rightarrow> u64" where
  "uncharged system_abi a = (if a = system_account_name then of_nat (length system_abi) else 0)"

definition chain_inv :: "(public_key_type \<Rightarrow> u64) \<Rightarrow> u8 list \<Rightarrow> 'a chain_db_scheme \<Rightarrow> bool" where
  "chain_inv psize system_abi db \<longleftrightarrow> native_ok db \<and>
     (\<forall>a. a \<noteq> producers_account_name \<longrightarrow> ram_balance psize db a = - uncharged system_abi a)"

lemma chain_inv_frame: "ram_frame psize db db' \<Longrightarrow> chain_inv psize abi db \<Longrightarrow> chain_inv psize abi db'"
  by (simp add: ram_frame_def chain_inv_def)

lemma create_native_account_balance:
  assumes "create_native_account env psize time abi n own act priv db = Inr db'" and "env_ok env" and "native_ok db" and "n \<noteq> 0"
  shows "native_ok db'" and "ram_balance psize db' a = ram_balance psize db a - (if a = n then uncharged abi n else 0)"
proof -
  define obj where "obj = new_account_object (set_time_point (word_of_int time)) priv (if n = system_account_name then abi else [])"
  obtain db1 d db2 rl where rows: "create_account_rows n obj db = Inr db1"
    and perms: "create_account_permissions env psize n own act time db1 = Inr (d, db2)"
    and rl: "add_pending_ram_usage n d (resources db2) = Inr rl" and db': "db' = db2\<lparr>resources := rl\<rparr>"
    using assms(1) by (auto simp: create_native_account_def obj_def exc_simps)
  have obj: "ao_code obj = []" "of_nat (length (ao_abi obj)) = uncharged abi n"
    by (simp_all add: obj_def new_account_object_def uncharged_def)
  note fr = create_account_frame [OF rows perms assms(2-4) obj(1)]
  note fx = add_pending_ram_effect [OF rl native_okD(8) [OF fr(1)]]
  show "native_ok db'" unfolding db' by (rule native_ok_resources [OF fr(1) fx(1,2)])
  show "ram_balance psize db' a = ram_balance psize db a - (if a = n then uncharged abi n else 0)"
    using fr(2,3) [of a] fx(3) [of a] obj(2) by (simp add: ram_balance_def db')
qed

lemma empty_chain_ok:
  assumes "env_ok env"
  shows "native_ok (initialize_permission_database env empty_chain_db)"
    and "ram_balance psize (initialize_permission_database env empty_chain_db) a = 0"
proof -
  let ?db = "initialize_permission_database env empty_chain_db"
  have "auth_db_ok ?db"
    using initialize_permission_database_ok [OF assms]
    by (simp add: initialize_permission_database_def empty_chain_db_def empty_auth_db_def auth_db_ok_def usages_ok_def)
  then show "native_ok ?db"
    using assms by (auto simp: native_ok_def accounts_ok_def generated_ok_def account_exists_def env_ok_def
      initialize_permission_database_def empty_chain_db_def initialize_database_def fm_ok_def fm_lookup_def split: if_splits)
  show "ram_balance psize ?db a = 0"
    using assms by (simp add: ram_balance_def rl_ram_def native_ram_def initialize_permission_database_def empty_chain_db_def
      initialize_database_def fm_lookup_def env_ok_def fm_sum_def)
qed

lemma permission_owner_exists:
  "native_ok db \<Longrightarrow> fm_lookup (permissions db) i = Some p \<Longrightarrow> i \<noteq> 0 \<Longrightarrow> account_exists (po_owner p) db"
  unfolding native_ok_def accounts_ok_def by blast

lemma producers_permission_created:
  assumes "create_permission env producers_account_name nm parent auth time db = Inr ((i, p), db')" and "env_ok env" and "native_ok db"
    and "nm \<noteq> 0" and "fm_lookup (permissions db) parent = Some q" and "parent \<noteq> 0" and "po_owner q = producers_account_name"
  shows "native_ok db'" and "a \<noteq> producers_account_name \<Longrightarrow> ram_balance psize db' a = ram_balance psize db a"
    and "fm_lookup (permissions db') i = Some p" and "i \<noteq> 0" and "po_owner p = producers_account_name"
proof -
  have ex: "account_exists producers_account_name db" using permission_owner_exists [OF assms(3,5,6)] assms(7) by simp
  have nz: "producers_account_name \<noteq> 0" by (simp add: native_name_values)
  note new = permission_created [OF assms(1-3) nz assms(4) ex assms(5)]
    and ok = create_permission_ok [OF assms(2) native_okD(1) [OF assms(3)] assms(1) nz assms(4,5)]
  show "native_ok db'" using new(1) assms(7) by simp
  show "ram_balance psize db' a = ram_balance psize db a" if "a \<noteq> producers_account_name"
    using new(2) [of psize a] new(3) assms(7) that by (simp add: ram_balance_def)
  show "fm_lookup (permissions db') i = Some p" "i \<noteq> 0" "po_owner p = producers_account_name"
    using ok(2,3,7) native_okD(4) [OF assms(3)] assms(7) by (simp_all add: fm_laws)
qed

lemma initialize_accounts_inv:
  assumes "initialize_accounts gen empty_chain_db = Inr db" and "env_ok (gen_auth gen)"
  shows "chain_inv (gen_pack_size gen) (gen_system_abi gen) db"
proof -
  let ?ps = "gen_pack_size gen" and ?abi = "gen_system_abi gen"
  define db0 where "db0 = initialize_permission_database (gen_auth gen) empty_chain_db"
  have start: "initialize_permission_database (gen_auth gen) (empty_chain_db\<lparr>resources := initialize_database\<rparr>) = db0"
    by (simp add: db0_def empty_chain_db_def)
  have names: "system_account_name \<noteq> 0" "null_account_name \<noteq> 0" "producers_account_name \<noteq> 0" "producers_account_name \<noteq> system_account_name"
    "null_account_name \<noteq> system_account_name" "majority_producers_permission_name \<noteq> 0" "minority_producers_permission_name \<noteq> 0"
    by (simp_all add: native_name_values name_values)
  let ?create = "create_native_account (gen_auth gen) ?ps (initial_timestamp gen) ?abi"
    and ?sys = "key_authority (initial_key gen) 0" and ?none = "system_authority []"
    and ?prods = "system_authority [\<lparr>plw_permission = (system_account_name, active_name), plw_weight = 1\<rparr>]"
  obtain db1 db2 db3 i p j q db4 k r
    where s1: "?create system_account_name ?sys ?sys True db0 = Inr db1"
    and s2: "?create null_account_name ?none ?none False db1 = Inr db2"
    and s3: "?create producers_account_name ?none ?prods False db2 = Inr db3"
    and get: "get_permission (producers_account_name, active_name) db3 = Inr (i, p)"
    and s4: "create_permission (gen_auth gen) producers_account_name majority_producers_permission_name i ?prods (initial_timestamp gen) db3
       = Inr ((j, q), db4)"
    and s5: "create_permission (gen_auth gen) producers_account_name minority_producers_permission_name j ?prods (initial_timestamp gen) db4
       = Inr ((k, r), db)"
    using assms(1) [unfolded initialize_accounts_def Let_def start ebind_Inr_iff] by (auto simp: ebind_Inr_iff)
  note e0 = empty_chain_ok [OF assms(2), folded db0_def]
  note e1 = create_native_account_balance [OF s1 assms(2) e0(1) names(1)]
  note e2 = create_native_account_balance [OF s2 assms(2) e1(1) names(2)]
  note e3 = create_native_account_balance [OF s3 assms(2) e2(1) names(3)]
  have ip: "fm_lookup (permissions db3) i = Some p" "po_owner p = producers_account_name"
    using get get_permission_Inr [OF native_okD(1) [OF e3(1)]] by auto
  have i0: "i \<noteq> 0" using ip hierarchy_reserved [OF native_okD(10) [OF e3(1)]] names(3) by (metis option.inject)
  note e4 = producers_permission_created [OF s4 assms(2) e3(1) names(6) ip(1) i0 ip(2)]
  note e5 = producers_permission_created [OF s5 assms(2) e4(1) names(7) e4(3-5)]
  have "ram_balance ?ps db a = - uncharged ?abi a" if "a \<noteq> producers_account_name" for a
    using e5(2) [OF that] e4(2) [OF that] e3(2) [of a] e2(2) [of a] e1(2) [of a] e0(2) [of ?ps a] that names(4,5)
    by (simp add: uncharged_def)
  then show ?thesis using e5(1) by (simp add: chain_inv_def)
qed


subsection \<open>Operations of the resource limits\<close>

definition ram_kept :: "resource_db \<Rightarrow> resource_db \<Rightarrow> bool" where
  "ram_kept rl rl' \<longleftrightarrow> (fm_ok (usage_table rl) \<longrightarrow> fm_ok (usage_table rl') \<and>
     (\<forall>a. (fm_lookup (usage_table rl') a \<noteq> None \<longleftrightarrow> fm_lookup (usage_table rl) a \<noteq> None) \<and> rl_ram rl' a = rl_ram rl a))"

interpretation kept: state_frame ram_kept
  by unfold_locales (simp_all add: ram_kept_def)

lemma ram_kept_usage:
  assumes "fm_lookup (usage_table rl) a = Some u" and "ram_usage u' = ram_usage u"
  shows "ram_kept rl (rl\<lparr>usage_table := fm_update a u' (usage_table rl)\<rparr>)"
  using assms by (auto simp: ram_kept_def rl_ram_def fm_laws)

lemma ram_kept_table: "usage_table rl' = usage_table rl \<Longrightarrow> ram_kept rl rl'"
  by (simp add: ram_kept_def rl_ram_def)

lemma window_kept:
  "fm_lookup (usage_table rl) a = Some u \<Longrightarrow> acc_window_add cfg net cpu slot u = Inr u' \<Longrightarrow>
    ram_kept rl (rl\<lparr>usage_table := fm_update a u' (usage_table rl)\<rparr>)"
  by (erule ram_kept_usage) (auto simp: acc_window_add_def exc_simps)

lemma update_usage_kept: "update_account_usage as' slot rl = Inr rl' \<Longrightarrow> ram_kept rl rl'"
  unfolding update_account_usage_def
  by (rule kept.frame_efold) (auto simp: exc_simps intro: window_kept)

lemma add_usage_kept: "add_transaction_usage as' cpu net slot rl = Inr rl' \<Longrightarrow> ram_kept rl rl'"
proof -
  assume run: "add_transaction_usage as' cpu net slot rl = Inr rl'"
  then obtain rl1 where loop: "efold (add_usage_of_account cpu net slot) as' rl = Inr rl1" and t: "usage_table rl' = usage_table rl1"
    by (auto simp: add_transaction_usage_def Let_def exc_simps)
  from loop have "ram_kept rl rl1"
    by (rule kept.frame_efold) (auto simp: add_usage_of_account_def Let_def exc_simps intro: window_kept)
  with t show ?thesis by (simp add: ram_kept_def rl_ram_def)
qed

lemma limits_kept: "set_account_limits a r w c rl = Inr (dec, rl') \<Longrightarrow> ram_kept rl rl'"
  by (rule ram_kept_table) (auto simp: set_account_limits_def Let_def exc_simps split: option.splits)

lemma resources_frame: "ram_kept (resources db) rl \<Longrightarrow> ram_frame psize db (db\<lparr>resources := rl\<rparr>)"
  using native_okD(8) [of db] native_ok_resources [of db rl] by (auto simp: ram_frame_def ram_kept_def ram_balance_def)

lemma limit_updates_kept: "process_account_limit_updates rl = Inr rl' \<Longrightarrow> ram_kept rl rl'"
proof (induction rl rule: process_account_limit_updates.induct)
  case (1 rl)
  show ?case
  proof (cases "process_account_limit_updates rl = Inr rl")
    case True
    then show ?thesis using "1.prems" by (simp add: kept.frame_refl)
  next
    case False
    then obtain a p rl1 where low: "limits_table rl \<noteq> []" "fm_lower_bound (True, 0) (limits_table rl) = Some ((True, a), p)"
      and pend: "apply_pending_limits a p rl = Inr rl1" and rest: "process_account_limit_updates rl1 = Inr rl'"
      using "1.prems" by (auto simp: process_account_limit_updates.simps [of rl] exc_simps split: if_splits option.splits)
    have "ram_kept rl rl1" using pend by (intro ram_kept_table) (auto simp: apply_pending_limits_def exc_simps)
    moreover have "ram_kept rl1 rl'" using "1.IH" [OF low(1,2) refl refl _ pend rest] by simp
    ultimately show ?thesis by (rule kept.frame_trans)
  qed
qed

lemma block_usage_kept: "process_block_usage n rl = Inr rl' \<Longrightarrow> ram_kept rl rl'"
  by (rule ram_kept_table) (auto simp: process_block_usage_def Let_def exc_simps)

lemma parameters_kept: "set_block_parameters c n rl = Inr rl' \<Longrightarrow> ram_kept rl rl'"
  by (rule ram_kept_table) (auto simp: set_block_parameters_def exc_simps)

subsection \<open>Transactions\<close>

lemma transaction_recorded_frame: "record_transaction i expire db = Inr db' \<Longrightarrow> ram_frame psize db db'"
  by (auto simp: record_transaction_def EOS_ASSERT_Inr_iff ram_balance_def intro!: ram_frame_same)

lemma init_frame:
  assumes "init ctl n (tc, db) = Inr (tc', db')"
  shows "ram_frame psize db db'"
  using assms unfolding init_def Let_def prod.case EOS_ASSERT_Inr_iff ebind_Inr_iff
  by (auto intro!: resources_frame update_usage_kept)

lemma init_for_input_frame:
  assumes "init_for_input_trx ctl a b c skip (tc, db) = Inr (tc', db')"
  shows "ram_frame psize db db'"
proof -
  obtain n tc1 tc2 db1 where start: "init ctl n (tc1, db) = Inr (tc2, db1)"
    and rec: "(if \<not> skip then record_transaction (tc_id tc2) (expiration (trx tc2)) db1 else Inr db1) = Inr db'"
    using assms [unfolded init_for_input_trx_def Let_def prod.case ebind_Inr_iff] by (auto simp: ebind_Inr_iff)
  have "ram_frame psize db1 db'" using rec by (auto split: if_splits intro: transaction_recorded_frame ram.frame_refl)
  then show ?thesis by (rule ram.frame_trans [OF init_frame [OF start]])
qed

lemma update_usages_ok:
  assumes "update_usages ctl t db = Inr db'" and "auth_db_ok db"
  shows "auth_db_ok db'"
proof -
  have auths: "auth_db_ok b"
    if "efold (\<lambda>auth db. ebind (get_permission auth db) (\<lambda>p. update_permission_usage (ctl_auth ctl) (snd p) db)) auths a = Inr b" "auth_db_ok a"
    for auths and a b :: "'a chain_db_scheme"
    using that by (rule efold_invariant) (auto simp: ebind_Inr_iff dest: update_permission_usage_ok)
  show ?thesis using assms unfolding update_usages_def by (rule efold_invariant) (rule auths)
qed

lemma finalize_frame:
  assumes "finalize ctl (tc, db) = Inr (tc', db')"
  shows "ram_frame psize db db'"
proof -
  obtain db1 as' c n rl where use: "(if is_input tc then update_usages ctl (trx tc) db else Inr db) = Inr db1"
    and bill: "add_transaction_usage as' c n (block_slot ctl) (resources db1) = Inr rl"
    and db': "db' = db1\<lparr>resources := rl\<rparr>"
    using assms [unfolded finalize_def Let_def prod.case EOS_ASSERT_Inr_iff ebind_Inr_iff] by auto
  have only: "only_usages_change db db1" and ok: "auth_db_ok db \<Longrightarrow> auth_db_ok db1"
    using use update_usages_frame update_usages_ok by (auto split: if_splits intro: usages_only.frame_refl)
  obtain u where u: "db1 = db\<lparr>usages := u\<rparr>" using only by (auto simp: only_usages_change_def)
  have "ram_frame psize db db1"
  proof (rule ram_frame_same)
    show "native_ok db1" if "native_ok db"
      using that ok by (auto simp: u native_ok_def accounts_ok_def generated_ok_def account_exists_def has_permission_def)
  qed (simp_all add: u)
  then show ?thesis unfolding db' using resources_frame [OF add_usage_kept [OF bill]] by (rule ram.frame_trans)
qed

subsection \<open>Scheduled transactions\<close>

lemma new_generated_frame:
  assumes "find_by_sender (gto_sender g) (gto_sender_id g) db = None"
    and "add_pending_ram_usage (gto_payer g) (generated_size g) (resources db) = Inr rl"
  shows "ram_frame psize db (db\<lparr>generated := generated db @ [g], resources := rl\<rparr>)"
proof -
  let ?db = "db\<lparr>generated := generated db @ [g]\<rparr>"
  have "generated_ok ?db" if "native_ok db"
    using native_okD(3) [OF that] assms(1) by (auto simp: generated_ok_def find_by_sender_def find_None_iff)
  then have "ram_frame psize db (?db\<lparr>resources := rl\<rparr>)"
    using assms(2) by (intro ram_frame_charge) (auto intro: native_ok_generated simp: native_ram_schedule)
  then show ?thesis by simp
qed

lemma packed_size: "length (gto_packed_trx g) < 2 ^ 32 \<Longrightarrow> deferred_size (gto_packed_trx g) = generated_size g"
  by (simp add: deferred_size_facts generated_size_def)

lemma schedule_deferred_frame:
  assumes "schedule_deferred_transaction ctl sender_id payer t replace (ac, tc, db) = Inr (ac', tc', db')"
    and "find_by_sender (receiver ac) sender_id db = None" and "\<forall>t. length (pack_transaction (ctl_codec ctl) t) < 2 ^ 32"
  shows "ram_frame psize db db'"
proof -
  obtain g us tc1 where g: "gto_sender g = receiver ac" "gto_sender_id g = sender_id" "gto_payer g = payer"
    and packed: "\<exists>t'. gto_packed_trx g = pack_transaction (ctl_codec ctl) t'"
    and ram: "add_ram_usage payer (deferred_size (gto_packed_trx g)) (ac\<lparr>used_authorizations := us\<rparr>, tc1, db\<lparr>generated := generated db @ [g]\<rparr>)
       = Inr (ac', tc', db')"
    by (rule schedule_new_Inr [OF assms(1,2)])
  have size: "deferred_size (gto_packed_trx g) = generated_size g" using packed assms(3) packed_size by metis
  obtain rl where "db' = db\<lparr>generated := generated db @ [g], resources := rl\<rparr>"
    and "add_pending_ram_usage payer (generated_size g) (resources db) = Inr rl"
    using ram by (auto simp: size elim!: add_ram_usage_effect)
  then show ?thesis using new_generated_frame [of g db rl] g assms(2) by simp
qed

lemma schedule_transaction_frame:
  assumes "schedule_transaction ctl (tc, db) = Inr (tc', db')" and "\<forall>t. length (pack_transaction (ctl_codec ctl) t) < 2 ^ 32"
  shows "ram_frame psize db db'"
proof -
  define gto where "gto (tc1 :: transaction_context) = \<lparr>gto_trx_id = tc_id tc1, gto_sender = 0, gto_sender_id = transaction_id_to_sender_id (tc_id tc1),
    gto_payer = first_authorizor (trx tc1), gto_delay_until = block_time ctl + delay tc1,
    gto_expiration = block_time ctl + delay tc1 + seconds (deferred_trx_expiration_window (configuration ctl)),
    gto_published = block_time ctl, gto_packed_trx = pack_transaction (ctl_codec ctl) (transaction_of (trx tc1))\<rparr>" for tc1
  obtain tc1 db1 where make: "create_generated (gto tc1) db = Inr db1"
    and ram: "tc_add_ram_usage (gto_payer (gto tc1)) (deferred_size (gto_packed_trx (gto tc1))) (tc1, db1) = Inr (tc', db')"
    using assms(1) [unfolded schedule_transaction_def Let_def prod.case ebind_Inr_iff, folded gto_def]
    by (auto simp: gto_def deferred_size_def)
  let ?g = "gto tc1"
  have size: "deferred_size (gto_packed_trx ?g) = generated_size ?g" using assms(2) by (intro packed_size) (simp add: gto_def)
  have db1: "db1 = db\<lparr>generated := generated db @ [?g]\<rparr>" and fresh: "find_by_sender (gto_sender ?g) (gto_sender_id ?g) db = None"
    using make by (auto simp: create_generated_def find_by_sender_def find_None_iff EOS_ASSERT_Inr_iff list_ex_iff)
  obtain rl where "db' = db\<lparr>generated := generated db @ [?g], resources := rl\<rparr>"
    and "add_pending_ram_usage (gto_payer ?g) (generated_size ?g) (resources db) = Inr rl"
    using ram by (auto simp: size db1 tc_add_ram_usage_def exc_simps)
  then show ?thesis using new_generated_frame [OF fresh] by simp
qed

subsection \<open>Sequence numbers and producers\<close>

lemma sequence_frame:
  assumes "fm_lookup (account_sequence_index db) a = Some s"
  shows "ram_frame psize db (db\<lparr>account_sequence_index := fm_update a s' (account_sequence_index db)\<rparr>)"
proof (rule ram_frame_same)
  show "native_ok (db\<lparr>account_sequence_index := fm_update a s' (account_sequence_index db)\<rparr>)" if ok: "native_ok db"
  proof -
    have ex: "account_exists a db" using native_okD(2) [OF ok] assms by (auto simp: accounts_ok_def)
    then obtain acc where "fm_lookup (account_index db) a = Some acc" by (auto simp: account_exists_def)
    then have "fm_update a acc (account_index db) = account_index db" using native_okD(6) [OF ok] by (rule fm_update_same [rotated])
    with native_ok_account [OF ok ex, of s' acc] show ?thesis by simp
  qed
qed simp_all

lemma next_recv_frame: "next_recv_sequence a db = Inr (n, db') \<Longrightarrow> ram_frame psize db db'"
  by (auto simp: next_recv_sequence_def Let_def exc_simps intro: sequence_frame)

lemma next_auth_frame: "next_auth_sequence a db = Inr (n, db') \<Longrightarrow> ram_frame psize db db'"
  by (auto simp: next_auth_sequence_def Let_def exc_simps intro: sequence_frame)

lemma producers_permission_inv:
  assumes "update_producers_permission ps r db = Inr db'" and "chain_inv psize abi db"
  shows "chain_inv psize abi db'"
proof -
  have ok: "native_ok db" using assms(2) by (simp add: chain_inv_def)
  obtain nm num den where r: "r = (nm, num, den)" by (cases r)
  let ?a = "producers_authority ps num den"
  obtain i p where get: "get_permission (producers_account_name, nm) db = Inr (i, p)"
    and db': "db' = (if po_auth p \<noteq> ?a then db\<lparr>permissions := fm_update i (p\<lparr>po_auth := ?a\<rparr>) (permissions db)\<rparr> else db)"
    using assms(1) [unfolded update_producers_permission_def r Let_def prod.case ebind_Inr_iff] by auto
  have row: "fm_lookup (permissions db) i = Some p" "po_owner p = producers_account_name"
    using get get_permission_Inr [OF native_okD(1) [OF ok]] by auto
  have "producers_account_name \<noteq> 0" by (simp add: native_name_values)
  then have i0: "i \<noteq> 0" using row hierarchy_reserved [OF native_okD(10) [OF ok]] by (metis option.inject)
  note new = permission_rewritten [OF ok row(1) i0, of "p\<lparr>po_auth := ?a\<rparr>"]
  show ?thesis
  proof (cases "po_auth p = ?a")
    case True
    then show ?thesis using assms(2) db' by simp
  next
    case False
    then have db': "db' = db\<lparr>permissions := fm_update i (p\<lparr>po_auth := ?a\<rparr>) (permissions db)\<rparr>" using db' by simp
    have "ram_balance psize db' a = ram_balance psize db a" if "a \<noteq> producers_account_name" for a
      using new(2) [of psize a] that row(2) by (simp add: db' ram_balance_def)
    then show ?thesis using new(1) assms(2) by (simp add: db' chain_inv_def)
  qed
qed

lemma update_producers_inv:
  assumes "update_producers_authority ps db = Inr db'" and "chain_inv psize abi db"
  shows "chain_inv psize abi db'"
  using assms unfolding update_producers_authority_def by (rule efold_invariant) (rule producers_permission_inv)

subsection \<open>The reachable states\<close>

text \<open>
  The operations that change the resource limits without regard to memory: limits of accounts are
  set by privileged contracts and take effect between blocks, usage is summed up at the end of a block.
\<close>

inductive resource_step :: "resource_db \<Rightarrow> resource_db \<Rightarrow> bool" where
  set_limits: "set_account_limits a r w c rl = Inr (dec, rl') \<Longrightarrow> resource_step rl rl'"
| apply_limits: "process_account_limit_updates rl = Inr rl' \<Longrightarrow> resource_step rl rl'"
| parameters: "set_block_parameters cp np rl = Inr rl' \<Longrightarrow> resource_step rl rl'"
| end_block: "process_block_usage n rl = Inr rl' \<Longrightarrow> resource_step rl rl'"

lemma resource_step_kept: "resource_step rl rl' \<Longrightarrow> ram_kept rl rl'"
  by (induction rule: resource_step.induct) (auto intro: limits_kept limit_updates_kept parameters_kept block_usage_kept)

text \<open>
  The steps of the chain on the database. New identifiers are fresh, all nodes agree on the sizes of
  keys, and packed transactions are shorter than four gigabytes.
\<close>

inductive chain_step :: "(public_key_type \<Rightarrow> u64) \<Rightarrow> chain_db \<Rightarrow> chain_db \<Rightarrow> bool" for psize where
  native: "find_apply_handler rcv scope act = Some h \<Longrightarrow> h env ((ac :: apply_context), tc, db) = Inr (ac', tc', db') \<Longrightarrow>
    env_ok (ctl_auth (nv_ctl env)) \<Longrightarrow> key_pack_size env = psize \<Longrightarrow> chain_step psize db db'"
| start: "init ctl n (tc, db) = Inr (tc', db') \<Longrightarrow> chain_step psize db db'"
| start_input: "init_for_input_trx ctl u p n skip (tc, db) = Inr (tc', db') \<Longrightarrow> chain_step psize db db'"
| finish: "finalize ctl (tc, db) = Inr (tc', db') \<Longrightarrow> chain_step psize db db'"
| schedule_delayed: "schedule_transaction ctl (tc, db) = Inr (tc', db') \<Longrightarrow>
    \<forall>t. length (pack_transaction (ctl_codec ctl) t) < 2 ^ 32 \<Longrightarrow> chain_step psize db db'"
| send_deferred: "schedule_deferred_transaction ctl sid payer t replace ((ac :: apply_context), tc, db) = Inr (ac', tc', db') \<Longrightarrow>
    find_by_sender (receiver ac) sid db = None \<Longrightarrow>
    \<forall>t. length (pack_transaction (ctl_codec ctl) t) < 2 ^ 32 \<Longrightarrow> chain_step psize db db'"
| cancel_deferred: "cancel_deferred_transaction sid sender ((ac :: apply_context), tc, db) = Inr (found, ac', tc', db') \<Longrightarrow> chain_step psize db db'"
| global_sequence: "next_global_sequence db = (n, db') \<Longrightarrow> chain_step psize db db'"
| receiver_sequence: "next_recv_sequence a db = Inr (n, db') \<Longrightarrow> chain_step psize db db'"
| actor_sequence: "next_auth_sequence a db = Inr (n, db') \<Longrightarrow> chain_step psize db db'"
| limits: "resource_step (resources db) rl \<Longrightarrow> chain_step psize db (db\<lparr>resources := rl\<rparr>)"
| new_producers: "update_producers_authority ps db = Inr db' \<Longrightarrow> chain_step psize db db'"

inductive chain_reachable :: "genesis_env \<Rightarrow> chain_db \<Rightarrow> bool" for gen where
  genesis: "initialize_accounts gen empty_chain_db = Inr db \<Longrightarrow> env_ok (gen_auth gen) \<Longrightarrow> chain_reachable gen db"
| step: "chain_reachable gen db \<Longrightarrow> chain_step (gen_pack_size gen) db db' \<Longrightarrow> chain_reachable gen db'"

lemma chain_step_inv: "chain_step psize db db' \<Longrightarrow> chain_inv psize abi db \<Longrightarrow> chain_inv psize abi db'"
proof (induction rule: chain_step.induct)
  case (native rcv scope act h env ac tc db ac' tc' db')
  from chain_inv_frame [OF handler_frame [OF native(1-4)] native(5)] show ?case .
next
  case (global_sequence db n db')
  then have "db' = db\<lparr>global_action_sequence := global_action_sequence db + 1\<rparr>" by (auto simp: next_global_sequence_def Let_def)
  then show ?case using global_sequence by (simp add: chain_inv_def ram_balance_def)
next
  case (limits db rl)
  then show ?case by (auto intro: chain_inv_frame resources_frame resource_step_kept)
next
  case (new_producers ps db db')
  then show ?case by (rule update_producers_inv)
qed (blast intro: chain_inv_frame init_frame init_for_input_frame finalize_frame schedule_transaction_frame schedule_deferred_frame
    cancel_frame next_recv_frame next_auth_frame)+

lemma chain_reachable_inv: "chain_reachable gen db \<Longrightarrow> chain_inv (gen_pack_size gen) (gen_system_abi gen) db"
  by (induction rule: chain_reachable.induct) (auto intro: initialize_accounts_inv chain_step_inv)



subsection \<open>A sample chain\<close>

definition sample_gen :: genesis_env where
  "sample_gen = \<lparr>gen_auth = sample_env, gen_pack_size = (\<lambda>_. 34), initial_timestamp = 946684800000000, initial_key = [1],
     gen_system_abi = [1, 2, 3]\<rparr>"

definition sample_native_env :: native_env where
  "sample_native_env = \<lparr>nv_ctl = sample_ctl,
     unpack_newaccount = (\<lambda>d. Inr \<lparr>na_creator = system_account_name, na_name = 3773036822876127232,
        na_owner = key_authority_of 1, na_active = key_authority_of 2\<rparr>),
     unpack_setcode = (\<lambda>d. Inl undefined_behavior), unpack_setabi = (\<lambda>d. Inl undefined_behavior),
     key_less = (\<lambda>k l. k = [1] \<and> l = [2]), key_pack_size = (\<lambda>_. 34), hash_code = (\<lambda>_. sample_digest 0), wasm_validate = (\<lambda>_. Inr ())\<rparr>"

definition sample_newaccount :: "((unit, unit) action_state) result" where
  "sample_newaccount =
     ebind (ebind (make_transaction_context (make_signed sample_trx [] []) (sample_digest 1) 1000 False 0) (\<lambda>tc.
        ebind (initialize_accounts sample_gen empty_chain_db) (\<lambda>db.
        Inr (make_apply_context \<lparr>act_account = system_account_name, act_name = newaccount_name,
           authorization = [(system_account_name, active_name)], act_data = []\<rparr> 0, tc, db))))
       (apply_newaccount sample_native_env)"

text \<open>The action in stages, for evaluation.\<close>

lemma validate_code [code]:
  "validate less_key auth =
     (if int (length (keys auth) + length (accounts auth) + length (waits auth)) > 65536 then False
      else if threshold auth = 0 then False
      else case validate_loop (\<lambda>p k. \<not> less_key (kw_key p) (kw_key k)) kw_weight None (keys auth) 0 of
        None \<Rightarrow> False
      | Some total_weight \<Rightarrow>
      case validate_loop (\<lambda>p a. plw_permission p \<ge> plw_permission a) plw_weight None (accounts auth) total_weight of
        None \<Rightarrow> False
      | Some total_weight \<Rightarrow>
      if waits auth \<noteq> [] \<and> ww_wait_sec (waits auth ! 0) = 0 then False
      else case validate_loop (\<lambda>p w. ww_wait_sec p \<ge> ww_wait_sec w) ww_weight None (waits auth) total_weight of
        None \<Rightarrow> False
      | Some total_weight \<Rightarrow> total_weight \<ge> threshold auth)"
  by (simp add: validate_def)

fun newaccount_checked ::
  "native_env \<Rightarrow> newaccount \<times> ('b, 'a) action_state \<Rightarrow> (newaccount \<times> ('b, 'a) action_state) result" where
  "newaccount_checked env (create, ac, tc, db) =
     EOS_ASSERT (validate (key_less env) (na_owner create)) action_validate_exception
     (EOS_ASSERT (validate (key_less env) (na_active create)) action_validate_exception
     (EOS_ASSERT (na_name create \<noteq> 0) action_validate_exception
     (EOS_ASSERT (length (name_to_string (na_name create)) \<le> 12) action_validate_exception
     (EOS_ASSERT (fm_lookup (account_index db) (na_creator create) \<noteq> None) table_key_not_found
     (EOS_ASSERT (ao_privileged (the (fm_lookup (account_index db) (na_creator create))) \<or> \<not> is_eonio_name (na_name create))
        action_validate_exception
     (EOS_ASSERT (fm_lookup (account_index db) (na_name create) = None) account_name_exists_exception
     (Inr (create, ac, tc, db))))))))"

fun newaccount_rows ::
  "native_env \<Rightarrow> newaccount \<times> ('b, 'a) action_state \<Rightarrow> (newaccount \<times> ('b, 'a) action_state) result" where
  "newaccount_rows env (create, ac, tc, db) =
     ebind (create_account_rows (na_name create) (new_account_object (block_slot (nv_ctl env)) False []) db) (\<lambda>db. Inr (create, ac, tc, db))"

fun newaccount_authorities ::
  "native_env \<Rightarrow> newaccount \<times> ('b, 'a) action_state \<Rightarrow> (newaccount \<times> ('b, 'a) action_state) result" where
  "newaccount_authorities env (create, ac, tc, db) =
     ebind (validate_authority_precondition (nv_ctl env) tc db (na_owner create)) (\<lambda>_.
     ebind (validate_authority_precondition (nv_ctl env) tc db (na_active create)) (\<lambda>_. Inr (create, ac, tc, db)))"

fun newaccount_permissions :: "native_env \<Rightarrow> newaccount \<times> ('b, 'a) action_state \<Rightarrow> ('b, 'a) action_state result" where
  "newaccount_permissions env (create, ac, tc, db) =
     ebind (create_account_permissions (ctl_auth (nv_ctl env)) (key_pack_size env) (na_name create) (na_owner create) (na_active create) 0 db)
       (\<lambda>(ram_delta, db). add_ram_usage (na_name create) ram_delta (ac, tc, db))"

lemma apply_newaccount_code [code]:
  "apply_newaccount env (ac, tc, db) =
     ebind (ebind (ebind (ebind (ebind (unpack_newaccount env (act_data (ac_act ac))) (\<lambda>create.
       ebind (require_authorization (na_creator create) ac) (\<lambda>ac. Inr (create, ac, tc, db))))
       (newaccount_checked env)) (newaccount_rows env)) (newaccount_authorities env)) (newaccount_permissions env)"
  by (auto simp: apply_newaccount_def ebind_def EOS_ASSERT_def db_get_def Let_def split: sum.splits option.splits)

lemma sample_newaccount_reachable:
  assumes "sample_newaccount = Inr (ac, tc, db)"
  shows "chain_reachable sample_gen db"
proof -
  obtain db0 ac0 tc0 where gen: "initialize_accounts sample_gen empty_chain_db = Inr db0"
    and run: "apply_newaccount sample_native_env (ac0, tc0, db0) = Inr (ac, tc, db)"
    using assms unfolding sample_newaccount_def by (auto simp: ebind_Inr_iff)
  have "chain_reachable sample_gen db0" using gen sample_env_ok by (intro chain_reachable.genesis) (simp_all add: sample_gen_def)
  moreover have "env_ok (ctl_auth (nv_ctl sample_native_env))" "key_pack_size sample_native_env = gen_pack_size sample_gen"
    by (simp_all add: sample_native_env_def sample_ctl_def sample_gen_def sample_env_ok)
  moreover have "find_apply_handler system_account_name system_account_name newaccount_name = Some apply_newaccount"
    by (simp add: find_apply_handler_def)
  ultimately show ?thesis using run by (blast intro: chain_reachable.step chain_step.native)
qed

lemma sample_newaccount_run:
  "\<exists>ac tc db. sample_newaccount = Inr (ac, tc, db) \<and> account_exists 3773036822876127232 db \<and>
     map_option ram_usage (fm_lookup (usage_table (resources db)) 3773036822876127232) = Some 2724"
proof -
  have "case sample_newaccount of Inl e \<Rightarrow> False | Inr (ac, tc, db) \<Rightarrow> account_exists 3773036822876127232 db \<and>
     map_option ram_usage (fm_lookup (usage_table (resources db)) 3773036822876127232) = Some 2724" by code_simp
  then show ?thesis by (auto split: sum.splits)
qed



end
