(* ===== verification/Contract_Tables.thy ===== *)
theory Contract_Tables
  imports Native_Accounting
begin

text \<open>
  The tables of contracts: the database functions of \<open>apply_context.cpp\<close>, the iterator caches and
  the secondary indices of \<open>apply_context.hpp\<close> and the objects of \<open>contract_table_objects.hpp\<close>.
  A row is identified by its table and primary key, which never change while it exists; a pointer
  to a row or to a table is that identifier, and following it after the object is gone is
  undefined behaviour. The identifiers the database gives to new tables are a parameter. One
  secondary index over an arbitrary ordered type of keys stands for the five of the source.
\<close>

subsection \<open>Objects\<close>

type_synonym table_id = nat

record table_id_object =
  ti_code :: account_name
  ti_scope :: u64
  ti_table :: u64
  ti_payer :: account_name
  ti_count :: u32

record key_value_object =
  kv_payer :: account_name
  kv_value :: "u8 list"

record 'k index_object =
  ix_payer :: account_name
  ix_secondary :: 'k

type_synonym row_id = "table_id \<times> u64"

definition billable_table_id_object :: u64 where
  "billable_table_id_object = billable_size_v (44 + overhead_per_row_per_index_ram_bytes * 2)"

definition billable_key_value_object :: u64 where
  "billable_key_value_object = billable_size_v (32 + 8 + 4 + overhead_per_row_per_index_ram_bytes * 2)"

text \<open>The size of an entry of a secondary index depends on the size of its key.\<close>

definition billable_index_object :: "u64 \<Rightarrow> u64" where
  "billable_index_object key_size = billable_size_v (24 + key_size + overhead_per_row_per_index_ram_bytes * 3)"

record iterator_cache =
  table_cache :: "(table_id, int) flat_map"
  end_iterator_to_table :: "table_id list"
  iterator_to_object :: "row_id option list"
  object_to_iterator :: "(row_id, int) flat_map"

record 'k contract_db = chain_db +
  tables_created :: nat
  table_index :: "(table_id, table_id_object) flat_map"
  key_values :: "(row_id, key_value_object) flat_map"
  index_rows :: "(row_id, 'k index_object) flat_map"

record contract_context = apply_context +
  keyval_cache :: iterator_cache
  index_cache :: iterator_cache

record table_env =
  te_ctl :: controller_env
  table_id_at :: "nat \<Rightarrow> table_id"
  index_key_size :: u64

type_synonym ('k, 'b, 'a) table_state = "'b contract_context_scheme \<times> transaction_context \<times> ('k, 'a) contract_db_scheme"

subsection \<open>Iterator caches\<close>

definition empty_cache :: iterator_cache where
  "empty_cache = \<lparr>table_cache = [], end_iterator_to_table = [], iterator_to_object = [], object_to_iterator = []\<rparr>"

definition end_iterator_to_index :: "int \<Rightarrow> nat" where
  "end_iterator_to_index ei = nat (- ei - 2)"

definition index_to_end_iterator :: "nat \<Rightarrow> int" where
  "index_to_end_iterator indx = - (int indx + 2)"

definition cache_table :: "table_id \<Rightarrow> iterator_cache \<Rightarrow> int \<times> iterator_cache" where
  "cache_table tid c =
     (case fm_lookup (table_cache c) tid of
        Some ei \<Rightarrow> (ei, c)
      | None \<Rightarrow>
          let ei = index_to_end_iterator (length (end_iterator_to_table c)) in
          (ei, c\<lparr>end_iterator_to_table := end_iterator_to_table c @ [tid], table_cache := fm_update tid ei (table_cache c)\<rparr>))"

definition deref_table :: "table_id \<Rightarrow> ('k, 'a) contract_db_scheme \<Rightarrow> table_id_object result" where
  "deref_table tid db = (case fm_lookup (table_index db) tid of None \<Rightarrow> Inl undefined_behavior | Some t \<Rightarrow> Inr t)"

definition get_table :: "table_id \<Rightarrow> iterator_cache \<Rightarrow> ('k, 'a) contract_db_scheme \<Rightarrow> table_id_object result" where
  "get_table tid c db = EOS_ASSERT (fm_lookup (table_cache c) tid \<noteq> None) table_not_in_cache (deref_table tid db)"

definition get_end_iterator_by_table_id :: "table_id \<Rightarrow> iterator_cache \<Rightarrow> int result" where
  "get_end_iterator_by_table_id tid c =
     (case fm_lookup (table_cache c) tid of None \<Rightarrow> Inl table_not_in_cache | Some ei \<Rightarrow> Inr ei)"

definition find_table_by_end_iterator :: "int \<Rightarrow> iterator_cache \<Rightarrow> table_id option result" where
  "find_table_by_end_iterator ei c =
     EOS_ASSERT (ei < - 1) invalid_table_iterator
     (let indx = end_iterator_to_index ei in
      Inr (if indx \<ge> length (end_iterator_to_table c) then None else Some (end_iterator_to_table c ! indx)))"

definition cache_get :: "int \<Rightarrow> iterator_cache \<Rightarrow> row_id result" where
  "cache_get iterator c =
     EOS_ASSERT (iterator \<noteq> - 1) invalid_table_iterator
     (EOS_ASSERT (iterator \<ge> 0) table_operation_not_permitted
     (EOS_ASSERT (nat iterator < length (iterator_to_object c)) invalid_table_iterator
     (case iterator_to_object c ! nat iterator of None \<Rightarrow> Inl table_operation_not_permitted | Some r \<Rightarrow> Inr r)))"

definition cache_remove :: "int \<Rightarrow> iterator_cache \<Rightarrow> iterator_cache result" where
  "cache_remove iterator c =
     EOS_ASSERT (iterator \<noteq> - 1) invalid_table_iterator
     (EOS_ASSERT (iterator \<ge> 0) table_operation_not_permitted
     (EOS_ASSERT (nat iterator < length (iterator_to_object c)) invalid_table_iterator
     (Inr (case iterator_to_object c ! nat iterator of
        None \<Rightarrow> c
      | Some r \<Rightarrow> c\<lparr>iterator_to_object := (iterator_to_object c)[nat iterator := None],
                    object_to_iterator := fm_erase r (object_to_iterator c)\<rparr>))))"

definition cache_add :: "row_id \<Rightarrow> iterator_cache \<Rightarrow> int \<times> iterator_cache" where
  "cache_add r c =
     (case fm_lookup (object_to_iterator c) r of
        Some i \<Rightarrow> (i, c)
      | None \<Rightarrow>
          let i = int (length (iterator_to_object c)) in
          (i, c\<lparr>iterator_to_object := iterator_to_object c @ [Some r], object_to_iterator := fm_update r i (object_to_iterator c)\<rparr>))"

text \<open>The iterator of a row whose table may not be cached yet.\<close>

definition remember_row :: "row_id \<Rightarrow> iterator_cache \<Rightarrow> int \<times> iterator_cache" where
  "remember_row r c = (let (table_end_itr, c) = cache_table (fst r) c in cache_add r c)"

subsection \<open>Tables\<close>

definition find_table :: "account_name \<Rightarrow> u64 \<Rightarrow> u64 \<Rightarrow> ('k, 'a) contract_db_scheme \<Rightarrow> (table_id \<times> table_id_object) option" where
  "find_table code scope table db =
     find (\<lambda>(i, t). ti_code t = code \<and> ti_scope t = scope \<and> ti_table t = table) (table_index db)"

definition update_db_usage ::
  "controller_env \<Rightarrow> account_name \<Rightarrow> i64 \<Rightarrow> ('b, 'a) action_state \<Rightarrow> ('b, 'a) action_state result" where
  "update_db_usage ctl payer delta st =
     (let (ac, tc, db) = st in
      ebind (if sint delta > 0 \<and> \<not> (privileged ac \<or> payer = receiver ac) then
               EOS_ASSERT (is_ram_billing_in_notify_allowed ctl \<or> receiver ac = act_account (ac_act ac)) subjective_block_production_exception
               (require_authorization payer ac)
             else Inr ac) (\<lambda>ac.
      add_ram_usage payer delta (ac, tc, db)))"

definition find_or_create_table ::
  "table_env \<Rightarrow> account_name \<Rightarrow> u64 \<Rightarrow> u64 \<Rightarrow> account_name \<Rightarrow> ('k, 'b, 'a) table_state \<Rightarrow> (table_id \<times> ('k, 'b, 'a) table_state) result" where
  "find_or_create_table env code scope table payer st =
     (case find_table code scope table (snd (snd st)) of
        Some (i, t) \<Rightarrow> Inr (i, st)
      | None \<Rightarrow>
          ebind (update_db_usage (te_ctl env) payer billable_table_id_object st) (\<lambda>(ac, tc, db).
          let i = table_id_at env (tables_created db) in
          Inr (i, ac, tc, db\<lparr>tables_created := tables_created db + 1,
            table_index := fm_update i \<lparr>ti_code = code, ti_scope = scope, ti_table = table, ti_payer = payer, ti_count = 0\<rparr>
              (table_index db)\<rparr>)))"

definition remove_table :: "table_env \<Rightarrow> table_id \<Rightarrow> ('k, 'b, 'a) table_state \<Rightarrow> ('k, 'b, 'a) table_state result" where
  "remove_table env tid st =
     ebind (deref_table tid (snd (snd st))) (\<lambda>t.
     ebind (update_db_usage (te_ctl env) (ti_payer t) (- billable_table_id_object) st) (\<lambda>(ac, tc, db).
     Inr (ac, tc, db\<lparr>table_index := fm_erase tid (table_index db)\<rparr>)))"

text \<open>A row more and a row less in a table; a table without rows is removed.\<close>

definition count_up :: "table_id \<Rightarrow> ('k, 'a) contract_db_scheme \<Rightarrow> ('k, 'a) contract_db_scheme result" where
  "count_up tid db =
     ebind (deref_table tid db) (\<lambda>t.
     Inr (db\<lparr>table_index := fm_update tid (t\<lparr>ti_count := ti_count t + 1\<rparr>) (table_index db)\<rparr>))"

definition count_down :: "table_env \<Rightarrow> table_id \<Rightarrow> ('k, 'b, 'a) table_state \<Rightarrow> ('k, 'b, 'a) table_state result" where
  "count_down env tid st =
     (let (ac, tc, db) = st in
      ebind (deref_table tid db) (\<lambda>t.
      let db = db\<lparr>table_index := fm_update tid (t\<lparr>ti_count := ti_count t - 1\<rparr>) (table_index db)\<rparr> in
      if ti_count t - 1 = 0 then remove_table env tid (ac, tc, db) else Inr (ac, tc, db)))"


subsection \<open>Positions in an ordered index\<close>

text \<open>
  The first entry a predicate selects in an ordered index, and the entry before that position;
  \<open>None\<close> is the end of the index or the position before its beginning.
\<close>

definition entry_at :: "('x \<Rightarrow> bool) \<Rightarrow> 'x list \<Rightarrow> 'x option" where
  "entry_at p xs = find p xs"

definition entry_before :: "('x \<Rightarrow> bool) \<Rightarrow> 'x list \<Rightarrow> 'x option" where
  "entry_before p xs = (let ys = takeWhile (\<lambda>x. \<not> p x) xs in if ys = [] then None else Some (last ys))"

text \<open>
  The iterator for a position in the entries of a table: the end iterator of the table for a
  position past them, the iterator of the row otherwise.
\<close>

definition itr_or_end :: "table_id \<Rightarrow> int \<Rightarrow> (row_id \<times> 'o) option \<Rightarrow> iterator_cache \<Rightarrow> int \<times> iterator_cache" where
  "itr_or_end tid table_end_itr pos c =
     (case pos of
        None \<Rightarrow> (table_end_itr, c)
      | Some (r, obj) \<Rightarrow> if fst r \<noteq> tid then (table_end_itr, c) else cache_add r c)"

subsection \<open>Rows by primary key\<close>

definition deref_row :: "row_id \<Rightarrow> (row_id, 'o) flat_map \<Rightarrow> 'o result" where
  "deref_row r rows = (case fm_lookup rows r of None \<Rightarrow> Inl undefined_behavior | Some obj \<Rightarrow> Inr obj)"

definition db_store_i64_code ::
  "table_env \<Rightarrow> account_name \<Rightarrow> u64 \<Rightarrow> u64 \<Rightarrow> account_name \<Rightarrow> u64 \<Rightarrow> u8 list \<Rightarrow> ('k, 'b, 'a) table_state \<Rightarrow>
   (int \<times> ('k, 'b, 'a) table_state) result" where
  "db_store_i64_code env code scope table payer primary buffer st =
     ebind (find_or_create_table env code scope table payer st) (\<lambda>(tid, ac, tc, db).
     EOS_ASSERT (payer \<noteq> 0) invalid_table_payer
     (ebind (db_create (tid, primary) \<lparr>kv_payer = payer, kv_value = buffer\<rparr> (key_values db)) (\<lambda>kvs.
      ebind (count_up tid (db\<lparr>key_values := kvs\<rparr>)) (\<lambda>db.
      ebind (update_db_usage (te_ctl env) payer (of_nat (length buffer) + billable_key_value_object) (ac, tc, db)) (\<lambda>(ac, tc, db).
      let remembered = remember_row (tid, primary) (keyval_cache ac) in
      Inr (fst remembered, ac\<lparr>keyval_cache := snd remembered\<rparr>, tc, db))))))"

definition db_store_i64 ::
  "table_env \<Rightarrow> u64 \<Rightarrow> u64 \<Rightarrow> account_name \<Rightarrow> u64 \<Rightarrow> u8 list \<Rightarrow> ('k, 'b, 'a) table_state \<Rightarrow> (int \<times> ('k, 'b, 'a) table_state) result" where
  "db_store_i64 env scope table payer primary buffer st =
     db_store_i64_code env (receiver (fst st)) scope table payer primary buffer st"

text \<open>The row an iterator of the action's own tables stands for.\<close>

definition own_row ::
  "int \<Rightarrow> iterator_cache \<Rightarrow> (row_id, 'o) flat_map \<Rightarrow> ('k, 'b, 'a) table_state \<Rightarrow> (row_id \<times> 'o) result" where
  "own_row iterator c rows st =
     ebind (cache_get iterator c) (\<lambda>r.
     ebind (deref_row r rows) (\<lambda>obj.
     ebind (get_table (fst r) c (snd (snd st))) (\<lambda>t.
     EOS_ASSERT (ti_code t = receiver (fst st)) table_access_violation (Inr (r, obj)))))"

text \<open>The memory of a row that is changed: a new payer takes it over, the same payer is charged the difference.\<close>

definition recharge ::
  "controller_env \<Rightarrow> account_name \<Rightarrow> account_name \<Rightarrow> i64 \<Rightarrow> i64 \<Rightarrow> ('b, 'a) action_state \<Rightarrow> ('b, 'a) action_state result" where
  "recharge ctl old_payer payer old_size new_size st =
     (if old_payer \<noteq> payer then ebind (update_db_usage ctl old_payer (- old_size) st) (update_db_usage ctl payer new_size)
      else if old_size \<noteq> new_size then update_db_usage ctl old_payer (new_size - old_size) st
      else Inr st)"

definition db_update_i64 ::
  "table_env \<Rightarrow> int \<Rightarrow> account_name \<Rightarrow> u8 list \<Rightarrow> ('k, 'b, 'a) table_state \<Rightarrow> ('k, 'b, 'a) table_state result" where
  "db_update_i64 env iterator payer buffer st =
     ebind (own_row iterator (keyval_cache (fst st)) (key_values (snd (snd st))) st) (\<lambda>(r, obj).
     let old_size = of_nat (length (kv_value obj)) + billable_key_value_object;
         new_size = of_nat (length buffer) + billable_key_value_object;
         payer = (if payer = 0 then kv_payer obj else payer) in
     ebind (recharge (te_ctl env) (kv_payer obj) payer old_size new_size st) (\<lambda>(ac, tc, db).
     Inr (ac, tc, db\<lparr>key_values := fm_update r \<lparr>kv_payer = payer, kv_value = buffer\<rparr> (key_values db)\<rparr>)))"

definition db_remove_i64 :: "table_env \<Rightarrow> int \<Rightarrow> ('k, 'b, 'a) table_state \<Rightarrow> ('k, 'b, 'a) table_state result" where
  "db_remove_i64 env iterator st =
     ebind (own_row iterator (keyval_cache (fst st)) (key_values (snd (snd st))) st) (\<lambda>(r, obj).
     ebind (update_db_usage (te_ctl env) (kv_payer obj) (- (of_nat (length (kv_value obj)) + billable_key_value_object)) st) (\<lambda>(ac, tc, db).
     ebind (count_down env (fst r) (ac, tc, db\<lparr>key_values := fm_erase r (key_values db)\<rparr>)) (\<lambda>(ac, tc, db).
     ebind (cache_remove iterator (keyval_cache ac)) (\<lambda>c.
     Inr (ac\<lparr>keyval_cache := c\<rparr>, tc, db)))))"

text \<open>The number returned and the bytes copied to the buffer.\<close>

definition db_get_i64 :: "int \<Rightarrow> nat \<Rightarrow> ('k, 'b, 'a) table_state \<Rightarrow> (int \<times> u8 list) result" where
  "db_get_i64 iterator buffer_size st =
     ebind (cache_get iterator (keyval_cache (fst st))) (\<lambda>r.
     ebind (deref_row r (key_values (snd (snd st)))) (\<lambda>obj.
     let s = length (kv_value obj) in
     if buffer_size = 0 then Inr (int s, [])
     else let copy_size = min buffer_size s in Inr (int copy_size, take copy_size (kv_value obj))))"

text \<open>
  Moving an iterator. The primary key of the row reached is also returned, when the source sets it.
\<close>

definition db_next_i64 :: "int \<Rightarrow> ('k, 'b, 'a) table_state \<Rightarrow> (int \<times> u64 option \<times> ('k, 'b, 'a) table_state) result" where
  "db_next_i64 iterator st =
     (let (ac, tc, db) = st in
      if iterator < - 1 then Inr (- 1, None, st)
      else ebind (cache_get iterator (keyval_cache ac)) (\<lambda>r.
        ebind (deref_row r (key_values db)) (\<lambda>_.
        case entry_at (\<lambda>(r', o'). r < r') (key_values db) of
          Some (r', o') \<Rightarrow>
            if fst r' \<noteq> fst r then ebind (get_end_iterator_by_table_id (fst r) (keyval_cache ac)) (\<lambda>ei. Inr (ei, None, st))
            else let (i, c) = cache_add r' (keyval_cache ac) in Inr (i, Some (snd r'), ac\<lparr>keyval_cache := c\<rparr>, tc, db)
        | None \<Rightarrow> ebind (get_end_iterator_by_table_id (fst r) (keyval_cache ac)) (\<lambda>ei. Inr (ei, None, st)))))"

text \<open>The end iterator of a table and the row before a position of it.\<close>

definition end_table :: "int \<Rightarrow> iterator_cache \<Rightarrow> ('k, 'a) contract_db_scheme \<Rightarrow> table_id result" where
  "end_table iterator c db =
     ebind (find_table_by_end_iterator iterator c) (\<lambda>tab.
     case tab of None \<Rightarrow> Inl invalid_table_iterator | Some tid \<Rightarrow> ebind (deref_table tid db) (\<lambda>t. Inr tid))"

definition step_back :: "table_id \<Rightarrow> (row_id \<times> 'o) option \<Rightarrow> iterator_cache \<Rightarrow> int \<times> u64 option \<times> iterator_cache" where
  "step_back tid pos c =
     (case pos of
        None \<Rightarrow> (- 1, None, c)
      | Some (r, obj) \<Rightarrow>
          if fst r \<noteq> tid then (- 1, None, c) else let (i, c) = cache_add r c in (i, Some (snd r), c))"

definition db_previous_i64 :: "int \<Rightarrow> ('k, 'b, 'a) table_state \<Rightarrow> (int \<times> u64 option \<times> ('k, 'b, 'a) table_state) result" where
  "db_previous_i64 iterator st =
     (let (ac, tc, db) = st in
      ebind (if iterator < - 1 then
               ebind (end_table iterator (keyval_cache ac) db) (\<lambda>tid.
               Inr (tid, entry_before (\<lambda>(r, o'). tid < fst r) (key_values db)))
             else
               ebind (cache_get iterator (keyval_cache ac)) (\<lambda>r.
               ebind (deref_row r (key_values db)) (\<lambda>_.
               Inr (fst r, entry_before (\<lambda>(r', o'). r \<le> r') (key_values db))))) (\<lambda>(tid, pos).
      let (i, primary, c) = step_back tid pos (keyval_cache ac) in Inr (i, primary, ac\<lparr>keyval_cache := c\<rparr>, tc, db)))"

text \<open>Looking a position up in a table by its names.\<close>

definition in_table ::
  "account_name \<Rightarrow> u64 \<Rightarrow> u64 \<Rightarrow> (table_id \<Rightarrow> ('k, 'a) contract_db_scheme \<Rightarrow> (row_id \<times> key_value_object) option) \<Rightarrow>
   ('k, 'b, 'a) table_state \<Rightarrow> int \<times> ('k, 'b, 'a) table_state" where
  "in_table code scope table pos st =
     (let (ac, tc, db) = st in
      case find_table code scope table db of
        None \<Rightarrow> (- 1, st)
      | Some (tid, t) \<Rightarrow>
          let (table_end_itr, c) = cache_table tid (keyval_cache ac);
              (i, c) = itr_or_end tid table_end_itr (pos tid db) c in
          (i, ac\<lparr>keyval_cache := c\<rparr>, tc, db))"

definition db_find_i64 :: "account_name \<Rightarrow> u64 \<Rightarrow> u64 \<Rightarrow> u64 \<Rightarrow> ('k, 'b, 'a) table_state \<Rightarrow> int \<times> ('k, 'b, 'a) table_state" where
  "db_find_i64 code scope table primary =
     in_table code scope table (\<lambda>tid db. map_option (\<lambda>obj. ((tid, primary), obj)) (fm_lookup (key_values db) (tid, primary)))"

definition db_lowerbound_i64 :: "account_name \<Rightarrow> u64 \<Rightarrow> u64 \<Rightarrow> u64 \<Rightarrow> ('k, 'b, 'a) table_state \<Rightarrow> int \<times> ('k, 'b, 'a) table_state" where
  "db_lowerbound_i64 code scope table primary =
     in_table code scope table (\<lambda>tid db. entry_at (\<lambda>(r, o'). (tid, primary) \<le> r) (key_values db))"

definition db_upperbound_i64 :: "account_name \<Rightarrow> u64 \<Rightarrow> u64 \<Rightarrow> u64 \<Rightarrow> ('k, 'b, 'a) table_state \<Rightarrow> int \<times> ('k, 'b, 'a) table_state" where
  "db_upperbound_i64 code scope table primary =
     in_table code scope table (\<lambda>tid db. entry_at (\<lambda>(r, o'). (tid, primary) < r) (key_values db))"

definition db_end_i64 :: "account_name \<Rightarrow> u64 \<Rightarrow> u64 \<Rightarrow> ('k, 'b, 'a) table_state \<Rightarrow> int \<times> ('k, 'b, 'a) table_state" where
  "db_end_i64 code scope table = in_table code scope table (\<lambda>tid db. None)"

subsection \<open>Rows by secondary key\<close>

text \<open>
  The entries of a secondary index in the order of the index: by table, secondary key and primary
  key. The index by primary key is the order of the rows.
\<close>

definition by_secondary :: "('k::linorder, 'a) contract_db_scheme \<Rightarrow> (row_id \<times> 'k index_object) list" where
  "by_secondary db = sort_key (\<lambda>(r, obj). (fst r, ix_secondary obj, snd r)) (index_rows db)"

definition index_store ::
  "table_env \<Rightarrow> u64 \<Rightarrow> u64 \<Rightarrow> account_name \<Rightarrow> u64 \<Rightarrow> 'k \<Rightarrow> ('k, 'b, 'a) table_state \<Rightarrow> (int \<times> ('k, 'b, 'a) table_state) result" where
  "index_store env scope table payer primary secondary st =
     EOS_ASSERT (payer \<noteq> 0) invalid_table_payer
     (ebind (find_or_create_table env (receiver (fst st)) scope table payer st) (\<lambda>(tid, ac, tc, db).
      ebind (db_create (tid, primary) \<lparr>ix_payer = payer, ix_secondary = secondary\<rparr> (index_rows db)) (\<lambda>ixs.
      ebind (count_up tid (db\<lparr>index_rows := ixs\<rparr>)) (\<lambda>db.
      ebind (update_db_usage (te_ctl env) payer (billable_index_object (index_key_size env)) (ac, tc, db)) (\<lambda>(ac, tc, db).
      let remembered = remember_row (tid, primary) (index_cache ac) in
      Inr (fst remembered, ac\<lparr>index_cache := snd remembered\<rparr>, tc, db))))))"

text \<open>The refund precedes the check that the table is the receiver's own.\<close>

definition index_remove :: "table_env \<Rightarrow> int \<Rightarrow> ('k, 'b, 'a) table_state \<Rightarrow> ('k, 'b, 'a) table_state result" where
  "index_remove env iterator st =
     ebind (cache_get iterator (index_cache (fst st))) (\<lambda>r.
     ebind (deref_row r (index_rows (snd (snd st)))) (\<lambda>obj.
     ebind (update_db_usage (te_ctl env) (ix_payer obj) (- billable_index_object (index_key_size env)) st) (\<lambda>(ac, tc, db).
     ebind (get_table (fst r) (index_cache ac) db) (\<lambda>t.
     EOS_ASSERT (ti_code t = receiver ac) table_access_violation
     (ebind (count_down env (fst r) (ac, tc, db\<lparr>index_rows := fm_erase r (index_rows db)\<rparr>)) (\<lambda>(ac, tc, db).
      ebind (cache_remove iterator (index_cache ac)) (\<lambda>c.
      Inr (ac\<lparr>index_cache := c\<rparr>, tc, db))))))))"

definition index_update ::
  "table_env \<Rightarrow> int \<Rightarrow> account_name \<Rightarrow> 'k \<Rightarrow> ('k, 'b, 'a) table_state \<Rightarrow> ('k, 'b, 'a) table_state result" where
  "index_update env iterator payer secondary st =
     ebind (own_row iterator (index_cache (fst st)) (index_rows (snd (snd st))) st) (\<lambda>(r, obj).
     let payer = (if payer = 0 then ix_payer obj else payer); billing_size = billable_index_object (index_key_size env) in
     ebind (recharge (te_ctl env) (ix_payer obj) payer billing_size billing_size st) (\<lambda>(ac, tc, db).
     Inr (ac, tc, db\<lparr>index_rows := fm_update r \<lparr>ix_payer = payer, ix_secondary = secondary\<rparr> (index_rows db)\<rparr>)))"

text \<open>
  Looking a position up in the index of a table; the row reached is returned, when there is one.
  The operations return of it what the source sets.
\<close>

definition in_index ::
  "account_name \<Rightarrow> u64 \<Rightarrow> u64 \<Rightarrow> (table_id \<Rightarrow> ('k, 'a) contract_db_scheme \<Rightarrow> (row_id \<times> 'k index_object) option) \<Rightarrow>
   ('k, 'b, 'a) table_state \<Rightarrow> int \<times> (u64 \<times> 'k) option \<times> ('k, 'b, 'a) table_state" where
  "in_index code scope table pos st =
     (let (ac, tc, db) = st in
      case find_table code scope table db of
        None \<Rightarrow> (- 1, None, st)
      | Some (tid, t) \<Rightarrow>
          let (table_end_itr, c) = cache_table tid (index_cache ac);
              (i, c) = itr_or_end tid table_end_itr (pos tid db) c in
          (i, (case pos tid db of Some (r, obj) \<Rightarrow> if fst r = tid then Some (snd r, ix_secondary obj) else None | None \<Rightarrow> None),
           ac\<lparr>index_cache := c\<rparr>, tc, db))"

definition find_secondary ::
  "account_name \<Rightarrow> u64 \<Rightarrow> u64 \<Rightarrow> 'k::linorder \<Rightarrow> ('k, 'b, 'a) table_state \<Rightarrow> int \<times> u64 option \<times> ('k, 'b, 'a) table_state" where
  "find_secondary code scope table secondary st =
     (let (i, row, st) = in_index code scope table (\<lambda>tid db. entry_at (\<lambda>(r, obj). fst r = tid \<and> ix_secondary obj = secondary) (by_secondary db)) st
      in (i, map_option fst row, st))"

definition lowerbound_secondary ::
  "account_name \<Rightarrow> u64 \<Rightarrow> u64 \<Rightarrow> 'k::linorder \<Rightarrow> ('k, 'b, 'a) table_state \<Rightarrow> int \<times> (u64 \<times> 'k) option \<times> ('k, 'b, 'a) table_state" where
  "lowerbound_secondary code scope table secondary =
     in_index code scope table (\<lambda>tid db. entry_at (\<lambda>(r, obj). (tid, secondary) \<le> (fst r, ix_secondary obj)) (by_secondary db))"

definition upperbound_secondary ::
  "account_name \<Rightarrow> u64 \<Rightarrow> u64 \<Rightarrow> 'k::linorder \<Rightarrow> ('k, 'b, 'a) table_state \<Rightarrow> int \<times> (u64 \<times> 'k) option \<times> ('k, 'b, 'a) table_state" where
  "upperbound_secondary code scope table secondary =
     in_index code scope table (\<lambda>tid db. entry_at (\<lambda>(r, obj). (tid, secondary) < (fst r, ix_secondary obj)) (by_secondary db))"

definition end_secondary ::
  "account_name \<Rightarrow> u64 \<Rightarrow> u64 \<Rightarrow> ('k, 'b, 'a) table_state \<Rightarrow> int \<times> ('k, 'b, 'a) table_state" where
  "end_secondary code scope table st =
     (let (i, row, st) = in_index code scope table (\<lambda>tid db. None) st
      in (i, st))"

definition find_primary ::
  "account_name \<Rightarrow> u64 \<Rightarrow> u64 \<Rightarrow> u64 \<Rightarrow> ('k, 'b, 'a) table_state \<Rightarrow> int \<times> 'k option \<times> ('k, 'b, 'a) table_state" where
  "find_primary code scope table primary st =
     (let (i, row, st) = in_index code scope table (\<lambda>tid db. map_option (\<lambda>obj. ((tid, primary), obj)) (fm_lookup (index_rows db) (tid, primary))) st
      in (i, map_option snd row, st))"

definition lowerbound_primary ::
  "account_name \<Rightarrow> u64 \<Rightarrow> u64 \<Rightarrow> u64 \<Rightarrow> ('k, 'b, 'a) table_state \<Rightarrow> int \<times> ('k, 'b, 'a) table_state" where
  "lowerbound_primary code scope table primary st =
     (let (i, row, st) = in_index code scope table (\<lambda>tid db. entry_at (\<lambda>(r, obj). (tid, primary) \<le> r) (index_rows db)) st
      in (i, st))"

definition upperbound_primary ::
  "account_name \<Rightarrow> u64 \<Rightarrow> u64 \<Rightarrow> u64 \<Rightarrow> ('k, 'b, 'a) table_state \<Rightarrow> int \<times> ('k, 'b, 'a) table_state" where
  "upperbound_primary code scope table primary st =
     (let (i, row, st) = in_index code scope table (\<lambda>tid db. entry_at (\<lambda>(r, obj). (tid, primary) < r) (index_rows db)) st
      in (i, st))"

text \<open>Moving an iterator in one of the two orders: the entries after and before the one with the given row.\<close>

definition index_next ::
  "(row_id \<Rightarrow> ('k, 'a) contract_db_scheme \<Rightarrow> (row_id \<times> 'k index_object) option) \<Rightarrow> int \<Rightarrow> ('k, 'b, 'a) table_state \<Rightarrow>
   (int \<times> u64 option \<times> ('k, 'b, 'a) table_state) result" where
  "index_next after iterator st =
     (let (ac, tc, db) = st in
      if iterator < - 1 then Inr (- 1, None, st)
      else ebind (cache_get iterator (index_cache ac)) (\<lambda>r.
        ebind (deref_row r (index_rows db)) (\<lambda>_.
        case after r db of
          Some (r', o') \<Rightarrow>
            if fst r' \<noteq> fst r then ebind (get_end_iterator_by_table_id (fst r) (index_cache ac)) (\<lambda>ei. Inr (ei, None, st))
            else let (i, c) = cache_add r' (index_cache ac) in Inr (i, Some (snd r'), ac\<lparr>index_cache := c\<rparr>, tc, db)
        | None \<Rightarrow> ebind (get_end_iterator_by_table_id (fst r) (index_cache ac)) (\<lambda>ei. Inr (ei, None, st)))))"

definition index_previous ::
  "(('k, 'a) contract_db_scheme \<Rightarrow> (row_id \<times> 'k index_object) list) \<Rightarrow>
   (row_id \<Rightarrow> ('k, 'a) contract_db_scheme \<Rightarrow> (row_id \<times> 'k index_object) option) \<Rightarrow> int \<Rightarrow> ('k, 'b, 'a) table_state \<Rightarrow>
   (int \<times> u64 option \<times> ('k, 'b, 'a) table_state) result" where
  "index_previous order before iterator st =
     (let (ac, tc, db) = st in
      ebind (if iterator < - 1 then
               ebind (end_table iterator (index_cache ac) db) (\<lambda>tid. Inr (tid, entry_before (\<lambda>(r, o'). tid < fst r) (order db)))
             else
               ebind (cache_get iterator (index_cache ac)) (\<lambda>r.
               ebind (deref_row r (index_rows db)) (\<lambda>_. Inr (fst r, before r db)))) (\<lambda>(tid, pos).
      let (i, primary, c) = step_back tid pos (index_cache ac) in Inr (i, primary, ac\<lparr>index_cache := c\<rparr>, tc, db)))"

text \<open>An entry follows a row in the order of the secondary keys.\<close>

definition secondary_after :: "row_id \<Rightarrow> ('k::linorder, 'a) contract_db_scheme \<Rightarrow> row_id \<times> 'k index_object \<Rightarrow> bool" where
  "secondary_after r db e =
     (case fm_lookup (index_rows db) r of
        None \<Rightarrow> False
      | Some obj \<Rightarrow> (fst r, ix_secondary obj, snd r) < (fst (fst e), ix_secondary (snd e), snd (fst e)))"

definition next_secondary ::
  "int \<Rightarrow> ('k::linorder, 'b, 'a) table_state \<Rightarrow> (int \<times> u64 option \<times> ('k, 'b, 'a) table_state) result" where
  "next_secondary = index_next (\<lambda>r db. entry_at (secondary_after r db) (by_secondary db))"

definition previous_secondary ::
  "int \<Rightarrow> ('k::linorder, 'b, 'a) table_state \<Rightarrow> (int \<times> u64 option \<times> ('k, 'b, 'a) table_state) result" where
  "previous_secondary = index_previous by_secondary
     (\<lambda>r db. entry_before (\<lambda>e. fst e = r \<or> secondary_after r db e) (by_secondary db))"

definition next_primary :: "int \<Rightarrow> ('k, 'b, 'a) table_state \<Rightarrow> (int \<times> u64 option \<times> ('k, 'b, 'a) table_state) result" where
  "next_primary = index_next (\<lambda>r db. entry_at (\<lambda>(r', o'). r < r') (index_rows db))"

definition previous_primary :: "int \<Rightarrow> ('k, 'b, 'a) table_state \<Rightarrow> (int \<times> u64 option \<times> ('k, 'b, 'a) table_state) result" where
  "previous_primary = index_previous index_rows (\<lambda>r db. entry_before (\<lambda>(r', o'). r \<le> r') (index_rows db))"

definition index_get :: "int \<Rightarrow> ('k, 'b, 'a) table_state \<Rightarrow> (u64 \<times> 'k) result" where
  "index_get iterator st =
     ebind (cache_get iterator (index_cache (fst st))) (\<lambda>r.
     ebind (deref_row r (index_rows (snd (snd st)))) (\<lambda>obj. Inr (snd r, ix_secondary obj)))"

end
