(* ===== verification/Table_Accounting.thy ===== *)
theory Table_Accounting
  imports Contract_Tables
begin

text \<open>
  What the database functions of contracts keep: the caches know exactly the rows and tables their
  iterators stand for, every row has a table and every table counts its rows, and the memory
  charged changes by exactly the size of the rows and tables that come and go.
\<close>

subsection \<open>Caches\<close>

text \<open>
  A cache over a table of rows: iterators and rows correspond one to one, the rows exist and their
  tables are cached; end iterators and tables correspond one to one.
\<close>

definition iterators_ok :: "(row_id, 'o) flat_map \<Rightarrow> iterator_cache \<Rightarrow> bool" where
  "iterators_ok rows c \<longleftrightarrow> fm_ok (object_to_iterator c) \<and> fm_ok (table_cache c) \<and> distinct (end_iterator_to_table c) \<and>
     (\<forall>r i. fm_lookup (object_to_iterator c) r = Some i \<longleftrightarrow>
        0 \<le> i \<and> nat i < length (iterator_to_object c) \<and> iterator_to_object c ! nat i = Some r) \<and>
     (\<forall>r \<in> set (iterator_to_object c). \<forall>x. r = Some x \<longrightarrow> fm_lookup rows x \<noteq> None \<and> fm_lookup (table_cache c) (fst x) \<noteq> None) \<and>
     (\<forall>tid ei. fm_lookup (table_cache c) tid = Some ei \<longleftrightarrow>
        ei < - 1 \<and> end_iterator_to_index ei < length (end_iterator_to_table c) \<and> end_iterator_to_table c ! end_iterator_to_index ei = tid)"

lemma iterators_okD:
  assumes "iterators_ok rows c"
  shows "fm_ok (object_to_iterator c)" and "fm_ok (table_cache c)" and "distinct (end_iterator_to_table c)"
    and "fm_lookup (object_to_iterator c) r = Some i \<longleftrightarrow>
        0 \<le> i \<and> nat i < length (iterator_to_object c) \<and> iterator_to_object c ! nat i = Some r"
    and "Some r \<in> set (iterator_to_object c) \<Longrightarrow> fm_lookup rows r \<noteq> None \<and> fm_lookup (table_cache c) (fst r) \<noteq> None"
    and "fm_lookup (table_cache c) tid = Some ei \<longleftrightarrow>
        ei < - 1 \<and> end_iterator_to_index ei < length (end_iterator_to_table c) \<and> end_iterator_to_table c ! end_iterator_to_index ei = tid"
  using assms unfolding iterators_ok_def by blast+

lemma iterators_okI:
  assumes "fm_ok (object_to_iterator c)" and "fm_ok (table_cache c)" and "distinct (end_iterator_to_table c)"
    and "\<And>r i. fm_lookup (object_to_iterator c) r = Some i \<longleftrightarrow>
        0 \<le> i \<and> nat i < length (iterator_to_object c) \<and> iterator_to_object c ! nat i = Some r"
    and "\<And>r. Some r \<in> set (iterator_to_object c) \<Longrightarrow> fm_lookup rows r \<noteq> None \<and> fm_lookup (table_cache c) (fst r) \<noteq> None"
    and "\<And>tid ei. fm_lookup (table_cache c) tid = Some ei \<longleftrightarrow>
        ei < - 1 \<and> end_iterator_to_index ei < length (end_iterator_to_table c) \<and> end_iterator_to_table c ! end_iterator_to_index ei = tid"
  shows "iterators_ok rows c"
  unfolding iterators_ok_def using assms by blast

lemma iterators_ok_empty: "iterators_ok rows empty_cache"
  by (auto simp: iterators_ok_def empty_cache_def fm_laws fm_ok_def fm_lookup_def end_iterator_to_index_def)

lemma end_iterator_inverse [simp]:
  "end_iterator_to_index (index_to_end_iterator n) = n" "index_to_end_iterator n < - 1"
  by (simp_all add: end_iterator_to_index_def index_to_end_iterator_def)

lemma end_iterator_unique: "ei < - 1 \<Longrightarrow> ei' < - 1 \<Longrightarrow> end_iterator_to_index ei = end_iterator_to_index ei' \<Longrightarrow> ei = ei'"
  by (simp add: end_iterator_to_index_def)

text \<open>The tables a cache knows.\<close>

lemma cached_tables:
  assumes "iterators_ok rows c"
  shows "fm_lookup (table_cache c) tid \<noteq> None \<longleftrightarrow> tid \<in> set (end_iterator_to_table c)"
proof
  assume "fm_lookup (table_cache c) tid \<noteq> None"
  then obtain ei where "fm_lookup (table_cache c) tid = Some ei" by blast
  then show "tid \<in> set (end_iterator_to_table c)" using iterators_okD(6) [OF assms] nth_mem by metis
next
  assume "tid \<in> set (end_iterator_to_table c)"
  then obtain n where "n < length (end_iterator_to_table c)" "end_iterator_to_table c ! n = tid" by (auto simp: in_set_conv_nth)
  then have "fm_lookup (table_cache c) tid = Some (index_to_end_iterator n)" using iterators_okD(6) [OF assms] by simp
  then show "fm_lookup (table_cache c) tid \<noteq> None" by simp
qed

lemma cache_table_ok:
  assumes "iterators_ok rows c" and "cache_table tid c = (ei, c')"
  shows "iterators_ok rows c'" and "fm_lookup (table_cache c') tid = Some ei"
    and "iterator_to_object c' = iterator_to_object c" and "object_to_iterator c' = object_to_iterator c"
    and "set (end_iterator_to_table c') = insert tid (set (end_iterator_to_table c))"
    and "fm_lookup (table_cache c) t = Some e \<Longrightarrow> fm_lookup (table_cache c') t = Some e"
proof -
  note D = iterators_okD [OF assms(1)]
  have "iterators_ok rows c' \<and> fm_lookup (table_cache c') tid = Some ei \<and> iterator_to_object c' = iterator_to_object c \<and>
       object_to_iterator c' = object_to_iterator c \<and> set (end_iterator_to_table c') = insert tid (set (end_iterator_to_table c)) \<and>
       (\<forall>t e. fm_lookup (table_cache c) t = Some e \<longrightarrow> fm_lookup (table_cache c') t = Some e)"
  proof (cases "fm_lookup (table_cache c) tid")
    case (Some e')
    then have "tid \<in> set (end_iterator_to_table c)" using cached_tables [OF assms(1)] by blast
    then show ?thesis
      using assms Some by (auto simp: cache_table_def)
  next
    case None
    let ?n = "length (end_iterator_to_table c)"
    have c': "c' = c\<lparr>end_iterator_to_table := end_iterator_to_table c @ [tid],
        table_cache := fm_update tid (index_to_end_iterator ?n) (table_cache c)\<rparr>" and ei: "ei = index_to_end_iterator ?n"
      using assms(2) None by (auto simp: cache_table_def Let_def)
    have new: "tid \<notin> set (end_iterator_to_table c)" using cached_tables [OF assms(1)] None by blast
    have tabs: "fm_lookup (table_cache c') t = Some e \<longleftrightarrow> e < - 1 \<and> end_iterator_to_index e < length (end_iterator_to_table c') \<and>
        end_iterator_to_table c' ! end_iterator_to_index e = t" for t e
    proof (cases "t = tid")
      case True
      have "e = index_to_end_iterator ?n"
        if "e < - 1" "end_iterator_to_index e < Suc ?n" "(end_iterator_to_table c @ [tid]) ! end_iterator_to_index e = tid"
        using that new end_iterator_unique [of e "index_to_end_iterator ?n"] nth_mem [of "end_iterator_to_index e" "end_iterator_to_table c"]
        by (cases "end_iterator_to_index e = ?n") (auto simp: nth_append)
      then show ?thesis using True D(2) by (auto simp: c' fm_laws)
    next
      case False
      then show ?thesis using D(2,6) by (auto simp: c' fm_laws nth_append less_Suc_eq split: if_splits)
    qed
    have "iterators_ok rows c'"
    proof (rule iterators_okI [OF _ _ _ _ _ tabs])
      show "fm_lookup rows r \<noteq> None \<and> fm_lookup (table_cache c') (fst r) \<noteq> None" if "Some r \<in> set (iterator_to_object c')" for r
        using that D(2,5) by (simp add: c' fm_laws)
    qed (use D(1-4) new in \<open>simp_all add: c' fm_laws\<close>)
    then show ?thesis
      using D(2) None by (auto simp: c' ei fm_laws)
  qed
  then show "iterators_ok rows c'" "fm_lookup (table_cache c') tid = Some ei"
    "iterator_to_object c' = iterator_to_object c" "object_to_iterator c' = object_to_iterator c"
    "set (end_iterator_to_table c') = insert tid (set (end_iterator_to_table c))"
    "fm_lookup (table_cache c) t = Some e \<Longrightarrow> fm_lookup (table_cache c') t = Some e" by simp_all
qed

lemma cache_get_Inr:
  "cache_get i c = Inr r \<longleftrightarrow> 0 \<le> i \<and> nat i < length (iterator_to_object c) \<and> iterator_to_object c ! nat i = Some r"
  by (auto simp: cache_get_def EOS_ASSERT_Inr_iff split: option.splits)

lemma cache_get_row:
  assumes "iterators_ok rows c" and "cache_get i c = Inr r"
  shows "fm_lookup rows r \<noteq> None" and "fm_lookup (table_cache c) (fst r) \<noteq> None" and "fm_lookup (object_to_iterator c) r = Some i"
proof -
  have "Some r \<in> set (iterator_to_object c)" using assms(2) nth_mem [of "nat i" "iterator_to_object c"] by (simp add: cache_get_Inr)
  then show "fm_lookup rows r \<noteq> None" "fm_lookup (table_cache c) (fst r) \<noteq> None" using iterators_okD(5) [OF assms(1)] by blast+
  show "fm_lookup (object_to_iterator c) r = Some i" using assms(2) iterators_okD(4) [OF assms(1)] by (simp add: cache_get_Inr)
qed

lemma iterators_ok_rows:
  assumes "iterators_ok rows c" and "\<And>r. fm_lookup rows r \<noteq> None \<Longrightarrow> fm_lookup rows' r \<noteq> None"
  shows "iterators_ok rows' c"
  by (rule iterators_okI [OF iterators_okD(1-4) [OF assms(1)] _ iterators_okD(6) [OF assms(1)]])
    (use iterators_okD(5) [OF assms(1)] assms(2) in blast)

lemma cache_add_ok:
  assumes "iterators_ok rows c" and "cache_add r c = (i, c')" and "fm_lookup rows r \<noteq> None" and "fm_lookup (table_cache c) (fst r) \<noteq> None"
  shows "iterators_ok rows c'" and "cache_get i c' = Inr r" and "table_cache c' = table_cache c"
    and "end_iterator_to_table c' = end_iterator_to_table c" and "cache_get j c = Inr q \<Longrightarrow> cache_get j c' = Inr q"
proof -
  note D = iterators_okD [OF assms(1)]
  have "iterators_ok rows c' \<and> cache_get i c' = Inr r \<and> table_cache c' = table_cache c \<and> end_iterator_to_table c' = end_iterator_to_table c \<and>
      (\<forall>j q. cache_get j c = Inr q \<longrightarrow> cache_get j c' = Inr q)"
  proof (cases "fm_lookup (object_to_iterator c) r")
    case (Some k)
    then have "cache_get k c = Inr r" using D(4) by (simp add: cache_get_Inr)
    then show ?thesis using assms(1,2) Some by (auto simp: cache_add_def)
  next
    case None
    let ?n = "length (iterator_to_object c)"
    have c': "c' = c\<lparr>iterator_to_object := iterator_to_object c @ [Some r], object_to_iterator := fm_update r (int ?n) (object_to_iterator c)\<rparr>"
      and i: "i = int ?n"
      using assms(2) None by (auto simp: cache_add_def Let_def)
    have new: "Some r \<notin> set (iterator_to_object c)"
    proof
      assume "Some r \<in> set (iterator_to_object c)"
      then obtain k where "k < ?n" "iterator_to_object c ! k = Some r" by (auto simp: in_set_conv_nth)
      then have "fm_lookup (object_to_iterator c) r = Some (int k)" using D(4) by simp
      with None show False by simp
    qed
    have o2i: "fm_lookup (object_to_iterator c') q = Some k \<longleftrightarrow>
        0 \<le> k \<and> nat k < length (iterator_to_object c') \<and> iterator_to_object c' ! nat k = Some q" for q k
    proof (cases "q = r")
      case True
      have "nat k = ?n" if "nat k < Suc ?n" "(iterator_to_object c @ [Some r]) ! nat k = Some r"
        using that new nth_mem [of "nat k" "iterator_to_object c"] by (cases "nat k = ?n") (auto simp: nth_append)
      then show ?thesis using True D(1) by (auto simp: c' fm_laws)
    next
      case False
      then have "fm_lookup (object_to_iterator c') q = fm_lookup (object_to_iterator c) q" using D(1) by (simp add: c' fm_laws)
      then show ?thesis using D(4) [of q k] False by (auto simp: c' nth_append less_Suc_eq split: if_splits)
    qed
    have "iterators_ok rows c'"
    proof (rule iterators_okI [OF _ _ _ o2i])
      show "fm_lookup rows q \<noteq> None \<and> fm_lookup (table_cache c') (fst q) \<noteq> None" if "Some q \<in> set (iterator_to_object c')" for q
        using that D(5) [of q] assms(3,4) by (cases "q = r") (simp_all add: c')
    qed (use D(1-3,6) in \<open>simp_all add: c' fm_laws\<close>)
    moreover have "cache_get i c' = Inr r" by (simp add: cache_get_Inr c' i)
    ultimately show ?thesis by (auto simp: cache_get_Inr c' nth_append)
  qed
  then show "iterators_ok rows c'" "cache_get i c' = Inr r" "table_cache c' = table_cache c"
    "end_iterator_to_table c' = end_iterator_to_table c" "cache_get j c = Inr q \<Longrightarrow> cache_get j c' = Inr q" by blast+
qed

lemma cache_remove_ok:
  assumes "iterators_ok rows c" and "cache_get i c = Inr r" and "cache_remove i c = Inr c'" and "fm_ok rows"
  shows "iterators_ok (fm_erase r rows) c'" and "table_cache c' = table_cache c" and "end_iterator_to_table c' = end_iterator_to_table c"
    and "cache_get i c' = Inl table_operation_not_permitted" and "j \<noteq> i \<Longrightarrow> cache_get j c = Inr q \<Longrightarrow> cache_get j c' = Inr q"
proof -
  note D = iterators_okD [OF assms(1)]
  have i: "0 \<le> i" "nat i < length (iterator_to_object c)" "iterator_to_object c ! nat i = Some r" using assms(2) by (simp_all add: cache_get_Inr)
  then have c': "c' = c\<lparr>iterator_to_object := (iterator_to_object c)[nat i := None], object_to_iterator := fm_erase r (object_to_iterator c)\<rparr>"
    using assms(3) by (auto simp: cache_remove_def EOS_ASSERT_Inr_iff)
  have only: "k = nat i" if "k < length (iterator_to_object c)" "iterator_to_object c ! k = Some r" for k
    using that i D(4) [of r "int k"] D(4) [of r i] by simp
  have rows: "fm_lookup (fm_erase r rows) q \<noteq> None \<longleftrightarrow> q \<noteq> r \<and> fm_lookup rows q \<noteq> None" for q using assms(4) by (simp add: fm_laws)
  have o2i: "fm_lookup (object_to_iterator c') q = Some k \<longleftrightarrow>
      0 \<le> k \<and> nat k < length (iterator_to_object c') \<and> iterator_to_object c' ! nat k = Some q" for q k
  proof (cases "q = r")
    case True
    then show ?thesis using only [of "nat k"] D(1) i(2) by (auto simp: c' fm_laws nth_list_update)
  next
    case False
    then have "fm_lookup (object_to_iterator c') q = fm_lookup (object_to_iterator c) q" using D(1) by (simp add: c' fm_laws)
    then show ?thesis using D(4) [of q k] False i(2,3) by (auto simp: c' nth_list_update)
  qed
  show "iterators_ok (fm_erase r rows) c'"
  proof (rule iterators_okI [OF _ _ _ o2i])
    show "fm_lookup (fm_erase r rows) q \<noteq> None \<and> fm_lookup (table_cache c') (fst q) \<noteq> None" if q: "Some q \<in> set (iterator_to_object c')" for q
    proof -
      obtain k where k: "k < length (iterator_to_object c)" "k \<noteq> nat i" "iterator_to_object c ! k = Some q"
        using q i(2) by (auto simp: c' in_set_conv_nth nth_list_update split: if_splits)
      then have "q \<noteq> r" using only by blast
      then show ?thesis using D(5) [of q] k nth_mem [of k "iterator_to_object c"] rows by (simp add: c')
    qed
  qed (use D in \<open>simp_all add: c' fm_laws\<close>)
  show "table_cache c' = table_cache c" "end_iterator_to_table c' = end_iterator_to_table c" by (simp_all add: c')
  show "cache_get i c' = Inl table_operation_not_permitted" using i by (simp add: cache_get_def c' EOS_ASSERT_def)
  show "j \<noteq> i \<Longrightarrow> cache_get j c = Inr q \<Longrightarrow> cache_get j c' = Inr q" using i by (auto simp: cache_get_Inr c' nth_list_update)
qed

lemma remember_row_ok:
  assumes "iterators_ok rows c" and "fm_lookup rows r \<noteq> None"
  shows "iterators_ok rows (snd (remember_row r c))" and "cache_get (fst (remember_row r c)) (snd (remember_row r c)) = Inr r"
    and "cache_get j c = Inr q \<Longrightarrow> cache_get j (snd (remember_row r c)) = Inr q"
proof -
  obtain ei c1 where tab: "cache_table (fst r) c = (ei, c1)" by (cases "cache_table (fst r) c")
  obtain i c2 where add: "cache_add r c1 = (i, c2)" by (cases "cache_add r c1")
  have eq: "remember_row r c = (i, c2)" by (simp add: remember_row_def tab add)
  note tc = cache_table_ok [OF assms(1) tab]
  have "fm_lookup (table_cache c1) (fst r) \<noteq> None" using tc(2) by simp
  note ad = cache_add_ok [OF tc(1) add assms(2) this]
  show "iterators_ok rows (snd (remember_row r c))" "cache_get (fst (remember_row r c)) (snd (remember_row r c)) = Inr r"
    using ad(1,2) by (simp_all add: eq)
  show "cache_get j (snd (remember_row r c)) = Inr q" if "cache_get j c = Inr q"
    using ad(5) [of j q] that tc(3) by (simp add: eq cache_get_Inr)
qed

subsection \<open>Tables count their rows\<close>

definition rows_in :: "table_id \<Rightarrow> (row_id, 'o) flat_map \<Rightarrow> int" where
  "rows_in tid rows = fm_sum (\<lambda>r obj. if fst r = tid then 1 else 0) rows"

definition same_names :: "table_id_object \<Rightarrow> table_id_object \<Rightarrow> bool" where
  "same_names t u \<longleftrightarrow> ti_code t = ti_code u \<and> ti_scope t = ti_scope u \<and> ti_table t = ti_table u"

text \<open>
  The tables for given numbers of rows: every table counts its rows and only the tables in a given
  set may have none, every row has a table, and the names and the identifiers of the tables that
  were ever created are different.
\<close>

definition counts_ok :: "table_env \<Rightarrow> table_id set \<Rightarrow> nat \<Rightarrow> (table_id, table_id_object) flat_map \<Rightarrow> (table_id \<Rightarrow> int) \<Rightarrow> bool" where
  "counts_ok env X n T R \<longleftrightarrow> fm_ok T \<and> (\<forall>i. 0 \<le> R i \<and> R i < 2 ^ 32) \<and> (\<forall>i. 0 < R i \<longrightarrow> fm_lookup T i \<noteq> None) \<and>
     (\<forall>i t. fm_lookup T i = Some t \<longrightarrow> uint (ti_count t) = R i \<and> (i \<notin> X \<longrightarrow> 0 < R i) \<and> (\<exists>m < n. i = table_id_at env m)) \<and>
     (\<forall>i j t u. fm_lookup T i = Some t \<and> fm_lookup T j = Some u \<and> same_names t u \<longrightarrow> i = j)"

lemma counts_okD:
  assumes "counts_ok env X n T R"
  shows "fm_ok T" and "0 \<le> R i" and "R i < 2 ^ 32" and "0 < R i \<Longrightarrow> fm_lookup T i \<noteq> None"
    and "fm_lookup T i = Some t \<Longrightarrow> uint (ti_count t) = R i" and "fm_lookup T i = Some t \<Longrightarrow> i \<notin> X \<Longrightarrow> 0 < R i"
    and "fm_lookup T i = Some t \<Longrightarrow> \<exists>m < n. i = table_id_at env m"
    and "fm_lookup T i = Some t \<Longrightarrow> fm_lookup T j = Some u \<Longrightarrow> same_names t u \<Longrightarrow> i = j"
  using assms unfolding counts_ok_def by blast+

lemma counts_okI:
  assumes "fm_ok T" and "\<And>i. 0 \<le> R i \<and> R i < 2 ^ 32" and "\<And>i. 0 < R i \<Longrightarrow> fm_lookup T i \<noteq> None"
    and "\<And>i t. fm_lookup T i = Some t \<Longrightarrow> uint (ti_count t) = R i \<and> (i \<notin> X \<longrightarrow> 0 < R i) \<and> (\<exists>m < n. i = table_id_at env m)"
    and "\<And>i j t u. fm_lookup T i = Some t \<Longrightarrow> fm_lookup T j = Some u \<Longrightarrow> same_names t u \<Longrightarrow> i = j"
  shows "counts_ok env X n T R"
  unfolding counts_ok_def using assms by blast

lemma find_entry: "find p xs = Some x \<Longrightarrow> x \<in> set xs \<and> p x"
  by (auto simp: find_Some_iff)

lemma find_table_iff:
  assumes "counts_ok env X n (table_index db) R"
  shows "find_table code scope table db = Some (i, t) \<longleftrightarrow>
    fm_lookup (table_index db) i = Some t \<and> ti_code t = code \<and> ti_scope t = scope \<and> ti_table t = table"
proof
  assume "find_table code scope table db = Some (i, t)"
  then show "fm_lookup (table_index db) i = Some t \<and> ti_code t = code \<and> ti_scope t = scope \<and> ti_table t = table"
    using fm_lookup_in_set [OF counts_okD(1) [OF assms]] by (auto simp: find_table_def dest: find_entry)
next
  assume t: "fm_lookup (table_index db) i = Some t \<and> ti_code t = code \<and> ti_scope t = scope \<and> ti_table t = table"
  then have "(i, t) \<in> set (table_index db)" using fm_lookup_in_set [OF counts_okD(1) [OF assms]] by blast
  then have "find_table code scope table db \<noteq> None" using t by (auto simp: find_table_def find_None_iff)
  then obtain j u where u: "find_table code scope table db = Some (j, u)" by auto
  then have ju: "fm_lookup (table_index db) j = Some u" "ti_code u = code" "ti_scope u = scope" "ti_table u = table"
    using fm_lookup_in_set [OF counts_okD(1) [OF assms]] by (auto simp: find_table_def dest: find_entry)
  then have "i = j" using counts_okD(8) [OF assms, of i t j u] t by (simp add: same_names_def)
  then show "find_table code scope table db = Some (i, t)" using u ju(1) t by simp
qed

lemma counts_new_table:
  assumes "counts_ok env {} n T R" and "inj (table_id_at env)" and "\<And>i u. fm_lookup T i = Some u \<Longrightarrow> \<not> same_names u t" and "ti_count t = 0"
  shows "counts_ok env {table_id_at env n} (n + 1) (fm_update (table_id_at env n) t T) R"
    and "fm_lookup T (table_id_at env n) = None"
proof -
  let ?i = "table_id_at env n"
  note D = counts_okD [OF assms(1)]
  show new: "fm_lookup T ?i = None"
  proof (rule ccontr)
    assume "fm_lookup T ?i \<noteq> None"
    then obtain m where "m < n" "?i = table_id_at env m" using D(7) by blast
    then show False using injD [OF assms(2)] by blast
  qed
  then have R: "R ?i = 0" using D(2) [of ?i] D(4) [of ?i] by (metis order_le_less)
  have lk: "fm_lookup (fm_update ?i t T) j = (if j = ?i then Some t else fm_lookup T j)" for j using D(1) by (simp add: fm_laws)
  show "counts_ok env {?i} (n + 1) (fm_update ?i t T) R"
  proof (rule counts_okI)
    show "uint (ti_count u) = R j \<and> (j \<notin> {?i} \<longrightarrow> 0 < R j) \<and> (\<exists>m < n + 1. j = table_id_at env m)" if "fm_lookup (fm_update ?i t T) j = Some u" for j u
    proof (cases "j = ?i")
      case True
      then show ?thesis using that R assms(4) by (auto simp: lk)
    next
      case False
      then have u: "fm_lookup T j = Some u" using that by (simp add: lk)
      show ?thesis using D(5) [OF u] D(6) [OF u] D(7) [OF u] by (auto intro: less_SucI)
    qed
    show "j = k" if "fm_lookup (fm_update ?i t T) j = Some u" "fm_lookup (fm_update ?i t T) k = Some v" "same_names u v" for j k u v
    proof -
      have sym: "same_names v u" using that(3) by (simp add: same_names_def)
      consider "j = ?i" "k = ?i" | "j = ?i" "k \<noteq> ?i" | "j \<noteq> ?i" "k = ?i" | "j \<noteq> ?i" "k \<noteq> ?i" by blast
      then show ?thesis
      proof cases
        case 2
        then show ?thesis using that(1,2) [unfolded lk] sym assms(3) [of k v] by simp
      next
        case 3
        then show ?thesis using that(1,2) [unfolded lk] that(3) assms(3) [of j u] by simp
      next
        case 4
        then show ?thesis using that(1,2) [unfolded lk] that(3) D(8) [of j u k v] by simp
      qed simp
    qed
    show "fm_lookup (fm_update ?i t T) j \<noteq> None" if "0 < R j" for j using D(4) [OF that] by (simp add: lk)
  qed (use D(1-3) in \<open>simp_all add: fm_laws\<close>)
qed

lemma counts_up:
  assumes "counts_ok env {tid} n T R" and "fm_lookup T tid = Some t" and "R tid + 1 < 2 ^ 32"
  shows "counts_ok env {} n (fm_update tid (t\<lparr>ti_count := ti_count t + 1\<rparr>) T) (R(tid := R tid + 1))"
proof -
  note D = counts_okD [OF assms(1)]
  let ?t = "t\<lparr>ti_count := ti_count t + 1\<rparr>"
  have lk: "fm_lookup (fm_update tid ?t T) j = (if j = tid then Some ?t else fm_lookup T j)" for j using D(1) by (simp add: fm_laws)
  have old: "\<exists>w. fm_lookup T j = Some w \<and> same_names w u \<and> (j = tid \<longrightarrow> u = ?t) \<and> (j \<noteq> tid \<longrightarrow> u = w)"
    if "fm_lookup (fm_update tid ?t T) j = Some u" for j u
    using that [unfolded lk] assms(2) by (auto simp: same_names_def split: if_splits)
  have cnt: "uint (ti_count t + 1) = R tid + 1" using D(5) [OF assms(2)] assms(3) by (simp add: uint_plus_if_size word_size)
  show ?thesis
  proof (rule counts_okI)
    show "0 \<le> (R(tid := R tid + 1)) i \<and> (R(tid := R tid + 1)) i < 2 ^ 32" for i
      using D(2) [of i] D(3) [of i] assms(3) by auto
    show "fm_lookup (fm_update tid ?t T) i \<noteq> None" if "0 < (R(tid := R tid + 1)) i" for i
      using that D(4) [of i] by (cases "i = tid") (simp_all add: lk)
    show "uint (ti_count u) = (R(tid := R tid + 1)) j \<and> (j \<notin> {} \<longrightarrow> 0 < (R(tid := R tid + 1)) j) \<and> (\<exists>m < n. j = table_id_at env m)"
      if u: "fm_lookup (fm_update tid ?t T) j = Some u" for j u
    proof -
      obtain w where w: "fm_lookup T j = Some w" "j = tid \<Longrightarrow> u = ?t" "j \<noteq> tid \<Longrightarrow> u = w" using old [OF u] by blast
      have "uint (ti_count u) = (R(tid := R tid + 1)) j" using w D(5) [OF w(1)] cnt by (cases "j = tid") simp_all
      moreover have "0 < (R(tid := R tid + 1)) j" using D(6) [OF w(1)] D(2) [of j] by (cases "j = tid") simp_all
      ultimately show ?thesis using D(7) [OF w(1)] by blast
    qed
    show "j = k" if u: "fm_lookup (fm_update tid ?t T) j = Some u" and v: "fm_lookup (fm_update tid ?t T) k = Some v" and "same_names u v" for j k u v
    proof -
      obtain w x where w: "fm_lookup T j = Some w" "same_names w u" and x: "fm_lookup T k = Some x" "same_names x v"
        using old [OF u] old [OF v] by blast
      then show ?thesis using D(8) [OF w(1) x(1)] that(3) by (simp add: same_names_def)
    qed
  qed (use D(1) in \<open>simp add: fm_laws\<close>)
qed

lemma counts_down:
  assumes "counts_ok env {} n T R" and "fm_lookup T tid = Some t"
  shows "counts_ok env {} n (if ti_count t - 1 = 0 then fm_erase tid T else fm_update tid (t\<lparr>ti_count := ti_count t - 1\<rparr>) T)
    (R(tid := R tid - 1))"
proof -
  note D = counts_okD [OF assms(1)]
  let ?t = "t\<lparr>ti_count := ti_count t - 1\<rparr>"
  let ?T = "if ti_count t - 1 = 0 then fm_erase tid T else fm_update tid ?t T"
  have pos: "0 < R tid" using D(6) [OF assms(2)] by simp
  have cnt: "uint (ti_count t - 1) = R tid - 1" using D(5) [OF assms(2)] pos by (simp add: uint_sub_if' word_size)
  then have zero: "ti_count t - 1 = 0 \<longleftrightarrow> R tid = 1" by (metis diff_eq_eq add_0 uint_0_iff)
  have lk: "fm_lookup ?T j = (if j = tid then (if R tid = 1 then None else Some ?t) else fm_lookup T j)" for j
    using D(1) zero by (simp add: fm_laws)
  have old: "\<exists>w. fm_lookup T j = Some w \<and> same_names w u \<and> (j = tid \<longrightarrow> u = ?t \<and> R tid \<noteq> 1) \<and> (j \<noteq> tid \<longrightarrow> u = w)"
    if "fm_lookup ?T j = Some u" for j u
    using that [unfolded lk] assms(2) by (auto simp: same_names_def split: if_splits)
  show ?thesis
  proof (rule counts_okI)
    show "0 \<le> (R(tid := R tid - 1)) i \<and> (R(tid := R tid - 1)) i < 2 ^ 32" for i using D(2) [of i] D(3) [of i] pos by auto
    show "fm_lookup ?T i \<noteq> None" if "0 < (R(tid := R tid - 1)) i" for i
      using that D(4) [of i] unfolding lk by (cases "i = tid") simp_all
    show "uint (ti_count u) = (R(tid := R tid - 1)) j \<and> (j \<notin> {} \<longrightarrow> 0 < (R(tid := R tid - 1)) j) \<and> (\<exists>m < n. j = table_id_at env m)"
      if u: "fm_lookup ?T j = Some u" for j u
    proof -
      obtain w where w: "fm_lookup T j = Some w" "j = tid \<Longrightarrow> u = ?t \<and> R tid \<noteq> 1" "j \<noteq> tid \<Longrightarrow> u = w" using old [OF u] by blast
      have "uint (ti_count u) = (R(tid := R tid - 1)) j" using w D(5) [OF w(1)] cnt by (cases "j = tid") simp_all
      moreover have "0 < (R(tid := R tid - 1)) j" using D(6) [OF w(1)] w(2) pos by (cases "j = tid") auto
      ultimately show ?thesis using D(7) [OF w(1)] by blast
    qed
    show "j = k" if u: "fm_lookup ?T j = Some u" and v: "fm_lookup ?T k = Some v" and "same_names u v" for j k u v
    proof -
      obtain w x where w: "fm_lookup T j = Some w" "same_names w u" and x: "fm_lookup T k = Some x" "same_names x v"
        using old [OF u] old [OF v] by blast
      then show ?thesis using D(8) [OF w(1) x(1)] that(3) by (simp add: same_names_def)
    qed
  qed (use D(1) in \<open>simp add: fm_laws\<close>)
qed

lemma rows_in_update:
  "fm_ok rows \<Longrightarrow> rows_in i (fm_update r obj rows) = rows_in i rows + (if fm_lookup rows r = None \<and> i = fst r then 1 else 0)"
  by (auto simp: rows_in_def fm_sum_update split: option.splits)

lemma rows_in_erase:
  "fm_ok rows \<Longrightarrow> rows_in i (fm_erase r rows) = rows_in i rows - (if fm_lookup rows r \<noteq> None \<and> i = fst r then 1 else 0)"
  by (auto simp: rows_in_def fm_sum_erase split: option.splits)

lemma rows_in_entry: "fm_ok rows \<Longrightarrow> fm_lookup rows r \<noteq> None \<Longrightarrow> 0 < rows_in (fst r) rows"
  using fm_sum_entry [of rows r _ "\<lambda>q obj. if fst q = fst r then 1 else 0"] by (fastforce simp: rows_in_def)

lemma rows_in_nonneg: "0 \<le> rows_in i rows"
  unfolding rows_in_def by (rule fm_sum_nonneg) simp

definition rows_total :: "('k, 'a) contract_db_scheme \<Rightarrow> table_id \<Rightarrow> int" where
  "rows_total db i = rows_in i (key_values db) + rows_in i (index_rows db)"

definition tables_ok :: "table_env \<Rightarrow> ('k, 'a) contract_db_scheme \<Rightarrow> bool" where
  "tables_ok env db \<longleftrightarrow> fm_ok (key_values db) \<and> fm_ok (index_rows db) \<and> counts_ok env {} (tables_created db) (table_index db) (rows_total db)"

lemma tables_okD:
  assumes "tables_ok env db"
  shows "fm_ok (key_values db)" and "fm_ok (index_rows db)" and "counts_ok env {} (tables_created db) (table_index db) (rows_total db)"
    and "fm_ok (table_index db)"
  using assms counts_okD(1) unfolding tables_ok_def by blast+

lemma row_has_table:
  assumes "tables_ok env db" and "fm_lookup (key_values db) r \<noteq> None \<or> fm_lookup (index_rows db) r \<noteq> None"
  shows "fm_lookup (table_index db) (fst r) \<noteq> None"
proof -
  have "0 < rows_total db (fst r)"
    using assms(2) rows_in_entry [OF tables_okD(1) [OF assms(1)], of r] rows_in_entry [OF tables_okD(2) [OF assms(1)], of r]
      rows_in_nonneg [of "fst r" "key_values db"] rows_in_nonneg [of "fst r" "index_rows db"]
    by (auto simp: rows_total_def)
  then show ?thesis by (rule counts_okD(4) [OF tables_okD(3) [OF assms(1)]])
qed

subsection \<open>Memory\<close>

definition kv_size :: "key_value_object \<Rightarrow> u64" where
  "kv_size obj = of_nat (length (kv_value obj)) + billable_key_value_object"

definition tables_ram :: "(table_id, table_id_object) flat_map \<Rightarrow> account_name \<Rightarrow> u64" where
  "tables_ram T a = fm_sum (\<lambda>i t. if ti_payer t = a then billable_table_id_object else 0) T"

definition rows_ram :: "(row_id, key_value_object) flat_map \<Rightarrow> account_name \<Rightarrow> u64" where
  "rows_ram rows a = fm_sum (\<lambda>r obj. if kv_payer obj = a then kv_size obj else 0) rows"

definition index_ram :: "u64 \<Rightarrow> (row_id, 'k index_object) flat_map \<Rightarrow> account_name \<Rightarrow> u64" where
  "index_ram ks rows a = fm_sum (\<lambda>r obj. if ix_payer obj = a then billable_index_object ks else 0) rows"

text \<open>The memory of the tables and rows an account pays for.\<close>

definition contract_ram :: "table_env \<Rightarrow> ('k, 'a) contract_db_scheme \<Rightarrow> account_name \<Rightarrow> u64" where
  "contract_ram env db a = tables_ram (table_index db) a + rows_ram (key_values db) a + index_ram (index_key_size env) (index_rows db) a"

definition table_balance :: "table_env \<Rightarrow> ('k, 'a) contract_db_scheme \<Rightarrow> account_name \<Rightarrow> u64" where
  "table_balance env db a = rl_ram (resources db) a - contract_ram env db a"

lemma update_db_usage_effect:
  assumes "update_db_usage ctl p d (ac, tc, db) = Inr (ac', tc', db')"
  obtains us ds rl where "ac' = ac\<lparr>used_authorizations := us, account_ram_deltas := ds\<rparr>" and "db' = db\<lparr>resources := rl\<rparr>"
    and "add_pending_ram_usage p d (resources db) = Inr rl"
proof -
  obtain ac1 where ac1: "ac1 = ac \<or> (\<exists>us. ac1 = ac\<lparr>used_authorizations := us\<rparr>)" and ram: "add_ram_usage p d (ac1, tc, db) = Inr (ac', tc', db')"
    using assms by (auto simp: update_db_usage_def require_authorization_def mark_authorization_def exc_simps split: if_splits option.splits)
  have "ac = ac\<lparr>used_authorizations := used_authorizations ac\<rparr>" by simp
  then obtain us where us: "ac1 = ac\<lparr>used_authorizations := us\<rparr>" using ac1 by blast
  obtain rl where rl: "db' = db\<lparr>resources := rl\<rparr>" "add_pending_ram_usage p d (resources db) = Inr rl" by (rule add_ram_usage_effect [OF ram])
  obtain ds where "ac' = ac1\<lparr>account_ram_deltas := ds\<rparr>"
    using ram by (auto simp: add_ram_usage_def note_ram_delta_def exc_simps split: option.splits if_splits)
  then show thesis using that us rl by simp
qed

lemma counts_weaken: "counts_ok env {} n T R \<Longrightarrow> counts_ok env X n T R"
  unfolding counts_ok_def by blast

lemma table_ready:
  assumes "find_or_create_table env code scope table payer (ac, tc, db) = Inr (tid, ac1, tc1, db1)" and "tables_ok env db"
    and "fm_ok (usage_table (resources db))" and "inj (table_id_at env)"
  obtains us ds rl n T t where "ac1 = ac\<lparr>used_authorizations := us, account_ram_deltas := ds\<rparr>"
    and "db1 = db\<lparr>resources := rl, tables_created := n, table_index := T\<rparr>" and "counts_ok env {tid} n T (rows_total db)"
    and "fm_lookup T tid = Some t" and "ti_code t = code" and "ti_scope t = scope" and "ti_table t = table"
    and "fm_ok (usage_table rl)" and "\<And>a. rl_ram rl a - tables_ram T a = rl_ram (resources db) a - tables_ram (table_index db) a"
    and "\<And>i. i \<noteq> tid \<Longrightarrow> fm_lookup T i = fm_lookup (table_index db) i"
    and "fm_lookup (table_index db) tid = None \<or> fm_lookup (table_index db) tid = Some t"
proof (cases "find_table code scope table db")
  case (Some it)
  obtain i t where it: "it = (i, t)" by (cases it)
  have row: "fm_lookup (table_index db) i = Some t" "ti_code t = code" "ti_scope t = scope" "ti_table t = table"
    using Some find_table_iff [OF tables_okD(3) [OF assms(2)]] by (auto simp: it)
  have eq: "tid = i" "ac1 = ac" "db1 = db" using assms(1) Some by (simp_all add: find_or_create_table_def it)
  show thesis
    by (rule that [where us = "used_authorizations ac" and ds = "account_ram_deltas ac" and rl = "resources db" and n = "tables_created db"
      and T = "table_index db" and t = t])
      (use row eq assms(3) counts_weaken [OF tables_okD(3) [OF assms(2)]] in simp_all)
next
  case None
  let ?i = "table_id_at env (tables_created db)"
  let ?t = "\<lparr>ti_code = code, ti_scope = scope, ti_table = table, ti_payer = payer, ti_count = 0\<rparr>"
  obtain ac2 tc2 db2 where use: "update_db_usage (te_ctl env) payer billable_table_id_object (ac, tc, db) = Inr (ac2, tc2, db2)"
    and eq: "tid = table_id_at env (tables_created db2)" "ac1 = ac2"
      "db1 = db2\<lparr>tables_created := tables_created db2 + 1, table_index := fm_update (table_id_at env (tables_created db2)) ?t (table_index db2)\<rparr>"
    using assms(1) None by (auto simp: find_or_create_table_def Let_def exc_simps)
  obtain us ds rl where us: "ac2 = ac\<lparr>used_authorizations := us, account_ram_deltas := ds\<rparr>" and db2: "db2 = db\<lparr>resources := rl\<rparr>"
    and rl: "add_pending_ram_usage payer billable_table_id_object (resources db) = Inr rl" by (rule update_db_usage_effect [OF use])
  have "\<not> same_names u ?t" if "fm_lookup (table_index db) i = Some u" for i u
    using that None find_table_iff [OF tables_okD(3) [OF assms(2)], of code scope table i u] by (auto simp: same_names_def)
  note new = counts_new_table [OF tables_okD(3) [OF assms(2)] assms(4) this, simplified]
  note T = tables_okD(4) [OF assms(2)] and fx = add_pending_ram_effect [OF rl assms(3)]
  show thesis
  proof (rule that [where us = us and ds = ds and rl = rl and n = "tables_created db + 1" and T = "fm_update ?i ?t (table_index db)" and t = ?t])
    show "rl_ram rl a - tables_ram (fm_update ?i ?t (table_index db)) a = rl_ram (resources db) a - tables_ram (table_index db) a" for a
      using fx(3) [of a] new(2) T by (simp add: tables_ram_def fm_sum_update)
  qed (use new fx(1) eq us db2 T in \<open>simp_all add: fm_laws\<close>)
qed

subsection \<open>Operations\<close>

definition table_inv :: "table_env \<Rightarrow> ('k, 'b, 'a) table_state \<Rightarrow> bool" where
  "table_inv env st \<longleftrightarrow> tables_ok env (snd (snd st)) \<and> iterators_ok (key_values (snd (snd st))) (keyval_cache (fst st)) \<and>
     iterators_ok (index_rows (snd (snd st))) (index_cache (fst st)) \<and> fm_ok (usage_table (resources (snd (snd st))))"

definition table_frame :: "table_env \<Rightarrow> ('k, 'b, 'a) table_state \<Rightarrow> ('k, 'b, 'a) table_state \<Rightarrow> bool" where
  "table_frame env st st' \<longleftrightarrow> (table_inv env st \<longrightarrow> table_inv env st' \<and>
     table_balance env (snd (snd st')) = table_balance env (snd (snd st)))"

interpretation tables: state_frame "table_frame env" for env
  by unfold_locales (simp_all add: table_frame_def)

lemma table_invD:
  assumes "table_inv env (ac, tc, db)"
  shows "tables_ok env db" and "iterators_ok (key_values db) (keyval_cache ac)" and "iterators_ok (index_rows db) (index_cache ac)"
    and "fm_ok (usage_table (resources db))"
  using assms by (simp_all add: table_inv_def)

text \<open>A new row of either kind: its table is there and counts it, and the payer is charged for both.\<close>

lemma row_counted:
  assumes "find_or_create_table env code scope table payer (ac, tc, db) = Inr (tid, ac1, tc1, db1)"
    and "count_up tid (db1\<lparr>key_values := kv, index_rows := ix\<rparr>) = Inr db2"
    and "update_db_usage (te_ctl env) payer d (ac1, tc1, db2) = Inr (ac2, tc2, db3)"
    and "tables_ok env db" and "fm_ok (usage_table (resources db))" and "inj (table_id_at env)" and "\<forall>i. rows_total db i + 1 < 2 ^ 32"
    and "fm_ok kv" and "fm_ok ix" and "\<And>j. rows_in j kv + rows_in j ix = rows_total db j + (if j = tid then 1 else 0)"
  obtains us ds rl n T t where "ac2 = ac\<lparr>used_authorizations := us, account_ram_deltas := ds\<rparr>"
    and "db3 = db\<lparr>resources := rl, tables_created := n, table_index := T, key_values := kv, index_rows := ix\<rparr>"
    and "tables_ok env db3" and "fm_ok (usage_table rl)"
    and "fm_lookup T tid = Some t" and "ti_code t = code" and "ti_scope t = scope" and "ti_table t = table"
    and "\<And>i. i \<noteq> tid \<Longrightarrow> fm_lookup T i = fm_lookup (table_index db) i"
    and "\<And>u. fm_lookup (table_index db) tid = Some u \<Longrightarrow> same_names u t"
    and "\<And>a. rl_ram rl a - tables_ram T a = rl_ram (resources db) a - tables_ram (table_index db) a + (if a = payer then d else 0)"
proof -
  obtain us ds rl n T t where ac1: "ac1 = ac\<lparr>used_authorizations := us, account_ram_deltas := ds\<rparr>"
    and db1: "db1 = db\<lparr>resources := rl, tables_created := n, table_index := T\<rparr>" and cnt: "counts_ok env {tid} n T (rows_total db)"
    and t: "fm_lookup T tid = Some t" "ti_code t = code" "ti_scope t = scope" "ti_table t = table" and okrl: "fm_ok (usage_table rl)"
    and bal: "\<And>a. rl_ram rl a - tables_ram T a = rl_ram (resources db) a - tables_ram (table_index db) a"
    and others: "\<And>i. i \<noteq> tid \<Longrightarrow> fm_lookup T i = fm_lookup (table_index db) i"
    and same: "fm_lookup (table_index db) tid = None \<or> fm_lookup (table_index db) tid = Some t"
    by (rule table_ready [OF assms(1,4-6)]) (rule that)
  let ?t = "t\<lparr>ti_count := ti_count t + 1\<rparr>"
  let ?T = "fm_update tid ?t T"
  have db2: "db2 = db\<lparr>resources := rl, tables_created := n, table_index := ?T, key_values := kv, index_rows := ix\<rparr>"
    using assms(2) t(1) by (auto simp: count_up_def deref_table_def exc_simps db1)
  obtain us2 ds2 rl2 where ac2: "ac2 = ac1\<lparr>used_authorizations := us2, account_ram_deltas := ds2\<rparr>" and db3: "db3 = db2\<lparr>resources := rl2\<rparr>"
    and rl2: "add_pending_ram_usage payer d (resources db2) = Inr rl2" by (rule update_db_usage_effect [OF assms(3)])
  note okT = counts_okD(1) [OF cnt] and fx = add_pending_ram_effect [OF rl2, unfolded db2, simplified, OF okrl]
  have "rows_total db3 j = rows_in j kv + rows_in j ix" for j by (simp add: rows_total_def db3 db2)
  then have "(rows_total db)(tid := rows_total db tid + 1) = rows_total db3" using assms(10) by (intro ext) simp
  then have "counts_ok env {} n ?T (rows_total db3)" using counts_up [OF cnt t(1)] assms(7) by simp
  then have ok: "tables_ok env db3" using assms(8,9) by (simp add: tables_ok_def db3 db2)
  have ram: "tables_ram ?T a = tables_ram T a" for a using okT t by (simp add: tables_ram_def fm_sum_update)
  show thesis
  proof (rule that [where us = us2 and ds = ds2 and rl = rl2 and n = n and T = ?T and t = ?t])
    show "rl_ram rl2 a - tables_ram ?T a = rl_ram (resources db) a - tables_ram (table_index db) a + (if a = payer then d else 0)" for a
      using fx(3) [of a] bal [of a] ram [of a] by (simp add: algebra_simps)
  qed (use ok okT t others same fx(1) in \<open>auto simp: fm_laws same_names_def ac2 ac1 db3 db2\<close>)
qed

lemma store_shape:
  assumes "db_store_i64_code env code scope table payer pk buffer (ac, tc, db) = Inr (i, ac', tc', db')" and "table_inv env (ac, tc, db)"
    and "inj (table_id_at env)" and "\<forall>i. rows_total db i + 1 < 2 ^ 32"
  obtains tid t us ds rl n T c where
    "db' = db\<lparr>resources := rl, tables_created := n, table_index := T,
       key_values := fm_update (tid, pk) \<lparr>kv_payer = payer, kv_value = buffer\<rparr> (key_values db)\<rparr>"
    and "ac' = ac\<lparr>used_authorizations := us, account_ram_deltas := ds, keyval_cache := c\<rparr>"
    and "table_inv env (ac', tc', db')" and "table_balance env db' = table_balance env db"
    and "fm_lookup (key_values db) (tid, pk) = None" and "fm_lookup T tid = Some t"
    and "ti_code t = code" and "ti_scope t = scope" and "ti_table t = table"
    and "\<And>j. j \<noteq> tid \<Longrightarrow> fm_lookup T j = fm_lookup (table_index db) j"
    and "\<And>u. fm_lookup (table_index db) tid = Some u \<Longrightarrow> same_names u t"
    and "cache_get i c = Inr (tid, pk)" and "\<And>j r. cache_get j (keyval_cache ac) = Inr r \<Longrightarrow> cache_get j c = Inr r"
proof -
  let ?obj = "\<lparr>kv_payer = payer, kv_value = buffer\<rparr>"
  note I = table_invD [OF assms(2)]
  note kv = tables_okD(1,2) [OF I(1)]
  obtain tid ac1 tc1 db1 db2 ac2 tc2 where ready: "find_or_create_table env code scope table payer (ac, tc, db) = Inr (tid, ac1, tc1, db1)"
    and free1: "fm_lookup (key_values db1) (tid, pk) = None"
    and up: "count_up tid (db1\<lparr>key_values := fm_update (tid, pk) ?obj (key_values db1)\<rparr>) = Inr db2"
    and use: "update_db_usage (te_ctl env) payer (kv_size ?obj) (ac1, tc1, db2) = Inr (ac2, tc2, db')"
    and i: "i = fst (remember_row (tid, pk) (keyval_cache ac2))"
    and ac': "ac' = ac2\<lparr>keyval_cache := snd (remember_row (tid, pk) (keyval_cache ac2))\<rparr>"
    using assms(1) [unfolded db_store_i64_code_def ebind_Inr_iff db_create_Inr Let_def] by (auto simp: exc_simps kv_size_def)
  let ?kv = "fm_update (tid, pk) ?obj (key_values db)"
  have kept: "key_values db1 = key_values db" "index_rows db1 = index_rows db" by (rule table_ready [OF ready I(1,4) assms(3)], simp)+
  have free: "fm_lookup (key_values db) (tid, pk) = None" and up': "count_up tid (db1\<lparr>key_values := ?kv, index_rows := index_rows db\<rparr>) = Inr db2"
    using free1 up by (simp_all add: kept [symmetric])
  have okkv: "fm_ok ?kv" using kv(1) by (simp add: fm_laws)
  have R: "rows_in j ?kv + rows_in j (index_rows db) = rows_total db j + (if j = tid then 1 else 0)" for j
    using rows_in_update [OF kv(1)] free by (simp add: rows_total_def)
  obtain us ds rl n T t where ac2: "ac2 = ac\<lparr>used_authorizations := us, account_ram_deltas := ds\<rparr>"
    and db': "db' = db\<lparr>resources := rl, tables_created := n, table_index := T, key_values := ?kv, index_rows := index_rows db\<rparr>"
    and ok: "tables_ok env db'" "fm_ok (usage_table rl)"
    and t: "fm_lookup T tid = Some t" "ti_code t = code" "ti_scope t = scope" "ti_table t = table"
    and others: "\<And>i. i \<noteq> tid \<Longrightarrow> fm_lookup T i = fm_lookup (table_index db) i" "\<And>u. fm_lookup (table_index db) tid = Some u \<Longrightarrow> same_names u t"
    and bal: "\<And>a. rl_ram rl a - tables_ram T a = rl_ram (resources db) a - tables_ram (table_index db) a + (if a = payer then kv_size ?obj else 0)"
    by (rule row_counted [OF ready up' use I(1,4) assms(3,4) okkv kv(2) R]) (rule that)
  have rows: "fm_lookup ?kv r \<noteq> None" if "r = (tid, pk) \<or> fm_lookup (key_values db) r \<noteq> None" for r
    using that kv(1) by (auto simp: fm_laws)
  have "iterators_ok ?kv (keyval_cache ac2)" using iterators_ok_rows [OF I(2), of ?kv] rows by (simp add: ac2)
  note rem = remember_row_ok [OF this, of "(tid, pk)"]
  have "rows_ram ?kv a = rows_ram (key_values db) a + (if a = payer then kv_size ?obj else 0)" for a
    using kv(1) free by (simp add: rows_ram_def fm_sum_update)
  then have "table_balance env db' a = table_balance env db a" for a
    using bal [of a] by (simp add: table_balance_def contract_ram_def db' algebra_simps)
  moreover have "table_inv env (ac', tc', db')" using ok rem(1) rows I(3) by (simp add: table_inv_def ac' ac2 db')
  ultimately show thesis
    by (intro that [where tid = tid and t = t and us = us and ds = ds and rl = rl and n = n and T = T and
        c = "snd (remember_row (tid, pk) (keyval_cache ac2))"])
      (use t others rem(2,3) rows free in \<open>auto simp: db' ac' ac2 i\<close>)
qed

lemma index_store_frame:
  assumes "index_store env scope table payer pk key (ac, tc, db) = Inr (i, ac', tc', db')" and "inj (table_id_at env)"
    and "\<forall>i. rows_total db i + 1 < 2 ^ 32"
  shows "table_frame env (ac, tc, db) (ac', tc', db')"
  unfolding table_frame_def
proof
  assume inv: "table_inv env (ac, tc, db)"
  let ?obj = "\<lparr>ix_payer = payer, ix_secondary = key\<rparr>" and ?size = "billable_index_object (index_key_size env)"
  note I = table_invD [OF inv]
  note ix = tables_okD(1,2) [OF I(1)]
  obtain tid ac1 tc1 db1 db2 ac2 tc2
    where ready: "find_or_create_table env (receiver ac) scope table payer (ac, tc, db) = Inr (tid, ac1, tc1, db1)"
    and free1: "fm_lookup (index_rows db1) (tid, pk) = None"
    and up: "count_up tid (db1\<lparr>index_rows := fm_update (tid, pk) ?obj (index_rows db1)\<rparr>) = Inr db2"
    and use: "update_db_usage (te_ctl env) payer ?size (ac1, tc1, db2) = Inr (ac2, tc2, db')"
    and ac': "ac' = ac2\<lparr>index_cache := snd (remember_row (tid, pk) (index_cache ac2))\<rparr>"
    using assms(1) [unfolded index_store_def ebind_Inr_iff db_create_Inr Let_def] by (auto simp: exc_simps)
  let ?ix = "fm_update (tid, pk) ?obj (index_rows db)"
  have kept: "key_values db1 = key_values db" "index_rows db1 = index_rows db" by (rule table_ready [OF ready I(1,4) assms(2)], simp)+
  have free: "fm_lookup (index_rows db) (tid, pk) = None" and up': "count_up tid (db1\<lparr>key_values := key_values db, index_rows := ?ix\<rparr>) = Inr db2"
    using free1 up by (simp_all add: kept [symmetric])
  have okix: "fm_ok ?ix" using ix(2) by (simp add: fm_laws)
  have R: "rows_in j (key_values db) + rows_in j ?ix = rows_total db j + (if j = tid then 1 else 0)" for j
    using rows_in_update [OF ix(2)] free by (simp add: rows_total_def)
  obtain us ds rl n T t where ac2: "ac2 = ac\<lparr>used_authorizations := us, account_ram_deltas := ds\<rparr>"
    and db': "db' = db\<lparr>resources := rl, tables_created := n, table_index := T, key_values := key_values db, index_rows := ?ix\<rparr>"
    and ok: "tables_ok env db'" "fm_ok (usage_table rl)" and t: "fm_lookup T tid = Some t"
    and bal: "\<And>a. rl_ram rl a - tables_ram T a = rl_ram (resources db) a - tables_ram (table_index db) a + (if a = payer then ?size else 0)"
    by (rule row_counted [OF ready up' use I(1,4) assms(2,3) ix(1) okix R]) (rule that)
  have rows: "fm_lookup ?ix r \<noteq> None" if "r = (tid, pk) \<or> fm_lookup (index_rows db) r \<noteq> None" for r
    using that ix(2) by (auto simp: fm_laws)
  have "iterators_ok ?ix (index_cache ac2)" using iterators_ok_rows [OF I(3), of ?ix] rows by (simp add: ac2)
  note rem = remember_row_ok [OF this, of "(tid, pk)"]
  have "index_ram k ?ix a = index_ram k (index_rows db) a + (if a = payer then billable_index_object k else 0)" for k a
    using ix(2) free by (simp add: index_ram_def fm_sum_update)
  then have "table_balance env db' a = table_balance env db a" for a
    using bal [of a] by (simp add: table_balance_def contract_ram_def db' algebra_simps)
  moreover have "table_inv env (ac', tc', db')" using ok rem(1) rows I(2) by (simp add: table_inv_def ac' ac2 db')
  ultimately show "table_inv env (ac', tc', db') \<and> table_balance env (snd (snd (ac', tc', db'))) = table_balance env (snd (snd (ac, tc, db)))"
    by auto
qed

lemma own_row_Inr:
  assumes "own_row i c rows (ac, tc, db) = Inr (r, obj)"
  obtains t where "cache_get i c = Inr r" and "fm_lookup rows r = Some obj" and "fm_lookup (table_index db) (fst r) = Some t"
    and "ti_code t = receiver ac"
  using assms by (auto simp: own_row_def deref_row_def get_table_def deref_table_def exc_simps split: option.splits)

lemma fm_erase_update: "fm_erase k (fm_update k v m) = fm_erase k m"
  by (induction k v m rule: fm_update.induct) (auto simp: fm_erase_def)

text \<open>A row less of either kind: its table counts down, and goes with its last row.\<close>

lemma row_uncounted:
  assumes "count_down env tid (ac1, tc1, db\<lparr>resources := rl0, key_values := kv, index_rows := ix\<rparr>) = Inr (ac2, tc2, db3)"
    and "tables_ok env db" and "fm_ok (usage_table rl0)" and "fm_ok kv" and "fm_ok ix"
    and "\<And>j. rows_in j kv + rows_in j ix = rows_total db j - (if j = tid then 1 else 0)"
  obtains us ds rl T t where "ac2 = ac1\<lparr>used_authorizations := us, account_ram_deltas := ds\<rparr>"
    and "db3 = db\<lparr>resources := rl, table_index := T, key_values := kv, index_rows := ix\<rparr>" and "tables_ok env db3" and "fm_ok (usage_table rl)"
    and "fm_lookup (table_index db) tid = Some t" and "\<And>j. j \<noteq> tid \<Longrightarrow> fm_lookup T j = fm_lookup (table_index db) j"
    and "\<And>u. fm_lookup T tid = Some u \<Longrightarrow> same_names t u"
    and "\<And>a. rl_ram rl a - tables_ram T a = rl_ram rl0 a - tables_ram (table_index db) a"
proof -
  let ?dbr = "db\<lparr>resources := rl0, key_values := kv, index_rows := ix\<rparr>"
  obtain t where t: "fm_lookup (table_index db) tid = Some t"
    and down: "(if ti_count t - 1 = 0
      then remove_table env tid (ac1, tc1, ?dbr\<lparr>table_index := fm_update tid (t\<lparr>ti_count := ti_count t - 1\<rparr>) (table_index db)\<rparr>)
      else Inr (ac1, tc1, ?dbr\<lparr>table_index := fm_update tid (t\<lparr>ti_count := ti_count t - 1\<rparr>) (table_index db)\<rparr>)) = Inr (ac2, tc2, db3)"
    using assms(1) by (auto simp: count_down_def deref_table_def Let_def exc_simps split: option.splits cong: if_cong)
  let ?t = "t\<lparr>ti_count := ti_count t - 1\<rparr>"
  let ?T = "if ti_count t - 1 = 0 then fm_erase tid (table_index db) else fm_update tid ?t (table_index db)"
  note okT = tables_okD(4) [OF assms(2)]
  have "\<exists>us ds rl. ac2 = ac1\<lparr>used_authorizations := us, account_ram_deltas := ds\<rparr> \<and> db3 = ?dbr\<lparr>resources := rl, table_index := ?T\<rparr> \<and>
      fm_ok (usage_table rl) \<and> (\<forall>a. rl_ram rl a - tables_ram ?T a = rl_ram rl0 a - tables_ram (table_index db) a)"
  proof (cases "ti_count t - 1 = 0")
    case True
    let ?db = "?dbr\<lparr>table_index := fm_update tid ?t (table_index db)\<rparr>"
    obtain ac3 tc3 db4 where use: "update_db_usage (te_ctl env) (ti_payer t) (- billable_table_id_object) (ac1, tc1, ?db) = Inr (ac3, tc3, db4)"
      and eq: "ac2 = ac3" "db3 = db4\<lparr>table_index := fm_erase tid (table_index db4)\<rparr>"
      using down True okT by (auto simp: remove_table_def deref_table_def exc_simps fm_laws)
    obtain us ds rl where us: "ac3 = ac1\<lparr>used_authorizations := us, account_ram_deltas := ds\<rparr>" and db4: "db4 = ?db\<lparr>resources := rl\<rparr>"
      and rl: "add_pending_ram_usage (ti_payer t) (- billable_table_id_object) (resources ?db) = Inr rl" by (rule update_db_usage_effect [OF use])
    have er: "fm_erase tid (fm_update tid ?t (table_index db)) = fm_erase tid (table_index db)" by (rule fm_erase_update)
    note fx = add_pending_ram_effect [OF rl, simplified, OF assms(3)]
    have "rl_ram rl a - tables_ram ?T a = rl_ram rl0 a - tables_ram (table_index db) a" for a
      using fx(3) [of a] okT t True by (simp add: tables_ram_def fm_sum_erase)
    then show ?thesis using us eq db4 fx(1) er True by auto
  next
    case False
    have "tables_ram ?T a = tables_ram (table_index db) a" for a using False okT t by (simp add: tables_ram_def fm_sum_update)
    moreover have "ac2 = ac1\<lparr>used_authorizations := used_authorizations ac1, account_ram_deltas := account_ram_deltas ac1\<rparr>"
      "db3 = ?dbr\<lparr>resources := rl0, table_index := ?T\<rparr>" using down False by auto
    ultimately show ?thesis using assms(3) by metis
  qed
  then obtain us ds rl where ac2: "ac2 = ac1\<lparr>used_authorizations := us, account_ram_deltas := ds\<rparr>" and db3: "db3 = ?dbr\<lparr>resources := rl, table_index := ?T\<rparr>"
    and rl: "fm_ok (usage_table rl)" and bal: "\<And>a. rl_ram rl a - tables_ram ?T a = rl_ram rl0 a - tables_ram (table_index db) a" by blast
  have "rows_total db3 j = rows_in j kv + rows_in j ix" for j by (simp add: rows_total_def db3)
  then have "(rows_total db)(tid := rows_total db tid - 1) = rows_total db3" using assms(6) by (intro ext) simp
  then have "tables_ok env db3" using counts_down [OF tables_okD(3) [OF assms(2)] t] assms(4,5) by (simp add: tables_ok_def db3)
  then show thesis
    by (intro that [where us = us and ds = ds and rl = rl and T = ?T and t = t])
      (use ac2 db3 rl t bal okT in \<open>auto simp: fm_laws same_names_def split: if_splits\<close>)
qed

lemma remove_shape:
  assumes "db_remove_i64 env i (ac, tc, db) = Inr (ac', tc', db')" and "table_inv env (ac, tc, db)"
  obtains r obj t us ds rl T c where
    "db' = db\<lparr>resources := rl, table_index := T, key_values := fm_erase r (key_values db)\<rparr>"
    and "ac' = ac\<lparr>used_authorizations := us, account_ram_deltas := ds, keyval_cache := c\<rparr>"
    and "table_inv env (ac', tc', db')" and "table_balance env db' = table_balance env db"
    and "cache_get i (keyval_cache ac) = Inr r" and "fm_lookup (key_values db) r = Some obj"
    and "fm_lookup (table_index db) (fst r) = Some t" and "ti_code t = receiver ac"
    and "\<And>j. j \<noteq> fst r \<Longrightarrow> fm_lookup T j = fm_lookup (table_index db) j" and "\<And>u. fm_lookup T (fst r) = Some u \<Longrightarrow> same_names t u"
    and "cache_remove i (keyval_cache ac) = Inr c"
proof -
  note I = table_invD [OF assms(2)]
  note kv = tables_okD(1,2) [OF I(1)]
  obtain r obj ac1 tc1 db1 ac2 tc2 c where own: "own_row i (keyval_cache ac) (key_values db) (ac, tc, db) = Inr (r, obj)"
    and use: "update_db_usage (te_ctl env) (kv_payer obj) (- kv_size obj) (ac, tc, db) = Inr (ac1, tc1, db1)"
    and down: "count_down env (fst r) (ac1, tc1, db1\<lparr>key_values := fm_erase r (key_values db1)\<rparr>) = Inr (ac2, tc2, db')"
    and c: "cache_remove i (keyval_cache ac2) = Inr c" and ac': "ac' = ac2\<lparr>keyval_cache := c\<rparr>"
    using assms(1) [unfolded db_remove_i64_def ebind_Inr_iff] by (auto simp: exc_simps kv_size_def)
  obtain t where row: "cache_get i (keyval_cache ac) = Inr r" "fm_lookup (key_values db) r = Some obj"
    and t: "fm_lookup (table_index db) (fst r) = Some t" "ti_code t = receiver ac" by (rule own_row_Inr [OF own])
  obtain us ds rl0 where ac1: "ac1 = ac\<lparr>used_authorizations := us, account_ram_deltas := ds\<rparr>" and db1: "db1 = db\<lparr>resources := rl0\<rparr>"
    and rl0: "add_pending_ram_usage (kv_payer obj) (- kv_size obj) (resources db) = Inr rl0" by (rule update_db_usage_effect [OF use])
  note fx = add_pending_ram_effect [OF rl0 I(4)]
  let ?kv = "fm_erase r (key_values db)"
  have okkv: "fm_ok ?kv" using kv(1) by (simp add: fm_laws)
  have down': "count_down env (fst r) (ac1, tc1, db\<lparr>resources := rl0, key_values := ?kv, index_rows := index_rows db\<rparr>) = Inr (ac2, tc2, db')"
    using down by (simp add: db1)
  have R: "rows_in j ?kv + rows_in j (index_rows db) = rows_total db j - (if j = fst r then 1 else 0)" for j
    using rows_in_erase [OF kv(1)] row(2) by (simp add: rows_total_def)
  obtain us2 ds2 rl T t2 where ac2: "ac2 = ac1\<lparr>used_authorizations := us2, account_ram_deltas := ds2\<rparr>"
    and db': "db' = db\<lparr>resources := rl, table_index := T, key_values := ?kv, index_rows := index_rows db\<rparr>"
    and ok: "tables_ok env db'" "fm_ok (usage_table rl)" and t2: "fm_lookup (table_index db) (fst r) = Some t2"
    and T: "\<And>j. j \<noteq> fst r \<Longrightarrow> fm_lookup T j = fm_lookup (table_index db) j" "\<And>u. fm_lookup T (fst r) = Some u \<Longrightarrow> same_names t2 u"
    and bal: "\<And>a. rl_ram rl a - tables_ram T a = rl_ram rl0 a - tables_ram (table_index db) a"
    by (rule row_uncounted [OF down' I(1) fx(1) okkv kv(2) R]) (rule that)
  have "keyval_cache ac2 = keyval_cache ac" by (simp add: ac2 ac1)
  then have rem: "cache_remove i (keyval_cache ac) = Inr c" using c by simp
  have ram: "rows_ram ?kv a = rows_ram (key_values db) a - (if a = kv_payer obj then kv_size obj else 0)" for a
    using kv(1) row(2) by (simp add: rows_ram_def fm_sum_erase)
  have "rl_ram rl a = rl_ram rl0 a - tables_ram (table_index db) a + tables_ram T a" for a using bal [of a] by (simp add: algebra_simps)
  then have "table_balance env db' a = table_balance env db a" for a
    by (simp add: table_balance_def contract_ram_def db' fx(3) ram)
  moreover have "table_inv env (ac', tc', db')"
    using ok cache_remove_ok(1) [OF I(2) row(1) rem kv(1)] I(3) by (simp add: table_inv_def ac' ac2 ac1 db')
  ultimately show thesis
    by (intro that [where r = r and obj = obj and t = t and us = us2 and ds = ds2 and rl = rl and T = T and c = c])
      (use row t t2 T rem in \<open>auto simp: db' ac' ac2 ac1\<close>)
qed

lemma recharge_effect:
  assumes "recharge ctl q p s0 s1 (ac, tc, db) = Inr (ac', tc', db')" and "fm_ok (usage_table (resources db))"
  obtains us ds rl where "ac' = ac\<lparr>used_authorizations := us, account_ram_deltas := ds\<rparr>" and "db' = db\<lparr>resources := rl\<rparr>"
    and "fm_ok (usage_table rl)" and "\<And>a. rl_ram rl a = rl_ram (resources db) a + (if a = p then s1 else 0) - (if a = q then s0 else 0)"
proof -
  consider "q \<noteq> p" | "q = p" "s0 \<noteq> s1" | "q = p" "s0 = s1" by blast
  then show thesis
  proof cases
    case 1
    then obtain ac1 tc1 db1 where "update_db_usage ctl q (- s0) (ac, tc, db) = Inr (ac1, tc1, db1)"
      and use: "update_db_usage ctl p s1 (ac1, tc1, db1) = Inr (ac', tc', db')"
      using assms(1) by (auto simp: recharge_def ebind_Inr_iff)
    then obtain us ds rl where e1: "ac1 = ac\<lparr>used_authorizations := us, account_ram_deltas := ds\<rparr>" "db1 = db\<lparr>resources := rl\<rparr>"
      "add_pending_ram_usage q (- s0) (resources db) = Inr rl" by (elim update_db_usage_effect)
    obtain us2 ds2 rl2 where e2: "ac' = ac1\<lparr>used_authorizations := us2, account_ram_deltas := ds2\<rparr>" "db' = db1\<lparr>resources := rl2\<rparr>"
      "add_pending_ram_usage p s1 (resources db1) = Inr rl2" by (rule update_db_usage_effect [OF use])
    have e3: "add_pending_ram_usage p s1 rl = Inr rl2" using e2(3) by (simp add: e1)
    note f1 = add_pending_ram_effect [OF e1(3) assms(2)]
    note f2 = add_pending_ram_effect [OF e3 f1(1)]
    show thesis by (rule that [where us = us2 and ds = ds2 and rl = rl2]) (use f1 f2 e1 e2 in \<open>simp_all add: algebra_simps\<close>)
  next
    case 2
    then have "update_db_usage ctl q (s1 - s0) (ac, tc, db) = Inr (ac', tc', db')" using assms(1) by (simp add: recharge_def)
    then obtain us ds rl where e1: "ac' = ac\<lparr>used_authorizations := us, account_ram_deltas := ds\<rparr>" "db' = db\<lparr>resources := rl\<rparr>"
      "add_pending_ram_usage q (s1 - s0) (resources db) = Inr rl" by (elim update_db_usage_effect)
    note f1 = add_pending_ram_effect [OF e1(3) assms(2)]
    show thesis by (rule that [where us = us and ds = ds and rl = rl]) (use f1 e1 2 in \<open>simp_all add: algebra_simps\<close>)
  next
    case 3
    then show thesis using assms that [where us = "used_authorizations ac" and ds = "account_ram_deltas ac" and rl = "resources db"] by (simp add: recharge_def)
  qed
qed

lemma update_shape:
  assumes "db_update_i64 env i payer buffer (ac, tc, db) = Inr (ac', tc', db')" and "table_inv env (ac, tc, db)"
  obtains r obj t us ds rl where
    "db' = db\<lparr>resources := rl, key_values := fm_update r \<lparr>kv_payer = (if payer = 0 then kv_payer obj else payer), kv_value = buffer\<rparr> (key_values db)\<rparr>"
    and "ac' = ac\<lparr>used_authorizations := us, account_ram_deltas := ds\<rparr>"
    and "table_inv env (ac', tc', db')" and "table_balance env db' = table_balance env db"
    and "cache_get i (keyval_cache ac) = Inr r" and "fm_lookup (key_values db) r = Some obj"
    and "fm_lookup (table_index db) (fst r) = Some t" and "ti_code t = receiver ac"
proof -
  note I = table_invD [OF assms(2)]
  note kv = tables_okD(1,2) [OF I(1)]
  obtain r obj db1 where own: "own_row i (keyval_cache ac) (key_values db) (ac, tc, db) = Inr (r, obj)"
    and pay: "recharge (te_ctl env) (kv_payer obj) (if payer = 0 then kv_payer obj else payer) (kv_size obj)
       (of_nat (length buffer) + billable_key_value_object) (ac, tc, db) = Inr (ac', tc', db1)"
    and db': "db' = db1\<lparr>key_values := fm_update r \<lparr>kv_payer = (if payer = 0 then kv_payer obj else payer), kv_value = buffer\<rparr> (key_values db1)\<rparr>"
    using assms(1) [unfolded db_update_i64_def ebind_Inr_iff Let_def] by (auto simp: ebind_Inr_iff kv_size_def)
  define p where "p = (if payer = 0 then kv_payer obj else payer)"
  let ?obj = "\<lparr>kv_payer = p, kv_value = buffer\<rparr>"
  let ?kv = "fm_update r ?obj (key_values db)"
  obtain t where row: "cache_get i (keyval_cache ac) = Inr r" "fm_lookup (key_values db) r = Some obj"
    and t: "fm_lookup (table_index db) (fst r) = Some t" "ti_code t = receiver ac" by (rule own_row_Inr [OF own])
  have pay2: "recharge (te_ctl env) (kv_payer obj) p (kv_size obj) (kv_size ?obj) (ac, tc, db) = Inr (ac', tc', db1)"
    using pay by (simp add: p_def kv_size_def)
  obtain us ds rl where ac': "ac' = ac\<lparr>used_authorizations := us, account_ram_deltas := ds\<rparr>" and db1: "db1 = db\<lparr>resources := rl\<rparr>"
    and rl: "fm_ok (usage_table rl)"
    and ram: "\<And>a. rl_ram rl a = rl_ram (resources db) a + (if a = p then kv_size ?obj else 0) - (if a = kv_payer obj then kv_size obj else 0)"
    by (rule recharge_effect [OF pay2 I(4)]) (rule that)
  have db2: "db' = db\<lparr>resources := rl, key_values := ?kv\<rparr>" by (simp add: db' db1 p_def)
  have kv_ram: "rows_ram ?kv a = rows_ram (key_values db) a + (if a = p then kv_size ?obj else 0) - (if a = kv_payer obj then kv_size obj else 0)" for a
    using kv(1) row(2) by (simp add: rows_ram_def fm_sum_update)
  have "table_balance env db' a = table_balance env db a" for a
    by (simp add: table_balance_def contract_ram_def db2 ram kv_ram)
  moreover have "rows_total db' = rows_total db"
    using rows_in_update [OF kv(1), of _ r ?obj] row(2) by (intro ext) (simp add: rows_total_def db2)
  then have "tables_ok env db'" using I(1) kv by (simp add: tables_ok_def db2 fm_laws)
  then have "table_inv env (ac', tc', db')"
    using iterators_ok_rows [OF I(2), of ?kv] I(3) rl kv(1) by (simp add: table_inv_def ac' db2 fm_laws)
  ultimately show thesis
    by (intro that [where r = r and obj = obj and t = t and us = us and ds = ds and rl = rl]) (use row t ac' in \<open>auto simp: db2 p_def\<close>)
qed

lemma index_remove_frame:
  assumes "index_remove env i (ac, tc, db) = Inr (ac', tc', db')"
  shows "table_frame env (ac, tc, db) (ac', tc', db')"
  unfolding table_frame_def
proof
  assume inv: "table_inv env (ac, tc, db)"
  let ?size = "billable_index_object (index_key_size env)"
  note I = table_invD [OF inv]
  note ix = tables_okD(1,2) [OF I(1)]
  obtain r obj ac1 tc1 db1 ac2 tc2 c where row: "cache_get i (index_cache ac) = Inr r" "fm_lookup (index_rows db) r = Some obj"
    and use: "update_db_usage (te_ctl env) (ix_payer obj) (- ?size) (ac, tc, db) = Inr (ac1, tc1, db1)"
    and down: "count_down env (fst r) (ac1, tc1, db1\<lparr>index_rows := fm_erase r (index_rows db1)\<rparr>) = Inr (ac2, tc2, db')"
    and c: "cache_remove i (index_cache ac2) = Inr c" and ac': "ac' = ac2\<lparr>index_cache := c\<rparr>"
    using assms [unfolded index_remove_def ebind_Inr_iff] by (auto simp: exc_simps deref_row_def split: option.splits)
  obtain us ds rl0 where ac1: "ac1 = ac\<lparr>used_authorizations := us, account_ram_deltas := ds\<rparr>" and db1: "db1 = db\<lparr>resources := rl0\<rparr>"
    and rl0: "add_pending_ram_usage (ix_payer obj) (- ?size) (resources db) = Inr rl0" by (rule update_db_usage_effect [OF use])
  note fx = add_pending_ram_effect [OF rl0 I(4)]
  let ?ix = "fm_erase r (index_rows db)"
  have okix: "fm_ok ?ix" using ix(2) by (simp add: fm_laws)
  have down': "count_down env (fst r) (ac1, tc1, db\<lparr>resources := rl0, key_values := key_values db, index_rows := ?ix\<rparr>) = Inr (ac2, tc2, db')"
    using down by (simp add: db1)
  have R: "rows_in j (key_values db) + rows_in j ?ix = rows_total db j - (if j = fst r then 1 else 0)" for j
    using rows_in_erase [OF ix(2)] row(2) by (simp add: rows_total_def)
  obtain us2 ds2 rl T t2 where ac2: "ac2 = ac1\<lparr>used_authorizations := us2, account_ram_deltas := ds2\<rparr>"
    and db': "db' = db\<lparr>resources := rl, table_index := T, key_values := key_values db, index_rows := ?ix\<rparr>"
    and ok: "tables_ok env db'" "fm_ok (usage_table rl)" and t2: "fm_lookup (table_index db) (fst r) = Some t2"
    and bal: "\<And>a. rl_ram rl a - tables_ram T a = rl_ram rl0 a - tables_ram (table_index db) a"
    by (rule row_uncounted [OF down' I(1) fx(1) ix(1) okix R]) (rule that)
  have rem: "cache_remove i (index_cache ac) = Inr c" using c by (simp add: ac2 ac1)
  have ram: "index_ram k ?ix a = index_ram k (index_rows db) a - (if a = ix_payer obj then billable_index_object k else 0)" for k a
    using ix(2) row(2) by (simp add: index_ram_def fm_sum_erase)
  have "rl_ram rl a = rl_ram rl0 a - tables_ram (table_index db) a + tables_ram T a" for a using bal [of a] by (simp add: algebra_simps)
  then have "table_balance env db' a = table_balance env db a" for a by (simp add: table_balance_def contract_ram_def db' fx(3) ram)
  moreover have "table_inv env (ac', tc', db')"
    using ok cache_remove_ok(1) [OF I(3) row(1) rem ix(2)] I(2) by (simp add: table_inv_def ac' ac2 ac1 db')
  ultimately show "table_inv env (ac', tc', db') \<and> table_balance env (snd (snd (ac', tc', db'))) = table_balance env (snd (snd (ac, tc, db)))"
    by auto
qed

lemma index_update_frame:
  assumes "index_update env i payer key (ac, tc, db) = Inr (ac', tc', db')"
  shows "table_frame env (ac, tc, db) (ac', tc', db')"
  unfolding table_frame_def
proof
  assume inv: "table_inv env (ac, tc, db)"
  let ?size = "billable_index_object (index_key_size env)"
  note I = table_invD [OF inv]
  note ix = tables_okD(1,2) [OF I(1)]
  obtain r obj db1 p where own: "own_row i (index_cache ac) (index_rows db) (ac, tc, db) = Inr (r, obj)"
    and pay: "recharge (te_ctl env) (ix_payer obj) p ?size ?size (ac, tc, db) = Inr (ac', tc', db1)"
    and db': "db' = db1\<lparr>index_rows := fm_update r \<lparr>ix_payer = p, ix_secondary = key\<rparr> (index_rows db1)\<rparr>"
    using assms [unfolded index_update_def ebind_Inr_iff Let_def] by (auto simp: ebind_Inr_iff)
  let ?ix = "fm_update r \<lparr>ix_payer = p, ix_secondary = key\<rparr> (index_rows db)"
  obtain t where row: "cache_get i (index_cache ac) = Inr r" "fm_lookup (index_rows db) r = Some obj"
    and "fm_lookup (table_index db) (fst r) = Some t" by (rule own_row_Inr [OF own])
  obtain us ds rl where ac': "ac' = ac\<lparr>used_authorizations := us, account_ram_deltas := ds\<rparr>" and db1: "db1 = db\<lparr>resources := rl\<rparr>"
    and rl: "fm_ok (usage_table rl)"
    and ram: "\<And>a. rl_ram rl a = rl_ram (resources db) a + (if a = p then ?size else 0) - (if a = ix_payer obj then ?size else 0)"
    by (rule recharge_effect [OF pay I(4)]) (rule that)
  have db2: "db' = db\<lparr>resources := rl, index_rows := ?ix\<rparr>" by (simp add: db' db1)
  have ix_ram: "index_ram k ?ix a = index_ram k (index_rows db) a + (if a = p then billable_index_object k else 0) -
      (if a = ix_payer obj then billable_index_object k else 0)" for k a
    using ix(2) row(2) by (simp add: index_ram_def fm_sum_update)
  have "table_balance env db' a = table_balance env db a" for a by (simp add: table_balance_def contract_ram_def db2 ram ix_ram)
  moreover have "rows_total db' = rows_total db"
    using rows_in_update [OF ix(2), of _ r "\<lparr>ix_payer = p, ix_secondary = key\<rparr>"] row(2) by (intro ext) (simp add: rows_total_def db2)
  then have "tables_ok env db'" using I(1) ix by (simp add: tables_ok_def db2 fm_laws)
  then have "table_inv env (ac', tc', db')"
    using iterators_ok_rows [OF I(3), of ?ix] I(2) rl ix(2) by (simp add: table_inv_def ac' db2 fm_laws)
  ultimately show "table_inv env (ac', tc', db') \<and> table_balance env (snd (snd (ac', tc', db'))) = table_balance env (snd (snd (ac, tc, db)))"
    by auto
qed

subsection \<open>Moving iterators\<close>

lemma entry_at_row: "fm_ok rows \<Longrightarrow> entry_at p rows = Some (r, obj) \<Longrightarrow> fm_lookup rows r = Some obj"
  using find_entry [of p rows "(r, obj)"] fm_lookup_in_set [of rows] by (simp add: entry_at_def)

lemma entry_before_member: "entry_before p xs = Some x \<Longrightarrow> x \<in> set xs"
  using last_in_set [of "takeWhile (\<lambda>x. \<not> p x) xs"] set_takeWhileD [of x "\<lambda>x. \<not> p x" xs]
  by (auto simp: entry_before_def Let_def split: if_splits)

lemma entry_before_row: "fm_ok rows \<Longrightarrow> entry_before p rows = Some (r, obj) \<Longrightarrow> fm_lookup rows r = Some obj"
  using entry_before_member [of p rows "(r, obj)"] fm_lookup_in_set [of rows] by simp

lemma by_secondary_row:
  assumes "fm_ok (index_rows db)"
  shows "entry_at p (by_secondary db) = Some (r, obj) \<Longrightarrow> fm_lookup (index_rows db) r = Some obj"
    and "entry_before p (by_secondary db) = Some (r, obj) \<Longrightarrow> fm_lookup (index_rows db) r = Some obj"
  using find_entry [of p "by_secondary db" "(r, obj)"] entry_before_member [of p "by_secondary db" "(r, obj)"] fm_lookup_in_set [OF assms]
  by (simp_all add: entry_at_def by_secondary_def)

text \<open>A position in the rows: its row, when it has one, is there.\<close>

definition row_position :: "(row_id, 'o) flat_map \<Rightarrow> (row_id \<times> 'o) option \<Rightarrow> bool" where
  "row_position rows pos \<longleftrightarrow> (\<forall>r obj. pos = Some (r, obj) \<longrightarrow> fm_lookup rows r = Some obj)"

lemma row_positions [simp]:
  "row_position rows None" "fm_ok rows \<Longrightarrow> row_position rows (entry_at p rows)" "fm_ok rows \<Longrightarrow> row_position rows (entry_before p rows)"
  "fm_ok (index_rows db) \<Longrightarrow> row_position (index_rows db) (entry_at q (by_secondary db))"
  "fm_ok (index_rows db) \<Longrightarrow> row_position (index_rows db) (entry_before q (by_secondary db))"
  "row_position rows (map_option (\<lambda>obj. (r, obj)) (fm_lookup rows r))"
  by (auto simp: row_position_def entry_at_row entry_before_row by_secondary_row)

lemma itr_or_end_ok:
  assumes "iterators_ok rows c" and "fm_lookup (table_cache c) tid = Some ei" and "row_position rows pos"
  shows "iterators_ok rows (snd (itr_or_end tid ei pos c))"
    and "pos = Some ((tid, pk), obj) \<Longrightarrow> cache_get (fst (itr_or_end tid ei pos c)) (snd (itr_or_end tid ei pos c)) = Inr (tid, pk)"
    and "\<nexists>pk obj. pos = Some ((tid, pk), obj) \<Longrightarrow> fst (itr_or_end tid ei pos c) = ei"
    and "cache_get j c = Inr q \<Longrightarrow> cache_get j (snd (itr_or_end tid ei pos c)) = Inr q"
    and "table_cache (snd (itr_or_end tid ei pos c)) = table_cache c"
proof -
  let ?A = "itr_or_end tid ei pos c"
  have "iterators_ok rows (snd ?A) \<and> (\<forall>pk obj. pos = Some ((tid, pk), obj) \<longrightarrow> cache_get (fst ?A) (snd ?A) = Inr (tid, pk)) \<and>
      ((\<nexists>pk obj. pos = Some ((tid, pk), obj)) \<longrightarrow> fst ?A = ei) \<and> (\<forall>j q. cache_get j c = Inr q \<longrightarrow> cache_get j (snd ?A) = Inr q) \<and>
      table_cache (snd ?A) = table_cache c"
  proof (cases "\<exists>pk obj. pos = Some ((tid, pk), obj)")
    case True
    then obtain pk obj where pos: "pos = Some ((tid, pk), obj)" by blast
    obtain i c' where add: "cache_add (tid, pk) c = (i, c')" by (cases "cache_add (tid, pk) c")
    have "fm_lookup rows (tid, pk) \<noteq> None" "fm_lookup (table_cache c) (fst (tid, pk)) \<noteq> None"
      using assms(2,3) pos by (simp_all add: row_position_def)
    note ad = cache_add_ok [OF assms(1) add this]
    show ?thesis using ad pos by (auto simp: itr_or_end_def add)
  next
    case False
    then have "?A = (ei, c)" by (auto simp: itr_or_end_def split: option.splits)
    then show ?thesis using False assms(1) by auto
  qed
  then show "iterators_ok rows (snd ?A)" "pos = Some ((tid, pk), obj) \<Longrightarrow> cache_get (fst ?A) (snd ?A) = Inr (tid, pk)"
    "\<nexists>pk obj. pos = Some ((tid, pk), obj) \<Longrightarrow> fst ?A = ei" "cache_get j c = Inr q \<Longrightarrow> cache_get j (snd ?A) = Inr q"
    "table_cache (snd ?A) = table_cache c" by blast+
qed

lemma step_back_ok:
  assumes "iterators_ok rows c" and "fm_lookup (table_cache c) tid \<noteq> None" and "row_position rows pos" and "step_back tid pos c = (i, primary, c')"
  shows "iterators_ok rows c'" and "pos = Some ((tid, pk), obj) \<Longrightarrow> cache_get i c' = Inr (tid, pk) \<and> primary = Some pk"
    and "\<nexists>pk obj. pos = Some ((tid, pk), obj) \<Longrightarrow> i = - 1 \<and> primary = None" and "cache_get j c = Inr q \<Longrightarrow> cache_get j c' = Inr q"
proof -
  have "iterators_ok rows c' \<and> (\<forall>pk obj. pos = Some ((tid, pk), obj) \<longrightarrow> cache_get i c' = Inr (tid, pk) \<and> primary = Some pk) \<and>
      ((\<nexists>pk obj. pos = Some ((tid, pk), obj)) \<longrightarrow> i = - 1 \<and> primary = None) \<and> (\<forall>j q. cache_get j c = Inr q \<longrightarrow> cache_get j c' = Inr q)"
  proof (cases "\<exists>pk obj. pos = Some ((tid, pk), obj)")
    case True
    then obtain pk obj where pos: "pos = Some ((tid, pk), obj)" by blast
    have add: "cache_add (tid, pk) c = (i, c')" and pk: "primary = Some pk" using assms(4) by (auto simp: step_back_def pos split: prod.splits)
    have "fm_lookup rows (tid, pk) \<noteq> None" "fm_lookup (table_cache c) (fst (tid, pk)) \<noteq> None"
      using assms(2,3) pos by (simp_all add: row_position_def)
    note ad = cache_add_ok [OF assms(1) add this]
    show ?thesis using ad pos pk by simp
  next
    case False
    then have "(i, primary, c') = (- 1, None, c)" using assms(4) by (auto simp: step_back_def split: option.splits prod.splits if_splits)
    then show ?thesis using False assms(1) by auto
  qed
  then show "iterators_ok rows c'" "pos = Some ((tid, pk), obj) \<Longrightarrow> cache_get i c' = Inr (tid, pk) \<and> primary = Some pk"
    "\<nexists>pk obj. pos = Some ((tid, pk), obj) \<Longrightarrow> i = - 1 \<and> primary = None" "cache_get j c = Inr q \<Longrightarrow> cache_get j c' = Inr q" by blast+
qed

text \<open>An operation that only moves iterators of one of the two kinds.\<close>

lemma moved_frames:
  "(iterators_ok (key_values db) (keyval_cache ac) \<Longrightarrow> tables_ok env db \<Longrightarrow> iterators_ok (key_values db) c) \<Longrightarrow>
     table_frame env (ac, tc, db) (ac\<lparr>keyval_cache := c\<rparr>, tc, db)"
  "(iterators_ok (index_rows db) (index_cache ac) \<Longrightarrow> tables_ok env db \<Longrightarrow> iterators_ok (index_rows db) c) \<Longrightarrow>
     table_frame env (ac, tc, db) (ac\<lparr>index_cache := c\<rparr>, tc, db)"
  by (simp_all add: table_frame_def table_inv_def)

lemma looked_up_ok:
  assumes "iterators_ok rows c" and "row_position rows pos" and "cache_table tid c = (ei, c1)"
  shows "iterators_ok rows (snd (itr_or_end tid ei pos c1))"
    and "cache_get j c = Inr q \<Longrightarrow> cache_get j (snd (itr_or_end tid ei pos c1)) = Inr q"
    and "pos = Some ((tid, pk), obj) \<Longrightarrow> cache_get (fst (itr_or_end tid ei pos c1)) (snd (itr_or_end tid ei pos c1)) = Inr (tid, pk)"
    and "\<nexists>pk obj. pos = Some ((tid, pk), obj) \<Longrightarrow>
      fst (itr_or_end tid ei pos c1) < - 1 \<and> fm_lookup (table_cache (snd (itr_or_end tid ei pos c1))) tid = Some (fst (itr_or_end tid ei pos c1))"
proof -
  note tab = cache_table_ok [OF assms(1,3)]
  note it = itr_or_end_ok [OF tab(1,2) assms(2)]
  show "iterators_ok rows (snd (itr_or_end tid ei pos c1))" by (rule it(1))
  show "cache_get j (snd (itr_or_end tid ei pos c1)) = Inr q" if "cache_get j c = Inr q"
    using it(4) that tab(3) by (simp add: cache_get_Inr)
  show "pos = Some ((tid, pk), obj) \<Longrightarrow> cache_get (fst (itr_or_end tid ei pos c1)) (snd (itr_or_end tid ei pos c1)) = Inr (tid, pk)" by (rule it(2))
  have "ei < - 1" using tab(2) iterators_okD(6) [OF tab(1)] by blast
  then show "\<nexists>pk obj. pos = Some ((tid, pk), obj) \<Longrightarrow>
      fst (itr_or_end tid ei pos c1) < - 1 \<and> fm_lookup (table_cache (snd (itr_or_end tid ei pos c1))) tid = Some (fst (itr_or_end tid ei pos c1))"
    using it(3,5) tab(2) by simp
qed

lemma in_table_found:
  assumes "find_table code scope table db = Some (tid, t)" and "cache_table tid (keyval_cache ac) = (ei, c1)"
  shows "in_table code scope table pos (ac, tc, db) =
    (fst (itr_or_end tid ei (pos tid db) c1), ac\<lparr>keyval_cache := snd (itr_or_end tid ei (pos tid db) c1)\<rparr>, tc, db)"
  using assms by (simp add: in_table_def split: prod.splits)

lemma in_index_found:
  assumes "find_table code scope table db = Some (tid, t)" and "cache_table tid (index_cache ac) = (ei, c1)"
  shows "\<exists>row. in_index code scope table pos (ac, tc, db) =
    (fst (itr_or_end tid ei (pos tid db) c1), row, ac\<lparr>index_cache := snd (itr_or_end tid ei (pos tid db) c1)\<rparr>, tc, db)"
  using assms by (simp add: in_index_def split: prod.splits)

lemma in_table_frame:
  assumes "\<And>tid. fm_ok (key_values db) \<Longrightarrow> row_position (key_values db) (pos tid db)"
  shows "table_frame env (ac, tc, db) (snd (in_table code scope table pos (ac, tc, db)))"
proof (cases "find_table code scope table db")
  case None
  then show ?thesis by (simp add: in_table_def tables.frame_refl)
next
  case (Some it)
  obtain tid t where it: "it = (tid, t)" by (cases it)
  obtain ei c1 where tab: "cache_table tid (keyval_cache ac) = (ei, c1)" by (cases "cache_table tid (keyval_cache ac)")
  show ?thesis unfolding in_table_found [OF Some [unfolded it] tab] snd_conv
    by (rule moved_frames(1)) (rule looked_up_ok(1) [OF _ assms tab], auto dest: tables_okD(1))
qed

lemma in_index_frame:
  assumes "\<And>tid. fm_ok (index_rows db) \<Longrightarrow> row_position (index_rows db) (pos tid db)"
  shows "table_frame env (ac, tc, db) (snd (snd (in_index code scope table pos (ac, tc, db))))"
proof (cases "find_table code scope table db")
  case None
  then show ?thesis by (simp add: in_index_def tables.frame_refl)
next
  case (Some it)
  obtain tid t where it: "it = (tid, t)" by (cases it)
  obtain ei c1 where tab: "cache_table tid (index_cache ac) = (ei, c1)" by (cases "cache_table tid (index_cache ac)")
  obtain row where "in_index code scope table pos (ac, tc, db) =
      (fst (itr_or_end tid ei (pos tid db) c1), row, ac\<lparr>index_cache := snd (itr_or_end tid ei (pos tid db) c1)\<rparr>, tc, db)"
    using in_index_found [OF Some [unfolded it] tab] by blast
  then show ?thesis
    by (simp only: snd_conv) (rule moved_frames(2), rule looked_up_ok(1) [OF _ assms tab], auto dest: tables_okD(2))
qed

text \<open>The iterators after and before a row, in either of the caches.\<close>

lemma next_cached:
  assumes "iterators_ok rows c" and "cache_get iterator c = Inr r" and "row_position rows (Some (r', obj))" and "fst r' = fst r"
    and "cache_add r' c = (i, c')"
  shows "iterators_ok rows c'" and "cache_get i c' = Inr r'" and "cache_get j c = Inr q \<Longrightarrow> cache_get j c' = Inr q"
proof -
  have "fm_lookup rows r' \<noteq> None" "fm_lookup (table_cache c) (fst r') \<noteq> None"
    using assms(3,4) cache_get_row(2) [OF assms(1,2)] by (simp_all add: row_position_def)
  note ad = cache_add_ok [OF assms(1,5) this]
  show "iterators_ok rows c'" "cache_get i c' = Inr r'" "cache_get j c = Inr q \<Longrightarrow> cache_get j c' = Inr q" by (fact ad)+
qed

lemma db_next_i64_cases:
  assumes "db_next_i64 iterator (ac, tc, db) = Inr (i, primary, st')"
  obtains (at_end) "iterator < - 1" and "i = - 1" and "primary = None" and "st' = (ac, tc, db)"
  | (last_row) r where "cache_get iterator (keyval_cache ac) = Inr r"
      and "\<nexists>pk obj. entry_at (\<lambda>(r', o'). r < r') (key_values db) = Some ((fst r, pk), obj)"
      and "fm_lookup (table_cache (keyval_cache ac)) (fst r) = Some i" and "primary = None" and "st' = (ac, tc, db)"
  | (row) r r' obj c where "cache_get iterator (keyval_cache ac) = Inr r" and "entry_at (\<lambda>(r', o'). r < r') (key_values db) = Some (r', obj)"
      and "fst r' = fst r" and "cache_add r' (keyval_cache ac) = (i, c)" and "primary = Some (snd r')" and "st' = (ac\<lparr>keyval_cache := c\<rparr>, tc, db)"
proof (cases "iterator < - 1")
  case True
  then show thesis using assms by (intro at_end) (simp_all add: db_next_i64_def)
next
  case False
  then obtain r where r: "cache_get iterator (keyval_cache ac) = Inr r"
    using assms by (auto simp: db_next_i64_def ebind_Inr_iff)
  show thesis
  proof (cases "\<exists>pk obj. entry_at (\<lambda>(r', o'). r < r') (key_values db) = Some ((fst r, pk), obj)")
    case True
    then obtain pk obj where e: "entry_at (\<lambda>(r', o'). r < r') (key_values db) = Some ((fst r, pk), obj)" by blast
    obtain i' c where c: "cache_add (fst r, pk) (keyval_cache ac) = (i', c)" by (cases "cache_add (fst r, pk) (keyval_cache ac)")
    have "i = i'" "primary = Some pk" "st' = (ac\<lparr>keyval_cache := c\<rparr>, tc, db)"
      using assms False r by (simp_all add: db_next_i64_def ebind_Inr_iff e c)
    then show thesis using c by (intro row [OF r e]) simp_all
  next
    case none: False
    have "fm_lookup (table_cache (keyval_cache ac)) (fst r) = Some i" "primary = None" "st' = (ac, tc, db)"
      using assms False r none
      by (cases "entry_at (\<lambda>(r', o'). r < r') (key_values db)"; force simp: db_next_i64_def ebind_Inr_iff get_end_iterator_by_table_id_def split: option.splits)+
    then show thesis by (rule last_row [OF r none])
  qed
qed

lemma index_next_cases:
  assumes "index_next after iterator (ac, tc, db) = Inr (i, primary, st')"
  obtains (at_end) "iterator < - 1" and "i = - 1" and "primary = None" and "st' = (ac, tc, db)"
  | (last_row) r where "cache_get iterator (index_cache ac) = Inr r"
      and "\<nexists>pk obj. after r db = Some ((fst r, pk), obj)"
      and "fm_lookup (table_cache (index_cache ac)) (fst r) = Some i" and "primary = None" and "st' = (ac, tc, db)"
  | (row) r r' obj c where "cache_get iterator (index_cache ac) = Inr r" and "after r db = Some (r', obj)"
      and "fst r' = fst r" and "cache_add r' (index_cache ac) = (i, c)" and "primary = Some (snd r')" and "st' = (ac\<lparr>index_cache := c\<rparr>, tc, db)"
proof (cases "iterator < - 1")
  case True
  then show thesis using assms by (intro at_end) (simp_all add: index_next_def)
next
  case False
  then obtain r where r: "cache_get iterator (index_cache ac) = Inr r"
    using assms by (auto simp: index_next_def ebind_Inr_iff)
  show thesis
  proof (cases "\<exists>pk obj. after r db = Some ((fst r, pk), obj)")
    case True
    then obtain pk obj where e: "after r db = Some ((fst r, pk), obj)" by blast
    obtain i' c where c: "cache_add (fst r, pk) (index_cache ac) = (i', c)" by (cases "cache_add (fst r, pk) (index_cache ac)")
    have "i = i'" "primary = Some pk" "st' = (ac\<lparr>index_cache := c\<rparr>, tc, db)"
      using assms False r by (simp_all add: index_next_def ebind_Inr_iff e c)
    then show thesis using c by (intro row [OF r e]) simp_all
  next
    case none: False
    have "fm_lookup (table_cache (index_cache ac)) (fst r) = Some i" "primary = None" "st' = (ac, tc, db)"
      using assms False r none
      by (cases "after r db"; force simp: index_next_def ebind_Inr_iff get_end_iterator_by_table_id_def split: option.splits)+
    then show thesis by (rule last_row [OF r none])
  qed
qed

lemma db_next_i64_frame:
  assumes "db_next_i64 iterator (ac, tc, db) = Inr (i, primary, st')"
  shows "table_frame env (ac, tc, db) st'"
  using assms
proof (cases rule: db_next_i64_cases)
  case (row r r' obj c)
  have "row_position (key_values db) (Some (r', obj))" if "tables_ok env db" using tables_okD(1) [OF that] by (simp flip: row(2))
  then show ?thesis unfolding row(6) by (intro moved_frames(1) next_cached(1) [OF _ row(1) _ row(3,4)])
qed (simp_all add: tables.frame_refl)

lemma index_next_frame:
  assumes "index_next after iterator (ac, tc, db) = Inr (i, primary, st')" and "\<And>r. fm_ok (index_rows db) \<Longrightarrow> row_position (index_rows db) (after r db)"
  shows "table_frame env (ac, tc, db) st'"
  using assms(1)
proof (cases rule: index_next_cases)
  case (row r r' obj c)
  have "row_position (index_rows db) (Some (r', obj))" if "tables_ok env db" using assms(2) [OF tables_okD(2) [OF that]] by (simp flip: row(2))
  then show ?thesis unfolding row(6) by (intro moved_frames(2) next_cached(1) [OF _ row(1) _ row(3,4)])
qed (simp_all add: tables.frame_refl)

lemma end_table_Inr:
  "end_table iterator c db = Inr tid \<longleftrightarrow> iterator < - 1 \<and> end_iterator_to_index iterator < length (end_iterator_to_table c) \<and>
     tid = end_iterator_to_table c ! end_iterator_to_index iterator \<and> fm_lookup (table_index db) tid \<noteq> None"
  by (auto simp: end_table_def find_table_by_end_iterator_def deref_table_def ebind_Inr_iff EOS_ASSERT_Inr_iff Let_def split: option.splits)

lemma end_table_cached: "iterators_ok rows c \<Longrightarrow> end_table iterator c db = Inr tid \<Longrightarrow> fm_lookup (table_cache c) tid = Some iterator"
  by (auto simp: end_table_Inr iterators_okD(6))

text \<open>Where a step back starts: at the end of a table or at a row, of a table that is cached.\<close>

lemma db_previous_i64_cases:
  assumes "db_previous_i64 iterator (ac, tc, db) = Inr (i, primary, st')"
  obtains (at_end) tid c where "end_table iterator (keyval_cache ac) db = Inr tid" and "st' = (ac\<lparr>keyval_cache := c\<rparr>, tc, db)"
      and "step_back tid (entry_before (\<lambda>(r, o'). tid < fst r) (key_values db)) (keyval_cache ac) = (i, primary, c)"
  | (row) r c where "cache_get iterator (keyval_cache ac) = Inr r" and "st' = (ac\<lparr>keyval_cache := c\<rparr>, tc, db)"
      and "step_back (fst r) (entry_before (\<lambda>(r', o'). r \<le> r') (key_values db)) (keyval_cache ac) = (i, primary, c)"
proof (cases "iterator < - 1")
  case True
  then obtain tid where tid: "end_table iterator (keyval_cache ac) db = Inr tid"
    using assms by (auto simp: db_previous_i64_def ebind_Inr_iff)
  obtain i' p' c where b: "step_back tid (entry_before (\<lambda>(r, o'). tid < fst r) (key_values db)) (keyval_cache ac) = (i', p', c)"
    by (metis prod_cases3)
  show thesis using assms True tid b by (intro at_end [OF tid, of c]) (simp_all add: db_previous_i64_def)
next
  case False
  then obtain r where r: "cache_get iterator (keyval_cache ac) = Inr r"
    using assms by (auto simp: db_previous_i64_def ebind_Inr_iff)
  obtain i' p' c where b: "step_back (fst r) (entry_before (\<lambda>(r', o'). r \<le> r') (key_values db)) (keyval_cache ac) = (i', p', c)"
    by (metis prod_cases3)
  show thesis using assms False r b by (intro row [OF r, of c]) (simp_all add: db_previous_i64_def ebind_Inr_iff)
qed

lemma db_previous_i64_frame:
  assumes "db_previous_i64 iterator (ac, tc, db) = Inr (i, primary, st')"
  shows "table_frame env (ac, tc, db) st'"
  using assms
proof (cases rule: db_previous_i64_cases)
  case (at_end tid c)
  show ?thesis unfolding at_end(2)
    by (rule moved_frames(1), rule step_back_ok(1) [OF _ _ _ at_end(3)]) (auto dest: end_table_cached [OF _ at_end(1)] tables_okD(1))
next
  case (row r c)
  show ?thesis unfolding row(2)
    by (rule moved_frames(1), rule step_back_ok(1) [OF _ _ _ row(3)]) (auto dest: cache_get_row(2) [OF _ row(1)] tables_okD(1))
qed

lemma index_previous_cases:
  assumes "index_previous order before iterator (ac, tc, db) = Inr (i, primary, st')"
  obtains (at_end) tid c where "end_table iterator (index_cache ac) db = Inr tid" and "st' = (ac\<lparr>index_cache := c\<rparr>, tc, db)"
      and "step_back tid (entry_before (\<lambda>(r, o'). tid < fst r) (order db)) (index_cache ac) = (i, primary, c)"
  | (row) r c where "cache_get iterator (index_cache ac) = Inr r" and "st' = (ac\<lparr>index_cache := c\<rparr>, tc, db)"
      and "step_back (fst r) (before r db) (index_cache ac) = (i, primary, c)"
proof (cases "iterator < - 1")
  case True
  then obtain tid where tid: "end_table iterator (index_cache ac) db = Inr tid"
    using assms by (auto simp: index_previous_def ebind_Inr_iff)
  obtain i' p' c where b: "step_back tid (entry_before (\<lambda>(r, o'). tid < fst r) (order db)) (index_cache ac) = (i', p', c)"
    by (metis prod_cases3)
  show thesis using assms True tid b by (intro at_end [OF tid, of c]) (simp_all add: index_previous_def)
next
  case False
  then obtain r where r: "cache_get iterator (index_cache ac) = Inr r"
    using assms by (auto simp: index_previous_def ebind_Inr_iff)
  obtain i' p' c where b: "step_back (fst r) (before r db) (index_cache ac) = (i', p', c)"
    by (metis prod_cases3)
  show thesis using assms False r b by (intro row [OF r, of c]) (simp_all add: index_previous_def ebind_Inr_iff)
qed

lemma index_previous_frame:
  assumes "index_previous order before iterator (ac, tc, db) = Inr (i, primary, st')" and "\<And>r. fm_ok (index_rows db) \<Longrightarrow> row_position (index_rows db) (before r db)"
    and "\<And>p. fm_ok (index_rows db) \<Longrightarrow> row_position (index_rows db) (entry_before p (order db))"
  shows "table_frame env (ac, tc, db) st'"
  using assms(1)
proof (cases rule: index_previous_cases)
  case (at_end tid c)
  show ?thesis unfolding at_end(2)
    by (rule moved_frames(2), rule step_back_ok(1) [OF _ _ _ at_end(3)]) (auto dest: end_table_cached [OF _ at_end(1)] tables_okD(2) intro: assms(2,3))
next
  case (row r c)
  show ?thesis unfolding row(2)
    by (rule moved_frames(2), rule step_back_ok(1) [OF _ _ _ row(3)]) (auto dest: cache_get_row(2) [OF _ row(1)] tables_okD(2) intro: assms(2,3))
qed

subsection \<open>Sequences of operations\<close>

definition rows_fit :: "('k, 'a) contract_db_scheme \<Rightarrow> bool" where
  "rows_fit db \<longleftrightarrow> (\<forall>i. rows_total db i + 1 < 2 ^ 32)"

text \<open>The calls a contract makes on its tables; reading a row changes nothing.\<close>

inductive table_step :: "table_env \<Rightarrow> ('k::linorder, 'b, 'a) table_state \<Rightarrow> ('k, 'b, 'a) table_state \<Rightarrow> bool" for env where
  store: "db_store_i64 env scope table payer pk buffer st = Inr (i, st') \<Longrightarrow> table_step env st st'"
| update: "db_update_i64 env i payer buffer st = Inr st' \<Longrightarrow> table_step env st st'"
| remove: "db_remove_i64 env i st = Inr st' \<Longrightarrow> table_step env st st'"
| find_row: "db_find_i64 code scope table pk st = (i, st') \<Longrightarrow> table_step env st st'"
| lowerbound: "db_lowerbound_i64 code scope table pk st = (i, st') \<Longrightarrow> table_step env st st'"
| upperbound: "db_upperbound_i64 code scope table pk st = (i, st') \<Longrightarrow> table_step env st st'"
| end_of_table: "db_end_i64 code scope table st = (i, st') \<Longrightarrow> table_step env st st'"
| next_row: "db_next_i64 i st = Inr (j, p, st') \<Longrightarrow> table_step env st st'"
| previous_row: "db_previous_i64 i st = Inr (j, p, st') \<Longrightarrow> table_step env st st'"
| store_entry: "index_store env scope table payer pk key st = Inr (i, st') \<Longrightarrow> table_step env st st'"
| update_entry: "index_update env i payer key st = Inr st' \<Longrightarrow> table_step env st st'"
| remove_entry: "index_remove env i st = Inr st' \<Longrightarrow> table_step env st st'"
| find_sec: "find_secondary code scope table key st = (i, p, st') \<Longrightarrow> table_step env st st'"
| lowerbound_sec: "lowerbound_secondary code scope table key st = (i, row, st') \<Longrightarrow> table_step env st st'"
| upperbound_sec: "upperbound_secondary code scope table key st = (i, row, st') \<Longrightarrow> table_step env st st'"
| end_sec: "end_secondary code scope table st = (i, st') \<Longrightarrow> table_step env st st'"
| find_prim: "find_primary code scope table pk st = (i, k, st') \<Longrightarrow> table_step env st st'"
| lowerbound_prim: "lowerbound_primary code scope table pk st = (i, st') \<Longrightarrow> table_step env st st'"
| upperbound_prim: "upperbound_primary code scope table pk st = (i, st') \<Longrightarrow> table_step env st st'"
| next_sec: "next_secondary i st = Inr (j, p, st') \<Longrightarrow> table_step env st st'"
| previous_sec: "previous_secondary i st = Inr (j, p, st') \<Longrightarrow> table_step env st st'"
| next_prim: "next_primary i st = Inr (j, p, st') \<Longrightarrow> table_step env st st'"
| previous_prim: "previous_primary i st = Inr (j, p, st') \<Longrightarrow> table_step env st st'"

text \<open>The rows of every table stay countable in 32 bits: the code does not check its counters.\<close>

inductive table_run :: "table_env \<Rightarrow> ('k::linorder, 'b, 'a) table_state \<Rightarrow> ('k, 'b, 'a) table_state \<Rightarrow> bool" for env where
  start: "table_run env st st"
| step: "table_run env st st' \<Longrightarrow> rows_fit (snd (snd st')) \<Longrightarrow> table_step env st' st'' \<Longrightarrow> table_run env st st''"

lemma db_store_i64_frame:
  assumes "db_store_i64 env scope table payer pk buffer (ac, tc, db) = Inr (i, ac', tc', db')" and "inj (table_id_at env)" and "rows_fit db"
  shows "table_frame env (ac, tc, db) (ac', tc', db')"
  unfolding table_frame_def
proof
  assume inv: "table_inv env (ac, tc, db)"
  show "table_inv env (ac', tc', db') \<and> table_balance env (snd (snd (ac', tc', db'))) = table_balance env (snd (snd (ac, tc, db)))"
    by (rule store_shape [OF assms(1) [unfolded db_store_i64_def] inv assms(2) assms(3) [unfolded rows_fit_def]]) simp
qed

lemma db_update_i64_frame:
  assumes "db_update_i64 env i payer buffer (ac, tc, db) = Inr (ac', tc', db')"
  shows "table_frame env (ac, tc, db) (ac', tc', db')"
  unfolding table_frame_def
proof
  assume inv: "table_inv env (ac, tc, db)"
  show "table_inv env (ac', tc', db') \<and> table_balance env (snd (snd (ac', tc', db'))) = table_balance env (snd (snd (ac, tc, db)))"
    by (rule update_shape [OF assms inv]) simp
qed

lemma db_remove_i64_frame:
  assumes "db_remove_i64 env i (ac, tc, db) = Inr (ac', tc', db')"
  shows "table_frame env (ac, tc, db) (ac', tc', db')"
  unfolding table_frame_def
proof
  assume inv: "table_inv env (ac, tc, db)"
  show "table_inv env (ac', tc', db') \<and> table_balance env (snd (snd (ac', tc', db'))) = table_balance env (snd (snd (ac, tc, db)))"
    by (rule remove_shape [OF assms inv]) simp
qed

lemmas lookup_defs = db_find_i64_def db_lowerbound_i64_def db_upperbound_i64_def db_end_i64_def

lemmas index_lookup_defs = find_secondary_def lowerbound_secondary_def upperbound_secondary_def end_secondary_def find_primary_def
  lowerbound_primary_def upperbound_primary_def

lemma lookup_frames:
  "table_frame env (ac, tc, db) (snd (db_find_i64 code scope table pk (ac, tc, db)))"
  "table_frame env (ac, tc, db) (snd (db_lowerbound_i64 code scope table pk (ac, tc, db)))"
  "table_frame env (ac, tc, db) (snd (db_upperbound_i64 code scope table pk (ac, tc, db)))"
  "table_frame env (ac, tc, db) (snd (db_end_i64 code scope table (ac, tc, db)))"
  unfolding lookup_defs by (rule in_table_frame, simp)+

lemma index_lookup_frames:
  "table_frame env (ac, tc, db) (snd (snd (find_secondary code scope table key (ac, tc, db))))"
  "table_frame env (ac, tc, db) (snd (snd (lowerbound_secondary code scope table key (ac, tc, db))))"
  "table_frame env (ac, tc, db) (snd (snd (upperbound_secondary code scope table key (ac, tc, db))))"
  "table_frame env (ac, tc, db) (snd (end_secondary code scope table (ac, tc, db)))"
  "table_frame env (ac, tc, db) (snd (snd (find_primary code scope table pk (ac, tc, db))))"
  "table_frame env (ac, tc, db) (snd (lowerbound_primary code scope table pk (ac, tc, db)))"
  "table_frame env (ac, tc, db) (snd (upperbound_primary code scope table pk (ac, tc, db)))"
  unfolding index_lookup_defs split_def Let_def fst_conv snd_conv by (rule in_index_frame, simp)+

lemma index_move_frames:
  "next_secondary i (ac, tc, db) = Inr (j, p, st') \<Longrightarrow> table_frame env (ac, tc, db) st'"
  "previous_secondary i (ac, tc, db) = Inr (j, p, st') \<Longrightarrow> table_frame env (ac, tc, db) st'"
  "next_primary i (ac, tc, db) = Inr (j, p, st') \<Longrightarrow> table_frame env (ac, tc, db) st'"
  "previous_primary i (ac, tc, db) = Inr (j, p, st') \<Longrightarrow> table_frame env (ac, tc, db) st'"
  unfolding next_secondary_def previous_secondary_def next_primary_def previous_primary_def
  by (erule index_next_frame index_previous_frame, simp_all)+

lemma table_step_frame:
  assumes "table_step env st st'" and "inj (table_id_at env)" and "rows_fit (snd (snd st))"
  shows "table_frame env st st'"
proof -
  obtain ac tc db where st: "st = (ac, tc, db)" by (cases st)
  obtain ac' tc' db' where st': "st' = (ac', tc', db')" by (cases st')
  have "table_frame env (ac, tc, db) (ac', tc', db')" using assms(1) [unfolded st st']
  proof cases
    case (store scope table payer pk buffer i)
    then show ?thesis using db_store_i64_frame assms(2,3) by (simp add: st st')
  next
    case (store_entry scope table payer pk key i)
    then show ?thesis using index_store_frame [OF _ assms(2) assms(3) [unfolded rows_fit_def st snd_conv]] by blast
  next
    case (find_row code scope table pk i)
    then show ?thesis using lookup_frames(1) by (metis snd_conv)
  next
    case (lowerbound code scope table pk i)
    then show ?thesis using lookup_frames(2) by (metis snd_conv)
  next
    case (upperbound code scope table pk i)
    then show ?thesis using lookup_frames(3) by (metis snd_conv)
  next
    case (end_of_table code scope table i)
    then show ?thesis using lookup_frames(4) by (metis snd_conv)
  next
    case (find_sec code scope table key i p)
    then show ?thesis using index_lookup_frames(1) by (metis snd_conv)
  next
    case (lowerbound_sec code scope table key i row)
    then show ?thesis using index_lookup_frames(2) by (metis snd_conv)
  next
    case (upperbound_sec code scope table key i row)
    then show ?thesis using index_lookup_frames(3) by (metis snd_conv)
  next
    case (end_sec code scope table i)
    then show ?thesis using index_lookup_frames(4) by (metis snd_conv)
  next
    case (find_prim code scope table pk i k)
    then show ?thesis using index_lookup_frames(5) by (metis snd_conv)
  next
    case (lowerbound_prim code scope table pk i)
    then show ?thesis using index_lookup_frames(6) by (metis snd_conv)
  next
    case (upperbound_prim code scope table pk i)
    then show ?thesis using index_lookup_frames(7) by (metis snd_conv)
  qed (rule db_update_i64_frame db_remove_i64_frame db_next_i64_frame db_previous_i64_frame index_update_frame index_remove_frame
      index_move_frames, assumption)+
  then show ?thesis by (simp add: st st')
qed

lemma table_run_frame:
  assumes "table_run env st st'" and "inj (table_id_at env)"
  shows "table_frame env st st'"
  using assms(1) by induction (auto intro: tables.frame_refl tables.frame_trans table_step_frame [OF _ assms(2)])

text \<open>
  C5: Contracts pay for exactly what they keep. In every sequence of calls on the tables of
  contracts -- storing, changing and removing rows and index entries, looking rows up and moving
  iterators, in any order -- the memory charged to each account changes by exactly the change of the
  size of the tables, rows and index entries the account pays for. Every row keeps having a table,
  every table counts its rows and disappears with the last of them, and the iterators handed out
  keep standing for existing rows. Assumed: the database gives new tables identifiers it never gave
  before, and no table reaches \<open>2 ^ 32\<close> rows.
\<close>

theorem contract_rows_charged:
  assumes "table_run env st st'" and "table_inv env st" and "inj (table_id_at env)"
  shows "table_inv env st' \<and> (\<forall>a. rl_ram (resources (snd (snd st'))) a - rl_ram (resources (snd (snd st))) a =
    contract_ram env (snd (snd st')) a - contract_ram env (snd (snd st)) a)"
proof -
  have frame: "table_inv env st' \<and> table_balance env (snd (snd st')) = table_balance env (snd (snd st))"
    using table_run_frame [OF assms(1,3)] assms(2) by (simp add: table_frame_def)
  then have "rl_ram (resources (snd (snd st'))) a - contract_ram env (snd (snd st')) a =
      rl_ram (resources (snd (snd st))) a - contract_ram env (snd (snd st)) a" for a
    by (auto simp: table_balance_def dest: fun_cong [of _ _ a])
  then have "rl_ram (resources (snd (snd st'))) a - rl_ram (resources (snd (snd st))) a =
      contract_ram env (snd (snd st')) a - contract_ram env (snd (snd st)) a" for a
    by (simp add: algebra_simps diff_eq_eq eq_diff_eq)
  then show ?thesis using frame by blast
qed

subsection \<open>An example\<close>

text \<open>
  The contract of account 9 stores two rows in one of its tables and an entry of a secondary index,
  changes a row, removes the other and takes a step.
\<close>

definition sample_tables :: table_env where
  "sample_tables = \<lparr>te_ctl = sample_ctl, table_id_at = (\<lambda>n. n + 10), index_key_size = 8\<rparr>"

definition sample_context :: contract_context where
  "sample_context = \<lparr>ac_act = sample_act, receiver = 9, used_authorizations = [False], recurse_depth = 0, privileged = False,
     context_free = False, notified = [], inline_actions = [], cfa_inline_actions = [], account_ram_deltas = [],
     keyval_cache = empty_cache, index_cache = empty_cache\<rparr>"

definition sample_contract_db :: "resource_db \<Rightarrow> nat contract_db" where
  "sample_contract_db rl = \<lparr>permissions = [], usages = [], links = [], generated = [], account_index = [], account_sequence_index = [],
     resources = rl, transactions = [], global_action_sequence = 0, tables_created = 0, table_index = [], key_values = [], index_rows = []\<rparr>"

definition sample_start :: "((nat, unit, unit) table_state) result" where
  "sample_start =
     ebind (initialize_account 9 initialize_database) (\<lambda>rl.
     ebind (make_transaction_context (make_signed sample_trx [] []) (sample_digest 1) 1000 False 0) (\<lambda>tc.
     Inr (sample_context, tc, sample_contract_db rl)))"

definition sample_run :: "((nat, unit, unit) table_state list) result" where
  "sample_run =
     ebind sample_start (\<lambda>s0.
     ebind (db_store_i64 sample_tables 1 2 9 7 [1, 2, 3] s0) (\<lambda>(i, s1).
     ebind (db_store_i64 sample_tables 1 2 9 5 [4] s1) (\<lambda>(j, s2).
     ebind (index_store sample_tables 1 2 9 7 30 s2) (\<lambda>(k, s3).
     ebind (db_update_i64 sample_tables i 0 [1, 2, 3, 4, 5] s3) (\<lambda>s4.
     ebind (db_next_i64 j s4) (\<lambda>(l, p, s5).
     ebind (db_remove_i64 sample_tables j s5) (\<lambda>s6. Inr [s0, s1, s2, s3, s4, s5, s6])))))))"

lemma rows_in_length: "rows_in i rows \<le> int (length rows)"
  unfolding rows_in_def by (induction rows) (auto simp: fm_sum_def)

lemma rows_fit_length: "length (key_values db) + length (index_rows db) + 1 < 2 ^ 32 \<Longrightarrow> rows_fit db"
  unfolding rows_fit_def rows_total_def
proof
  fix i
  assume "length (key_values db) + length (index_rows db) + 1 < 2 ^ 32"
  then show "rows_in i (key_values db) + rows_in i (index_rows db) + 1 < 2 ^ 32"
    using rows_in_length [of i "key_values db"] rows_in_length [of i "index_rows db"] by simp
qed

definition few_rows :: "(nat, unit, unit) table_state \<Rightarrow> bool" where
  "few_rows st \<longleftrightarrow> length (key_values (snd (snd st))) + length (index_rows (snd (snd st))) < 10"

lemma few_rows_fit: "few_rows st \<Longrightarrow> rows_fit (snd (snd st))"
  by (rule rows_fit_length) (simp add: few_rows_def)

lemma sample_run_ram:
  "\<exists>sts. sample_run = Inr sts \<and> (\<forall>st \<in> set sts. few_rows st) \<and> fm_ok (usage_table (resources (snd (snd (hd sts))))) \<and>
     rl_ram (resources (snd (snd (hd sts)))) 9 = 0 \<and> rl_ram (resources (snd (snd (last sts)))) 9 = 357"
proof -
  have "case sample_run of Inl e \<Rightarrow> False | Inr sts \<Rightarrow> (\<forall>st \<in> set sts. few_rows st) \<and> fm_ok (usage_table (resources (snd (snd (hd sts))))) \<and>
     rl_ram (resources (snd (snd (hd sts)))) 9 = 0 \<and> rl_ram (resources (snd (snd (last sts)))) 9 = 357" by code_simp
  then show ?thesis by (auto split: sum.splits)
qed

lemma sample_run_steps:
  assumes "sample_run = Inr sts" and "\<forall>st \<in> set sts. few_rows st"
  shows "sample_start = Inr (hd sts)" and "table_run sample_tables (hd sts) (last sts)"
proof -
  obtain s0 s1 s2 s3 s4 s5 s6 i j k l p where start: "sample_start = Inr s0" and sts: "sts = [s0, s1, s2, s3, s4, s5, s6]"
    and ops: "db_store_i64 sample_tables 1 2 9 7 [1, 2, 3] s0 = Inr (i, s1)" "db_store_i64 sample_tables 1 2 9 5 [4] s1 = Inr (j, s2)"
      "index_store sample_tables 1 2 9 7 30 s2 = Inr (k, s3)" "db_update_i64 sample_tables i 0 [1, 2, 3, 4, 5] s3 = Inr s4"
      "db_next_i64 j s4 = Inr (l, p, s5)" "db_remove_i64 sample_tables j s5 = Inr s6"
    using assms(1) unfolding sample_run_def by (auto simp: ebind_Inr_iff split: prod.splits)
  note fit = few_rows_fit [OF assms(2) [unfolded sts, rule_format]]
  show "sample_start = Inr (hd sts)" by (simp add: start sts)
  have "table_run sample_tables s0 s6"
    by (intro table_run.step [OF _ _ table_step.remove [OF ops(6)]] table_run.step [OF _ _ table_step.next_row [OF ops(5)]]
      table_run.step [OF _ _ table_step.update [OF ops(4)]] table_run.step [OF _ _ table_step.store_entry [OF ops(3)]]
      table_run.step [OF _ _ table_step.store [OF ops(2)]] table_run.step [OF _ _ table_step.store [OF ops(1)]] table_run.start fit) simp_all
  then show "table_run sample_tables (hd sts) (last sts)" by (simp add: sts)
qed

lemma sample_start_inv:
  assumes "sample_start = Inr st" and "fm_ok (usage_table (resources (snd (snd st))))"
  shows "table_inv sample_tables st"
proof -
  obtain tc rl where st: "st = (sample_context, tc, sample_contract_db rl)" using assms(1) by (auto simp: sample_start_def ebind_Inr_iff)
  have "tables_ok sample_tables (sample_contract_db rl)"
    by (simp add: tables_ok_def counts_ok_def sample_contract_db_def rows_total_def rows_in_def fm_ok_def fm_lookup_def fm_sum_def)
  then show ?thesis using assms(2) by (simp add: table_inv_def st sample_context_def iterators_ok_empty)
qed

theorem contract_rows_charged_witness:
  "\<exists>st st'. sample_start = Inr st \<and> table_run sample_tables st st' \<and> table_inv sample_tables st' \<and>
     contract_ram sample_tables (snd (snd st')) 9 - contract_ram sample_tables (snd (snd st)) 9 = 357"
proof -
  obtain sts where sts: "sample_run = Inr sts" "\<forall>st \<in> set sts. few_rows st" "fm_ok (usage_table (resources (snd (snd (hd sts)))))"
    and ram: "rl_ram (resources (snd (snd (hd sts)))) 9 = 0" "rl_ram (resources (snd (snd (last sts)))) 9 = 357" using sample_run_ram by blast
  note steps = sample_run_steps [OF sts(1,2)]
  have "inj (table_id_at sample_tables)" by (simp add: sample_tables_def inj_def)
  note charged = contract_rows_charged [OF steps(2) sample_start_inv [OF steps(1) sts(3)] this]
  then show ?thesis using steps ram by (metis diff_zero)
qed

end
