(* ===== verification/Table_Refinement.thy ===== *)
theory Table_Refinement
  imports Table_Accounting
begin

text \<open>
  The tables of contracts as a contract sees them: a map from the names of rows to their payers
  and values, and iterators that stand for rows. Storing, changing, removing and finding rows are
  the operations of the map, and moving an iterator follows the order of the primary keys.
\<close>

subsection \<open>Tables as maps\<close>

text \<open>
  What a contract sees: rows under code, scope, table and primary key, and iterators that stand
  for some of them.
\<close>

type_synonym row_name = "account_name \<times> u64 \<times> u64 \<times> u64"

definition contents :: "('k, 'b, 'a) table_state \<Rightarrow> row_name \<rightharpoonup> key_value_object" where
  "contents st = (\<lambda>(code, scope, table, pk).
     case find_table code scope table (snd (snd st)) of None \<Rightarrow> None | Some (tid, t) \<Rightarrow> fm_lookup (key_values (snd (snd st))) (tid, pk))"

definition row_name :: "(table_id, table_id_object) flat_map \<Rightarrow> row_id \<Rightarrow> row_name option" where
  "row_name T r = map_option (\<lambda>t. (ti_code t, ti_scope t, ti_table t, snd r)) (fm_lookup T (fst r))"

definition stands_for :: "('k, 'b, 'a) table_state \<Rightarrow> int \<rightharpoonup> row_name" where
  "stands_for st i = (case cache_get i (keyval_cache (fst st)) of Inl e \<Rightarrow> None | Inr r \<Rightarrow> row_name (table_index (snd (snd st))) r)"

text \<open>Rows and their names correspond one to one.\<close>

lemma contents_iff:
  assumes "tables_ok env db"
  shows "contents (ac, tc, db) n = Some obj \<longleftrightarrow> (\<exists>r. row_name (table_index db) r = Some n \<and> fm_lookup (key_values db) r = Some obj)"
proof -
  obtain code scope table pk where n: "n = (code, scope, table, pk)" by (cases n)
  note F = find_table_iff [OF tables_okD(3) [OF assms], of code scope table]
  have "contents (ac, tc, db) n = Some obj \<longleftrightarrow>
      (\<exists>tid t. find_table code scope table db = Some (tid, t) \<and> fm_lookup (key_values db) (tid, pk) = Some obj)"
    by (auto simp: contents_def n split: option.splits)
  then show ?thesis by (auto simp: F row_name_def n)
qed

lemma row_name_unique:
  assumes "tables_ok env db" and "row_name (table_index db) r = Some n" and "row_name (table_index db) q = Some n"
  shows "r = q"
  using assms(2,3) counts_okD(8) [OF tables_okD(3) [OF assms(1)], of "fst r" _ "fst q"]
  by (auto simp: row_name_def same_names_def prod_eq_iff)

lemma named_row:
  assumes "tables_ok env db" and "row_name (table_index db) r = Some n"
  shows "contents (ac, tc, db) n = fm_lookup (key_values db) r"
  using contents_iff [OF assms(1), of ac tc n] row_name_unique [OF assms] assms(2)
  by (metis (no_types, lifting) option.exhaust)

lemma row_has_name: "tables_ok env db \<Longrightarrow> fm_lookup (key_values db) r \<noteq> None \<Longrightarrow> row_name (table_index db) r \<noteq> None"
  using row_has_table [of env db r] by (auto simp: row_name_def)

lemma stands_for_row:
  assumes "table_inv env (ac, tc, db)" and "cache_get i (keyval_cache ac) = Inr r"
  obtains n obj where "stands_for (ac, tc, db) i = Some n" and "row_name (table_index db) r = Some n"
    and "fm_lookup (key_values db) r = Some obj" and "contents (ac, tc, db) n = Some obj"
proof -
  note I = table_invD [OF assms(1)]
  obtain obj where obj: "fm_lookup (key_values db) r = Some obj" using cache_get_row(1) [OF I(2) assms(2)] by blast
  obtain n where n: "row_name (table_index db) r = Some n" using row_has_name [OF I(1), of r] obj by auto
  show thesis using named_row [OF I(1) n] obj n assms(2) by (intro that [of n obj]) (simp_all add: stands_for_def)
qed

text \<open>
  Two states whose rows have the same names but for one: their contents differ only there.
\<close>

lemma contents_change:
  assumes "tables_ok env db" and "tables_ok env db'" and "row_name (table_index db) r = Some n \<or> row_name (table_index db') r = Some n"
    and "\<And>q. q \<noteq> r \<Longrightarrow> fm_lookup (key_values db') q = fm_lookup (key_values db) q"
    and "\<And>q. q \<noteq> r \<Longrightarrow> fm_lookup (key_values db) q \<noteq> None \<Longrightarrow> row_name (table_index db') q = row_name (table_index db) q"
    and "row_name (table_index db') r = Some n \<or> fm_lookup (key_values db') r = None"
    and "row_name (table_index db) r = Some n \<or> fm_lookup (key_values db) r = None"
  shows "contents (ac', tc', db') = (contents (ac, tc, db))(n := fm_lookup (key_values db') r)"
proof
  fix m
  have iff: "contents (ac', tc', db') m = Some obj \<longleftrightarrow> ((contents (ac, tc, db))(n := fm_lookup (key_values db') r)) m = Some obj" for obj
  proof (cases "m = n")
    case True
    have other: False if q: "q \<noteq> r" "row_name (table_index db') q = Some n" "fm_lookup (key_values db') q = Some obj" for q
    proof -
      have "row_name (table_index db) q = Some n" using assms(4,5) [OF q(1)] q(2,3) by (metis option.distinct(1))
      then show False using assms(3) row_name_unique [OF assms(1)] row_name_unique [OF assms(2) q(2)] q(1) by blast
    qed
    show ?thesis unfolding True contents_iff [OF assms(2)] fun_upd_same using other assms(6) by (metis option.distinct(1))
  next
    case False
    have "row_name (table_index db') q = Some m \<and> fm_lookup (key_values db') q = Some obj \<longleftrightarrow>
        row_name (table_index db) q = Some m \<and> fm_lookup (key_values db) q = Some obj" for q
    proof (cases "q = r")
      case True
      then show ?thesis using False assms(6,7) by auto
    next
      case other: False
      show ?thesis using assms(4,5) [OF other] by (cases "fm_lookup (key_values db) q") simp_all
    qed
    then show ?thesis using False by (simp add: contents_iff [OF assms(1)] contents_iff [OF assms(2)])
  qed
  then show "contents (ac', tc', db') m = ((contents (ac, tc, db))(n := fm_lookup (key_values db') r)) m"
    by (metis (no_types, lifting) option.exhaust)
qed

text \<open>Iterators keep standing for their rows when the names of the rows are kept.\<close>

lemma stands_for_kept:
  assumes "cache_get i (keyval_cache ac) = Inr r" and "cache_get i (keyval_cache ac') = Inr r"
    and "row_name (table_index db') r = row_name (table_index db) r"
  shows "stands_for (ac', tc', db') i = stands_for (ac, tc, db) i"
  using assms by (simp add: stands_for_def)

lemma row_name_same: "fm_lookup T (fst q) = Some t \<Longrightarrow> fm_lookup T' (fst q) = Some u \<Longrightarrow> same_names t u \<Longrightarrow> row_name T' q = row_name T q"
  by (simp add: row_name_def same_names_def)

text \<open>Storing, changing and removing a row is updating the map at its name.\<close>

lemma store_refines:
  assumes "db_store_i64 env scope table payer pk buffer (ac, tc, db) = Inr (i, ac', tc', db')" and "table_inv env (ac, tc, db)"
    and "inj (table_id_at env)" and "rows_fit db"
  defines "n \<equiv> (receiver ac, scope, table, pk)"
  shows "contents (ac, tc, db) n = None"
    and "contents (ac', tc', db') = (contents (ac, tc, db))(n \<mapsto> \<lparr>kv_payer = payer, kv_value = buffer\<rparr>)"
    and "stands_for (ac', tc', db') i = Some n"
    and "stands_for (ac, tc, db) j \<noteq> None \<Longrightarrow> stands_for (ac', tc', db') j = stands_for (ac, tc, db) j"
proof -
  let ?obj = "\<lparr>kv_payer = payer, kv_value = buffer\<rparr>"
  note I = table_invD [OF assms(2)]
  note kv = tables_okD(1) [OF I(1)]
  obtain tid t us ds rl N T c where db': "db' = db\<lparr>resources := rl, tables_created := N, table_index := T,
       key_values := fm_update (tid, pk) ?obj (key_values db)\<rparr>"
    and ac': "ac' = ac\<lparr>used_authorizations := us, account_ram_deltas := ds, keyval_cache := c\<rparr>"
    and inv: "table_inv env (ac', tc', db')" and free: "fm_lookup (key_values db) (tid, pk) = None" and t: "fm_lookup T tid = Some t"
    and names: "ti_code t = receiver ac" "ti_scope t = scope" "ti_table t = table"
    and others: "\<And>j. j \<noteq> tid \<Longrightarrow> fm_lookup T j = fm_lookup (table_index db) j"
    and same: "\<And>u. fm_lookup (table_index db) tid = Some u \<Longrightarrow> same_names u t"
    and it: "cache_get i c = Inr (tid, pk)" "\<And>j r. cache_get j (keyval_cache ac) = Inr r \<Longrightarrow> cache_get j c = Inr r"
    by (rule store_shape [OF assms(1) [unfolded db_store_i64_def fst_conv] assms(2,3) assms(4) [unfolded rows_fit_def]]) (rule that)
  have n: "row_name (table_index db') (tid, pk) = Some n" using t names by (simp add: row_name_def db' n_def)
  have kept: "row_name (table_index db') q = row_name (table_index db) q" if has: "row_name (table_index db) q \<noteq> None" for q
  proof -
    obtain u where u: "fm_lookup (table_index db) (fst q) = Some u" using has by (auto simp: row_name_def)
    have "\<exists>w. fm_lookup T (fst q) = Some w \<and> same_names u w"
      using u others [of "fst q"] same t by (cases "fst q = tid") (auto simp: same_names_def)
    then show ?thesis using row_name_same [OF u] by (auto simp: db')
  qed
  have look: "fm_lookup (key_values db') q = (if q = (tid, pk) then Some ?obj else fm_lookup (key_values db) q)" for q
    using kv by (simp add: db' fm_laws)
  have "contents (ac', tc', db') = (contents (ac, tc, db))(n := fm_lookup (key_values db') (tid, pk))"
  proof (rule contents_change [OF I(1) table_invD(1) [OF inv]])
    show "row_name (table_index db') q = row_name (table_index db) q" if "fm_lookup (key_values db) q \<noteq> None" for q
      using kept row_has_name [OF I(1) that] by blast
  qed (use n look free in simp_all)
  then show "contents (ac', tc', db') = (contents (ac, tc, db))(n \<mapsto> ?obj)" by (simp add: look)
  show "contents (ac, tc, db) n = None"
  proof (rule ccontr)
    assume "contents (ac, tc, db) n \<noteq> None"
    then obtain q where q: "row_name (table_index db) q = Some n" "fm_lookup (key_values db) q \<noteq> None" 
      unfolding not_None_eq contents_iff [OF I(1)] by blast
    then have "row_name (table_index db') q = Some n" using kept [of q] by simp
    then have "q = (tid, pk)" using row_name_unique [OF table_invD(1) [OF inv] n, of q] by simp
    then show False using q(2) free by simp
  qed
  show "stands_for (ac', tc', db') i = Some n" using it(1) n by (simp add: stands_for_def ac')
  show "stands_for (ac', tc', db') j = stands_for (ac, tc, db) j" if "stands_for (ac, tc, db) j \<noteq> None"
    using that it(2) [of j] kept by (cases "cache_get j (keyval_cache ac)") (simp_all add: stands_for_def ac')
qed

lemma cache_remove_get: "cache_remove i c = Inr c' \<Longrightarrow> cache_get j c' = Inr q \<Longrightarrow> cache_get j c = Inr q"
  by (auto simp: cache_remove_def cache_get_Inr EOS_ASSERT_Inr_iff nth_list_update split: option.splits if_splits)

lemma update_refines:
  assumes "db_update_i64 env i payer buffer (ac, tc, db) = Inr (ac', tc', db')" and "table_inv env (ac, tc, db)"
  obtains n obj where "stands_for (ac, tc, db) i = Some n" and "fst n = receiver ac" and "contents (ac, tc, db) n = Some obj"
    and "contents (ac', tc', db') = (contents (ac, tc, db))(n \<mapsto> \<lparr>kv_payer = if payer = 0 then kv_payer obj else payer, kv_value = buffer\<rparr>)"
    and "stands_for (ac', tc', db') = stands_for (ac, tc, db)"
proof -
  note I = table_invD [OF assms(2)]
  obtain r obj t us ds rl where
    db': "db' = db\<lparr>resources := rl, key_values := fm_update r \<lparr>kv_payer = (if payer = 0 then kv_payer obj else payer), kv_value = buffer\<rparr> (key_values db)\<rparr>"
    and ac': "ac' = ac\<lparr>used_authorizations := us, account_ram_deltas := ds\<rparr>" and inv: "table_inv env (ac', tc', db')"
    and i: "cache_get i (keyval_cache ac) = Inr r" and obj: "fm_lookup (key_values db) r = Some obj"
    and t: "fm_lookup (table_index db) (fst r) = Some t" "ti_code t = receiver ac"
    by (rule update_shape [OF assms]) (rule that)
  obtain n where n: "stands_for (ac, tc, db) i = Some n" "row_name (table_index db) r = Some n" "contents (ac, tc, db) n = Some obj"
    using obj by (auto intro: stands_for_row [OF assms(2) i])
  have look: "fm_lookup (key_values db') q = (if q = r then Some \<lparr>kv_payer = (if payer = 0 then kv_payer obj else payer), kv_value = buffer\<rparr>
      else fm_lookup (key_values db) q)" for q using tables_okD(1) [OF I(1)] by (simp add: db' fm_laws)
  have T: "table_index db' = table_index db" by (simp add: db')
  have "contents (ac', tc', db') = (contents (ac, tc, db))(n := fm_lookup (key_values db') r)"
    by (rule contents_change [OF I(1) table_invD(1) [OF inv]]) (use n look T in simp_all)
  moreover have "stands_for (ac', tc', db') = stands_for (ac, tc, db)" by (rule ext) (simp add: stands_for_def ac' T split: sum.splits)
  moreover have "fst n = receiver ac" using n(2) t by (auto simp: row_name_def)
  ultimately show thesis using n by (intro that [where n = n and obj = obj]) (simp_all add: look)
qed

lemma remove_refines:
  assumes "db_remove_i64 env i (ac, tc, db) = Inr (ac', tc', db')" and "table_inv env (ac, tc, db)"
  obtains n where "stands_for (ac, tc, db) i = Some n" and "fst n = receiver ac" and "contents (ac, tc, db) n \<noteq> None"
    and "contents (ac', tc', db') = (contents (ac, tc, db))(n := None)"
    and "stands_for (ac', tc', db') = (stands_for (ac, tc, db))(i := None)"
proof -
  note I = table_invD [OF assms(2)]
  obtain r obj t us ds rl T c where db': "db' = db\<lparr>resources := rl, table_index := T, key_values := fm_erase r (key_values db)\<rparr>"
    and ac': "ac' = ac\<lparr>used_authorizations := us, account_ram_deltas := ds, keyval_cache := c\<rparr>" and inv: "table_inv env (ac', tc', db')"
    and i: "cache_get i (keyval_cache ac) = Inr r" and obj: "fm_lookup (key_values db) r = Some obj"
    and t: "fm_lookup (table_index db) (fst r) = Some t" "ti_code t = receiver ac"
    and T: "\<And>j. j \<noteq> fst r \<Longrightarrow> fm_lookup T j = fm_lookup (table_index db) j" "\<And>u. fm_lookup T (fst r) = Some u \<Longrightarrow> same_names t u"
    and c: "cache_remove i (keyval_cache ac) = Inr c"
    by (rule remove_shape [OF assms]) (rule that)
  obtain n where n: "stands_for (ac, tc, db) i = Some n" "row_name (table_index db) r = Some n" "contents (ac, tc, db) n = Some obj"
    using obj by (auto intro: stands_for_row [OF assms(2) i])
  note rem = cache_remove_ok [OF I(2) i c tables_okD(1) [OF I(1)]]
  have look: "fm_lookup (key_values db') q = (if q = r then None else fm_lookup (key_values db) q)" for q
    using tables_okD(1) [OF I(1)] by (simp add: db' fm_laws)
  have kept: "row_name (table_index db') q = row_name (table_index db) q" if "q \<noteq> r" "fm_lookup (key_values db) q \<noteq> None" for q
  proof -
    have "fm_lookup (key_values db') q \<noteq> None" using that by (simp add: look)
    then obtain u where u: "fm_lookup T (fst q) = Some u" using row_has_table [OF table_invD(1) [OF inv], of q] by (auto simp: db')
    then show ?thesis using T(1) [of "fst q"] T(2) [of u] t(1) by (cases "fst q = fst r") (auto simp: db' row_name_def same_names_def)
  qed
  have "contents (ac', tc', db') = (contents (ac, tc, db))(n := fm_lookup (key_values db') r)"
    by (rule contents_change [OF I(1) table_invD(1) [OF inv]]) (use n look kept in simp_all)
  moreover have "stands_for (ac', tc', db') j = ((stands_for (ac, tc, db))(i := None)) j" for j
  proof (cases "j \<noteq> i \<and> (\<exists>q. cache_get j (keyval_cache ac) = Inr q)")
    case True
    then obtain q where q: "j \<noteq> i" "cache_get j (keyval_cache ac) = Inr q" by blast
    note row = cache_get_row [OF I(2) q(2)]
    have "q \<noteq> r" using row(3) cache_get_row(3) [OF I(2) i] q(1) by auto
    then show ?thesis using kept [OF _ row(1)] rem(5) [OF q] q by (simp add: stands_for_def ac')
  next
    case False
    then have "\<nexists>q. cache_get j c = Inr q" using rem(4) cache_remove_get [OF c, of j] by fastforce
    then show ?thesis using False by (auto simp: stands_for_def ac' split: sum.splits)
  qed
  moreover have "fst n = receiver ac" using n(2) t by (auto simp: row_name_def)
  ultimately show thesis using n by (intro that [where n = n]) (auto simp add: look)
qed

subsection \<open>Iteration in the order of the primary keys\<close>

definition table_keys :: "('k, 'b, 'a) table_state \<Rightarrow> account_name \<Rightarrow> u64 \<Rightarrow> u64 \<Rightarrow> u64 set" where
  "table_keys st code scope table = {pk. contents st (code, scope, table, pk) \<noteq> None}"

definition is_first :: "u64 set \<Rightarrow> u64 option \<Rightarrow> bool" where
  "is_first K x \<longleftrightarrow> (case x of None \<Rightarrow> K = {} | Some k \<Rightarrow> k \<in> K \<and> (\<forall>k' \<in> K. k \<le> k'))"

definition is_last :: "u64 set \<Rightarrow> u64 option \<Rightarrow> bool" where
  "is_last K x \<longleftrightarrow> (case x of None \<Rightarrow> K = {} | Some k \<Rightarrow> k \<in> K \<and> (\<forall>k' \<in> K. k' \<le> k))"

lemma fm_member: "fm_lookup rows q \<noteq> None \<longleftrightarrow> q \<in> fst ` set rows"
  by (simp add: fm_lookup_def map_of_eq_None_iff)

lemma entry_at_least:
  assumes "fm_ok rows"
  shows "entry_at (\<lambda>(r, o'). P r) rows = Some (r, obj) \<Longrightarrow> P r \<and> (\<forall>q. fm_lookup rows q \<noteq> None \<and> P q \<longrightarrow> r \<le> q)"
    and "entry_at (\<lambda>(r, o'). P r) rows = None \<Longrightarrow> fm_lookup rows q \<noteq> None \<Longrightarrow> \<not> P q"
  using assms unfolding entry_at_def fm_ok_def fm_member
  by (induction rows) (auto split: if_splits)

lemma entry_before_Cons:
  "entry_before p [] = None"
  "entry_before p (x # xs) = (if p x then None else case entry_before p xs of None \<Rightarrow> Some x | Some y \<Rightarrow> Some y)"
  by (simp_all add: entry_before_def Let_def)

text \<open>For a condition that holds from some row on, the entry before is the last one without it.\<close>

lemma entry_before_greatest:
  assumes "fm_ok rows" and "\<forall>q q'. P q \<and> q < q' \<longrightarrow> P q'"
  shows "case entry_before (\<lambda>(r, o'). P r) rows of
      Some (r, obj) \<Rightarrow> \<not> P r \<and> (\<forall>q. fm_lookup rows q \<noteq> None \<and> \<not> P q \<longrightarrow> q \<le> r)
    | None \<Rightarrow> \<forall>q. fm_lookup rows q \<noteq> None \<longrightarrow> P q"
  using assms(1) unfolding fm_ok_def fm_member
proof (induction rows)
  case (Cons e rows)
  obtain a b where e: "e = (a, b)" by (cases e)
  have sorted: "sorted_wrt (<) (map fst rows)" "\<And>q. q \<in> fst ` set rows \<Longrightarrow> a < q" using Cons.prems by (auto simp: e)
  note IH = Cons.IH [OF sorted(1)]
  show ?case
  proof (cases "P a")
    case True
    then show ?thesis using assms(2) sorted(2) by (auto simp: e entry_before_Cons)
  next
    case no: False
    show ?thesis
    proof (cases "entry_before (\<lambda>(r, o'). P r) rows")
      case None
      then show ?thesis using IH no by (auto simp: e entry_before_Cons)
    next
      case (Some y)
      obtain r obj where y: "y = (r, obj)" by (cases y)
      have "a \<le> r" using entry_before_member [OF Some] sorted(2) [of r] y(1) by force
      then show ?thesis using IH no by (auto simp: e entry_before_Cons Some y)
    qed
  qed
qed (simp add: entry_before_Cons)

text \<open>The entries of one table: where the search ends in another table there is none.\<close>

lemma first_in_table:
  assumes "fm_ok rows" and "\<forall>r. P r \<longrightarrow> tid \<le> fst r"
  defines "x \<equiv> (case entry_at (\<lambda>(r, o'). P r) rows of Some ((tid', k), obj) \<Rightarrow> if tid' = tid then Some k else None | None \<Rightarrow> None)"
  shows "is_first {k. fm_lookup rows (tid, k) \<noteq> None \<and> P (tid, k)} x"
proof (cases "entry_at (\<lambda>(r, o'). P r) rows")
  case None
  then show ?thesis using entry_at_least(2) [OF assms(1) None] by (auto simp: x_def is_first_def)
next
  case (Some e)
  obtain tid' k obj where e: "e = ((tid', k), obj)" by (cases e) auto
  note least = entry_at_least(1) [OF assms(1) Some [unfolded e]] and row = entry_at_row [OF assms(1) Some [unfolded e]]
  show ?thesis
  proof (cases "tid' = tid")
    case True
    then have "x = Some k" by (simp add: x_def Some e)
    moreover have "k \<le> k'" if "fm_lookup rows (tid, k') \<noteq> None" "P (tid, k')" for k'
      using least [THEN conjunct2, THEN spec, of "(tid, k')"] that True by simp
    ultimately show ?thesis using least row True by (simp add: is_first_def)
  next
    case False
    then have "tid < tid'" using least assms(2) [rule_format, of "(tid', k)"] by simp
    then have "\<not> ((tid', k) \<le> (tid, k'))" for k' by auto
    moreover have "x = None" using False by (simp add: x_def Some e)
    ultimately show ?thesis using least by (auto simp: is_first_def)
  qed
qed

lemma last_in_table:
  assumes "fm_ok rows" and "\<forall>q q'. P q \<and> q < q' \<longrightarrow> P q'" and "\<forall>r. \<not> P r \<longrightarrow> fst r \<le> tid"
  defines "x \<equiv> (case entry_before (\<lambda>(r, o'). P r) rows of Some ((tid', k), obj) \<Rightarrow> if tid' = tid then Some k else None | None \<Rightarrow> None)"
  shows "is_last {k. fm_lookup rows (tid, k) \<noteq> None \<and> \<not> P (tid, k)} x"
proof (cases "entry_before (\<lambda>(r, o'). P r) rows")
  case None
  have no: "\<forall>q. fm_lookup rows q \<noteq> None \<longrightarrow> P q" using entry_before_greatest [of rows P, OF assms(1) assms(2)] unfolding None option.case .
  have x: "x = None" by (simp add: x_def None)
  show ?thesis using no unfolding x is_last_def option.case by blast
next
  case (Some e)
  obtain tid' k obj where e: "e = ((tid', k), obj)" by (cases e) auto
  have great: "\<not> P (tid', k)" "\<And>q. fm_lookup rows q \<noteq> None \<Longrightarrow> \<not> P q \<Longrightarrow> q \<le> (tid', k)"
    using entry_before_greatest [of rows P, OF assms(1) assms(2)] unfolding Some e option.case prod.case by blast+
  note row = entry_before_row [OF assms(1) Some [unfolded e]]
  show ?thesis
  proof (cases "tid' = tid")
    case True
    then have "x = Some k" by (simp add: x_def Some e)
    moreover have "k' \<le> k" if "fm_lookup rows (tid, k') \<noteq> None" "\<not> P (tid, k')" for k' using great(2) [OF that] True by simp
    ultimately show ?thesis using great(1) row True by (simp add: is_last_def)
  next
    case False
    then have "tid' < tid" using assms(3) [rule_format, OF great(1)] by simp
    then have far: "\<not> ((tid, k') \<le> (tid', k))" for k' by auto
    have x: "x = None" using False by (simp add: x_def Some e)
    show ?thesis using great(2) far unfolding x is_last_def option.case by blast
  qed
qed

text \<open>The keys of a table that is there, and the row an iterator of it stands for.\<close>

lemma table_keys_found:
  assumes "find_table code scope table db = Some (tid, t)"
  shows "table_keys (ac, tc, db) code scope table = {k. fm_lookup (key_values db) (tid, k) \<noteq> None}"
  using assms by (simp add: table_keys_def contents_def)

lemma table_keys_missing: "find_table code scope table db = None \<Longrightarrow> table_keys (ac, tc, db) code scope table = {}"
  by (simp add: table_keys_def contents_def)

lemma stands_for_key:
  assumes "table_inv env (ac, tc, db)" and "stands_for (ac, tc, db) i = Some (code, scope, table, pk)"
  obtains tid t where "cache_get i (keyval_cache ac) = Inr (tid, pk)" and "find_table code scope table db = Some (tid, t)"
    and "fm_lookup (key_values db) (tid, pk) \<noteq> None"
proof -
  note I = table_invD [OF assms(1)]
  obtain r where r: "cache_get i (keyval_cache ac) = Inr r" "row_name (table_index db) r = Some (code, scope, table, pk)"
    using assms(2) by (auto simp: stands_for_def split: sum.splits)
  then obtain t where t: "fm_lookup (table_index db) (fst r) = Some t" "ti_code t = code" "ti_scope t = scope" "ti_table t = table" "snd r = pk"
    by (auto simp: row_name_def)
  then have "find_table code scope table db = Some (fst r, t)" by (simp add: find_table_iff [OF tables_okD(3) [OF I(1)]])
  then show thesis using that r(1) t(5) cache_get_row(1) [OF I(2) r(1)] by (cases r) simp
qed

text \<open>A state in which only iterators have moved.\<close>

definition moved :: "('k, 'b, 'a) table_state \<Rightarrow> ('k, 'b, 'a) table_state \<Rightarrow> bool" where
  "moved st st' \<longleftrightarrow> contents st' = contents st \<and> (\<forall>i. stands_for st i \<noteq> None \<longrightarrow> stands_for st' i = stands_for st i)"

lemma moved_cache:
  assumes "\<And>j q. cache_get j (keyval_cache ac) = Inr q \<Longrightarrow> cache_get j c = Inr q"
  shows "moved (ac, tc, db) (ac\<lparr>keyval_cache := c\<rparr>, tc, db)"
proof -
  have "stands_for (ac\<lparr>keyval_cache := c\<rparr>, tc, db) i = stands_for (ac, tc, db) i" if "stands_for (ac, tc, db) i \<noteq> None" for i
    using that assms [of i] by (cases "cache_get i (keyval_cache ac)") (simp_all add: stands_for_def)
  moreover have "contents (ac\<lparr>keyval_cache := c\<rparr>, tc, db) = contents (ac, tc, db)" by (simp only: contents_def snd_conv)
  ultimately show ?thesis by (simp add: moved_def)
qed

lemma stands_for_get:
  assumes "cache_get i (keyval_cache ac) = Inr (tid, pk)" and "find_table code scope table db = Some (tid, t)" and "tables_ok env db"
  shows "stands_for (ac, tc, db) i = Some (code, scope, table, pk)"
  using assms(1,2) find_table_iff [OF tables_okD(3) [OF assms(3)]] by (simp add: stands_for_def row_name_def)

lemma stands_for_negative: "i < 0 \<Longrightarrow> stands_for (ac, tc, db) i = None"
  by (simp add: stands_for_def cache_get_def EOS_ASSERT_def)

text \<open>
  Where a search for a row of a table ends: a row of the table, or nothing when the search leaves
  the table.
\<close>

definition key_in :: "table_id \<Rightarrow> (row_id \<times> 'o) option \<Rightarrow> u64 option" where
  "key_in tid pos = (case pos of Some ((tid', k), obj) \<Rightarrow> if tid' = tid then Some k else None | None \<Rightarrow> None)"

lemma key_in_iff: "key_in tid pos = Some k \<longleftrightarrow> (\<exists>obj. pos = Some ((tid, k), obj))"
  by (auto simp: key_in_def split: option.splits)

lemma key_in_None: "key_in tid pos = None \<longleftrightarrow> (\<nexists>k obj. pos = Some ((tid, k), obj))"
  by (auto simp: key_in_def split: option.splits if_splits)

lemma in_table_refines:
  assumes "table_inv env (ac, tc, db)" and "in_table code scope table pos (ac, tc, db) = (i, st')"
    and "\<And>tid. row_position (key_values db) (pos tid db)"
  shows "moved (ac, tc, db) st'"
    and "find_table code scope table db = Some (tid, t) \<Longrightarrow> stands_for st' i = map_option (\<lambda>k. (code, scope, table, k)) (key_in tid (pos tid db))"
    and "find_table code scope table db = None \<Longrightarrow> stands_for st' i = None"
proof -
  note I = table_invD [OF assms(1)]
  show "stands_for st' i = None" if "find_table code scope table db = None"
    using assms(2) that by (auto simp: in_table_def stands_for_negative)
  have found: "moved (ac, tc, db) st' \<and> stands_for st' i = map_option (\<lambda>k. (code, scope, table, k)) (key_in tid (pos tid db))"
    if F: "find_table code scope table db = Some (tid, t)" for tid t
  proof -
    obtain ei c1 where tab: "cache_table tid (keyval_cache ac) = (ei, c1)" by (cases "cache_table tid (keyval_cache ac)")
    let ?A = "itr_or_end tid ei (pos tid db) c1"
    note L = looked_up_ok [OF I(2) assms(3) tab]
    have eq: "i = fst ?A" "st' = (ac\<lparr>keyval_cache := snd ?A\<rparr>, tc, db)" using assms(2) by (simp_all add: in_table_found [OF F tab])
    have "moved (ac, tc, db) st'" unfolding eq(2) by (rule moved_cache) (rule L(2))
    moreover have "stands_for st' i = map_option (\<lambda>k. (code, scope, table, k)) (key_in tid (pos tid db))"
    proof (cases "key_in tid (pos tid db)")
      case None
      then have "i < 0" using L(4) [of tid] by (simp add: eq(1) key_in_None)
      then show ?thesis using None by (simp add: eq(2) stands_for_negative)
    next
      case (Some k)
      then have "cache_get i (snd ?A) = Inr (tid, k)" using L(3) by (auto simp: eq(1) key_in_iff)
      then show ?thesis using Some stands_for_get [of i "ac\<lparr>keyval_cache := snd ?A\<rparr>", OF _ F I(1)] by (simp add: eq(2))
    qed
    ultimately show ?thesis ..
  qed
  then show "find_table code scope table db = Some (tid, t) \<Longrightarrow> stands_for st' i = map_option (\<lambda>k. (code, scope, table, k)) (key_in tid (pos tid db))"
    by blast
  show "moved (ac, tc, db) st'"
    using found assms(2) by (cases "find_table code scope table db") (auto simp: in_table_def moved_def)
qed

lemma find_refines:
  assumes "table_inv env (ac, tc, db)" and "db_find_i64 code scope table pk (ac, tc, db) = (i, st')"
  shows "moved (ac, tc, db) st'"
    and "stands_for st' i = (if pk \<in> table_keys (ac, tc, db) code scope table then Some (code, scope, table, pk) else None)"
proof -
  note R = in_table_refines [OF assms(1) assms(2) [unfolded db_find_i64_def], simplified]
  show "moved (ac, tc, db) st'" by (rule R(1))
  show "stands_for st' i = (if pk \<in> table_keys (ac, tc, db) code scope table then Some (code, scope, table, pk) else None)"
  proof (cases "find_table code scope table db")
    case None
    then show ?thesis using R(3) by (simp add: table_keys_missing [OF None])
  next
    case (Some it)
    then obtain tid t where F: "find_table code scope table db = Some (tid, t)" by (cases it) auto
    then show ?thesis using R(2) [OF F] by (auto simp: table_keys_found [OF F] key_in_def)
  qed
qed

text \<open>Searching the first row of a table that satisfies a condition which no row of an earlier table does.\<close>

lemma search_refines:
  assumes "table_inv env (ac, tc, db)" and "\<And>tid r. P tid r \<Longrightarrow> tid \<le> fst r" and "\<And>tid k. P tid (tid, k) \<longleftrightarrow> Q k"
    and "in_table code scope table (\<lambda>tid db. entry_at (\<lambda>(r, o'). P tid r) (key_values db)) (ac, tc, db) = (i, st')"
  shows "moved (ac, tc, db) st'"
    and "\<exists>x. is_first {k \<in> table_keys (ac, tc, db) code scope table. Q k} x \<and> stands_for st' i = map_option (\<lambda>k. (code, scope, table, k)) x"
proof -
  note kv = tables_okD(1) [OF table_invD(1) [OF assms(1)]]
  note R = in_table_refines [OF assms(1,4) row_positions(2) [OF kv]]
  show "moved (ac, tc, db) st'" by (rule R(1))
  show "\<exists>x. is_first {k \<in> table_keys (ac, tc, db) code scope table. Q k} x \<and> stands_for st' i = map_option (\<lambda>k. (code, scope, table, k)) x"
  proof (cases "find_table code scope table db")
    case None
    then show ?thesis using R(3) by (intro exI [of _ None]) (simp add: table_keys_missing [OF None] is_first_def)
  next
    case (Some it)
    then obtain tid t where F: "find_table code scope table db = Some (tid, t)" by (cases it) auto
    show ?thesis using R(2) [OF F] first_in_table [OF kv, of "P tid" tid] assms(2)
      by (intro exI [of _ "key_in tid (entry_at (\<lambda>(r, o'). P tid r) (key_values db))"])
        (simp add: table_keys_found [OF F] key_in_def [symmetric] assms(3))
  qed
qed

lemma lowerbound_refines:
  assumes "table_inv env (ac, tc, db)" and "db_lowerbound_i64 code scope table pk (ac, tc, db) = (i, st')"
  shows "moved (ac, tc, db) st'" and "\<exists>x. is_first {k \<in> table_keys (ac, tc, db) code scope table. pk \<le> k} x \<and>
      stands_for st' i = map_option (\<lambda>k. (code, scope, table, k)) x"
  by (rule search_refines [OF assms(1) _ _ assms(2) [unfolded db_lowerbound_i64_def]]; auto)+

lemma upperbound_refines:
  assumes "table_inv env (ac, tc, db)" and "db_upperbound_i64 code scope table pk (ac, tc, db) = (i, st')"
  shows "moved (ac, tc, db) st'" and "\<exists>x. is_first {k \<in> table_keys (ac, tc, db) code scope table. pk < k} x \<and>
      stands_for st' i = map_option (\<lambda>k. (code, scope, table, k)) x"
  by (rule search_refines [OF assms(1) _ _ assms(2) [unfolded db_upperbound_i64_def]]; auto)+

text \<open>An iterator of a row moves to the next and to the previous row of the table.\<close>

lemma next_refines:
  assumes "table_inv env (ac, tc, db)" and "stands_for (ac, tc, db) i = Some (code, scope, table, pk)"
  shows "\<exists>j x st'. db_next_i64 i (ac, tc, db) = Inr (j, x, st') \<and> moved (ac, tc, db) st' \<and>
    is_first {k \<in> table_keys (ac, tc, db) code scope table. pk < k} x \<and> stands_for st' j = map_option (\<lambda>k. (code, scope, table, k)) x"
proof -
  note I = table_invD [OF assms(1)]
  note kv = tables_okD(1) [OF I(1)]
  obtain tid t where i: "cache_get i (keyval_cache ac) = Inr (tid, pk)" and F: "find_table code scope table db = Some (tid, t)"
    and row: "fm_lookup (key_values db) (tid, pk) \<noteq> None" by (rule stands_for_key [OF assms])
  obtain ei where ei: "fm_lookup (table_cache (keyval_cache ac)) tid = Some ei" using cache_get_row(2) [OF I(2) i] by auto
  let ?e = "entry_at (\<lambda>(r', o'). (tid, pk) < r') (key_values db)"
  have first: "is_first {k \<in> table_keys (ac, tc, db) code scope table. pk < k} (key_in tid ?e)"
    using first_in_table [OF kv, of "\<lambda>r. (tid, pk) < r" tid] by (force simp: table_keys_found [OF F] key_in_def [symmetric])
  have i0: "\<not> i < - 1" using i by (simp add: cache_get_Inr)
  show ?thesis
  proof (cases "key_in tid ?e")
    case None
    have "db_next_i64 i (ac, tc, db) = Inr (ei, None, ac, tc, db)"
      using i i0 row ei None [unfolded key_in_None]
      by (cases ?e) (auto simp: db_next_i64_def deref_row_def get_end_iterator_by_table_id_def exc_simps split: option.splits)
    moreover have "ei < 0" using ei iterators_okD(6) [OF I(2), of tid ei] by simp
    ultimately show ?thesis using first None by (auto simp: moved_def stands_for_negative)
  next
    case (Some k)
    then obtain obj where e: "?e = Some ((tid, k), obj)" by (auto simp: key_in_iff)
    obtain j c where add: "cache_add (tid, k) (keyval_cache ac) = (j, c)" by (cases "cache_add (tid, k) (keyval_cache ac)")
    have "row_position (key_values db) (Some ((tid, k), obj))" using kv by (simp flip: e)
    note nc = next_cached [OF I(2) i this _ add, simplified]
    have "db_next_i64 i (ac, tc, db) = Inr (j, Some k, ac\<lparr>keyval_cache := c\<rparr>, tc, db)"
      using i i0 row by (auto simp: db_next_i64_def deref_row_def e add exc_simps)
    moreover have "stands_for (ac\<lparr>keyval_cache := c\<rparr>, tc, db) j = Some (code, scope, table, k)"
      using nc(2) by (intro stands_for_get [OF _ F I(1)]) simp
    ultimately show ?thesis using first Some moved_cache [of ac c tc db] nc(3) by auto
  qed
qed

lemma moved_trans: "moved st st' \<Longrightarrow> moved st' st'' \<Longrightarrow> moved st st''"
  by (simp add: moved_def)

lemma step_back_refines:
  assumes "table_inv env (ac, tc, db)" and "find_table code scope table db = Some (tid, t)"
    and "fm_lookup (table_cache (keyval_cache ac)) tid \<noteq> None" and "row_position (key_values db) pos"
    and "step_back tid pos (keyval_cache ac) = (j, x, c)"
  shows "x = key_in tid pos" and "moved (ac, tc, db) (ac\<lparr>keyval_cache := c\<rparr>, tc, db)"
    and "stands_for (ac\<lparr>keyval_cache := c\<rparr>, tc, db) j = map_option (\<lambda>k. (code, scope, table, k)) x"
proof -
  note I = table_invD [OF assms(1)]
  note B = step_back_ok [OF I(2) assms(3,4,5)]
  show "moved (ac, tc, db) (ac\<lparr>keyval_cache := c\<rparr>, tc, db)" by (rule moved_cache) (rule B(4))
  have "x = key_in tid pos \<and> stands_for (ac\<lparr>keyval_cache := c\<rparr>, tc, db) j = map_option (\<lambda>k. (code, scope, table, k)) x"
  proof (cases "key_in tid pos")
    case None
    then show ?thesis using B(3) None [unfolded key_in_None] by (simp add: stands_for_negative)
  next
    case (Some k)
    then have k: "cache_get j c = Inr (tid, k)" "x = Some k" using B(2) by (auto simp: key_in_iff)
    then show ?thesis using Some stands_for_get [of j "ac\<lparr>keyval_cache := c\<rparr>", OF _ assms(2) I(1)] by simp
  qed
  then show "x = key_in tid pos" "stands_for (ac\<lparr>keyval_cache := c\<rparr>, tc, db) j = map_option (\<lambda>k. (code, scope, table, k)) x" by blast+
qed

lemma previous_refines:
  assumes "table_inv env (ac, tc, db)" and "stands_for (ac, tc, db) i = Some (code, scope, table, pk)"
  shows "\<exists>j x st'. db_previous_i64 i (ac, tc, db) = Inr (j, x, st') \<and> moved (ac, tc, db) st' \<and>
    is_last {k \<in> table_keys (ac, tc, db) code scope table. k < pk} x \<and> stands_for st' j = map_option (\<lambda>k. (code, scope, table, k)) x"
proof -
  note I = table_invD [OF assms(1)]
  note kv = tables_okD(1) [OF I(1)]
  obtain tid t where i: "cache_get i (keyval_cache ac) = Inr (tid, pk)" and F: "find_table code scope table db = Some (tid, t)"
    and row: "fm_lookup (key_values db) (tid, pk) \<noteq> None" by (rule stands_for_key [OF assms])
  have i0: "\<not> i < - 1" using i by (simp add: cache_get_Inr)
  let ?e = "entry_before (\<lambda>(r', o'). (tid, pk) \<le> r') (key_values db)"
  obtain j x c where b: "step_back tid ?e (keyval_cache ac) = (j, x, c)" by (metis prod_cases3)
  note B = step_back_refines [OF assms(1) F cache_get_row(2) [OF I(2) i, unfolded fst_conv] row_positions(3) [OF kv] b]
  have "is_last {k \<in> table_keys (ac, tc, db) code scope table. k < pk} (key_in tid ?e)"
    using last_in_table [OF kv, of "\<lambda>r. (tid, pk) \<le> r" tid] by (force simp: table_keys_found [OF F] key_in_def [symmetric] not_le)
  moreover have "db_previous_i64 i (ac, tc, db) = Inr (j, x, ac\<lparr>keyval_cache := c\<rparr>, tc, db)"
    using i i0 row b by (auto simp: db_previous_i64_def deref_row_def exc_simps)
  ultimately show ?thesis using B by blast
qed

text \<open>Stepping back from the end iterator of a table gives its last row.\<close>

lemma end_previous_refines:
  assumes "table_inv env (ac, tc, db)" and "db_end_i64 code scope table (ac, tc, db) = (i, st')" and "table_keys (ac, tc, db) code scope table \<noteq> {}"
  shows "\<exists>j x st''. db_previous_i64 i st' = Inr (j, x, st'') \<and> moved (ac, tc, db) st'' \<and>
    is_last (table_keys (ac, tc, db) code scope table) x \<and> stands_for st'' j = map_option (\<lambda>k. (code, scope, table, k)) x"
proof -
  note I = table_invD [OF assms(1)]
  note kv = tables_okD(1) [OF I(1)]
  obtain tid t where F: "find_table code scope table db = Some (tid, t)"
    using assms(3) table_keys_missing [of code scope table db ac tc] by (cases "find_table code scope table db") auto
  obtain ei c1 where tab: "cache_table tid (keyval_cache ac) = (ei, c1)" by (cases "cache_table tid (keyval_cache ac)")
  note C = cache_table_ok [OF I(2) tab]
  have eq: "i = ei" "st' = (ac\<lparr>keyval_cache := c1\<rparr>, tc, db)"
    using assms(2) by (simp_all add: db_end_i64_def in_table_found [OF F tab] itr_or_end_def)
  have inv: "table_inv env (ac\<lparr>keyval_cache := c1\<rparr>, tc, db)" using assms(1) C(1) by (simp add: table_inv_def)
  let ?e = "entry_before (\<lambda>(r', o'). tid < fst r') (key_values db)"
  obtain j x c where b: "step_back tid ?e c1 = (j, x, c)" by (metis prod_cases3)
  have cached: "fm_lookup (table_cache (keyval_cache (ac\<lparr>keyval_cache := c1\<rparr>))) tid \<noteq> None" using C(2) by simp
  note B = step_back_refines [OF inv F cached row_positions(3) [OF kv], of _ j x c, simplified, OF b]
  have last: "is_last (table_keys (ac, tc, db) code scope table) (key_in tid ?e)"
    using last_in_table [OF kv, of "\<lambda>r. tid < fst r" tid] by (force simp: table_keys_found [OF F] key_in_def [symmetric])
  have "end_table i c1 db = Inr tid"
    using C(2) iterators_okD(6) [OF C(1)] F find_table_iff [OF tables_okD(3) [OF I(1)]] by (auto simp: end_table_Inr eq(1))
  moreover have "ei < - 1" using C(2) iterators_okD(6) [OF C(1)] by blast
  ultimately have "db_previous_i64 i st' = Inr (j, x, ac\<lparr>keyval_cache := c\<rparr>, tc, db)" using b by (simp add: db_previous_i64_def eq exc_simps)
  moreover have "moved (ac, tc, db) (ac\<lparr>keyval_cache := c\<rparr>, tc, db)"
    by (rule moved_trans [OF moved_cache B(2)]) (use C(3) in \<open>simp add: cache_get_Inr\<close>)
  ultimately show ?thesis using B last by blast
qed

lemma get_refines:
  assumes "table_inv env (ac, tc, db)" and "stands_for (ac, tc, db) i = Some n"
  obtains obj where "contents (ac, tc, db) n = Some obj"
    and "db_get_i64 i buffer_size (ac, tc, db) = Inr (if buffer_size = 0 then (int (length (kv_value obj)), [])
      else (int (min buffer_size (length (kv_value obj))), take buffer_size (kv_value obj)))"
proof -
  obtain r where i: "cache_get i (keyval_cache ac) = Inr r" and n: "row_name (table_index db) r = Some n"
    using assms(2) by (auto simp: stands_for_def split: sum.splits)
  obtain obj where "fm_lookup (key_values db) r = Some obj" "contents (ac, tc, db) n = Some obj"
    using n by (auto intro: stands_for_row [OF assms(1) i])
  then show thesis using i by (intro that [of obj]) (auto simp: db_get_i64_def deref_row_def exc_simps min_def)
qed

subsection \<open>The end iterator of a table that is gone\<close>

text \<open>
  The caches keep tables by pointer. After the last row of a table is removed, its end iterator is
  still in the cache, and stepping back from it follows the pointer to the removed table.
\<close>

lemma dangling_end_iterator:
  assumes "iterators_ok (key_values db) (keyval_cache ac)" and "fm_lookup (table_cache (keyval_cache ac)) tid = Some ei"
    and "fm_lookup (table_index db) tid = None"
  shows "db_previous_i64 ei (ac, tc, db) = Inl undefined_behavior"
  using assms(2,3) iterators_okD(6) [OF assms(1), of tid ei]
  by (simp add: db_previous_i64_def end_table_def find_table_by_end_iterator_def deref_table_def Let_def exc_simps)

subsection \<open>Properties\<close>

text \<open>
  C6: The tables of contracts are a map. Seen as a map from code, scope, table and primary key to
  payer and value, storing a row adds an entry that was not there, under the account the action
  runs for, and hands out an iterator for it; changing a row replaces the entry of the iterator, and
  removing a row deletes that entry and invalidates that iterator only, and both are possible only
  in the tables of the account itself. Finding a row gives an iterator for it exactly when the map
  has the entry, and reading through an iterator gives the value of its entry.
\<close>

theorem tables_refine_map:
  assumes "table_inv env (ac, tc, db)" and "inj (table_id_at env)" and "rows_fit db"
  shows "(\<forall>scope table payer pk buffer i st'. db_store_i64 env scope table payer pk buffer (ac, tc, db) = Inr (i, st') \<longrightarrow>
      contents (ac, tc, db) (receiver ac, scope, table, pk) = None \<and>
      contents st' = (contents (ac, tc, db))((receiver ac, scope, table, pk) \<mapsto> \<lparr>kv_payer = payer, kv_value = buffer\<rparr>) \<and>
      stands_for st' i = Some (receiver ac, scope, table, pk) \<and>
      (\<forall>j. stands_for (ac, tc, db) j \<noteq> None \<longrightarrow> stands_for st' j = stands_for (ac, tc, db) j)) \<and>
    (\<forall>i payer buffer st'. db_update_i64 env i payer buffer (ac, tc, db) = Inr st' \<longrightarrow>
      (\<exists>n obj. stands_for (ac, tc, db) i = Some n \<and> fst n = receiver ac \<and> contents (ac, tc, db) n = Some obj \<and>
        contents st' = (contents (ac, tc, db))(n \<mapsto> \<lparr>kv_payer = if payer = 0 then kv_payer obj else payer, kv_value = buffer\<rparr>) \<and>
        stands_for st' = stands_for (ac, tc, db))) \<and>
    (\<forall>i st'. db_remove_i64 env i (ac, tc, db) = Inr st' \<longrightarrow>
      (\<exists>n. stands_for (ac, tc, db) i = Some n \<and> fst n = receiver ac \<and> contents (ac, tc, db) n \<noteq> None \<and>
        contents st' = (contents (ac, tc, db))(n := None) \<and> stands_for st' = (stands_for (ac, tc, db))(i := None))) \<and>
    (\<forall>code scope table pk i st'. db_find_i64 code scope table pk (ac, tc, db) = (i, st') \<longrightarrow> moved (ac, tc, db) st' \<and>
      stands_for st' i = (if contents (ac, tc, db) (code, scope, table, pk) \<noteq> None then Some (code, scope, table, pk) else None)) \<and>
    (\<forall>i n buffer_size. stands_for (ac, tc, db) i = Some n \<longrightarrow> (\<exists>obj. contents (ac, tc, db) n = Some obj \<and>
      db_get_i64 i buffer_size (ac, tc, db) = Inr (if buffer_size = 0 then (int (length (kv_value obj)), [])
        else (int (min buffer_size (length (kv_value obj))), take buffer_size (kv_value obj)))))"
proof (intro conjI allI impI)
  fix scope table payer pk buffer i st'
  assume run: "db_store_i64 env scope table payer pk buffer (ac, tc, db) = Inr (i, st')"
  obtain ac' tc' db' where st': "st' = (ac', tc', db')" by (cases st')
  note S = store_refines [OF run [unfolded st'] assms]
  show "contents (ac, tc, db) (receiver ac, scope, table, pk) = None"
    "contents st' = (contents (ac, tc, db))((receiver ac, scope, table, pk) \<mapsto> \<lparr>kv_payer = payer, kv_value = buffer\<rparr>)"
    "stands_for st' i = Some (receiver ac, scope, table, pk)" by (simp_all only: st' S)
  show "stands_for (ac, tc, db) j \<noteq> None \<Longrightarrow> stands_for st' j = stands_for (ac, tc, db) j" for j unfolding st' by (rule S(4))
next
  fix i payer buffer st'
  assume run: "db_update_i64 env i payer buffer (ac, tc, db) = Inr st'"
  obtain ac' tc' db' where st': "st' = (ac', tc', db')" by (cases st')
  show "\<exists>n obj. stands_for (ac, tc, db) i = Some n \<and> fst n = receiver ac \<and> contents (ac, tc, db) n = Some obj \<and>
      contents st' = (contents (ac, tc, db))(n \<mapsto> \<lparr>kv_payer = if payer = 0 then kv_payer obj else payer, kv_value = buffer\<rparr>) \<and>
      stands_for st' = stands_for (ac, tc, db)"
    by (rule update_refines [OF run [unfolded st'] assms(1)]) (auto simp: st')
next
  fix i st'
  assume run: "db_remove_i64 env i (ac, tc, db) = Inr st'"
  obtain ac' tc' db' where st': "st' = (ac', tc', db')" by (cases st')
  show "\<exists>n. stands_for (ac, tc, db) i = Some n \<and> fst n = receiver ac \<and> contents (ac, tc, db) n \<noteq> None \<and>
      contents st' = (contents (ac, tc, db))(n := None) \<and> stands_for st' = (stands_for (ac, tc, db))(i := None)"
    by (rule remove_refines [OF run [unfolded st'] assms(1)]) (auto simp: st')
next
  fix code scope table pk i st'
  assume run: "db_find_i64 code scope table pk (ac, tc, db) = (i, st')"
  note F = find_refines [OF assms(1) run]
  show "moved (ac, tc, db) st'" by (rule F(1))
  show "stands_for st' i = (if contents (ac, tc, db) (code, scope, table, pk) \<noteq> None then Some (code, scope, table, pk) else None)"
    using F(2) by (simp add: table_keys_def)
next
  fix i n buffer_size
  assume "stands_for (ac, tc, db) i = Some n"
  then show "\<exists>obj. contents (ac, tc, db) n = Some obj \<and> db_get_i64 i buffer_size (ac, tc, db) = Inr (if buffer_size = 0 then (int (length (kv_value obj)), [])
      else (int (min buffer_size (length (kv_value obj))), take buffer_size (kv_value obj)))"
    by (rule get_refines [OF assms(1)]) blast
qed

text \<open>
  C16: Iterators follow the order of the primary keys. The lower and the upper bound of a key are the
  first row of the table at or after it and after it; from the iterator of a row, the next and the
  previous one are those of the rows with the least greater and the greatest smaller key, and a step
  back from the end of a table that has rows gives its last row. When there is no such row the
  iterator stands for none. No such move fails, and none changes a table or an iterator in use.
\<close>

theorem iteration_follows_keys:
  assumes "table_inv env (ac, tc, db)"
  shows "(\<forall>pk i st'. db_lowerbound_i64 code scope table pk (ac, tc, db) = (i, st') \<longrightarrow> moved (ac, tc, db) st' \<and>
      (\<exists>x. is_first {k \<in> table_keys (ac, tc, db) code scope table. pk \<le> k} x \<and> stands_for st' i = map_option (\<lambda>k. (code, scope, table, k)) x)) \<and>
    (\<forall>pk i st'. db_upperbound_i64 code scope table pk (ac, tc, db) = (i, st') \<longrightarrow> moved (ac, tc, db) st' \<and>
      (\<exists>x. is_first {k \<in> table_keys (ac, tc, db) code scope table. pk < k} x \<and> stands_for st' i = map_option (\<lambda>k. (code, scope, table, k)) x)) \<and>
    (\<forall>pk i. stands_for (ac, tc, db) i = Some (code, scope, table, pk) \<longrightarrow>
      (\<exists>j x st'. db_next_i64 i (ac, tc, db) = Inr (j, x, st') \<and> moved (ac, tc, db) st' \<and> is_first {k \<in> table_keys (ac, tc, db) code scope table. pk < k} x \<and>
        stands_for st' j = map_option (\<lambda>k. (code, scope, table, k)) x) \<and>
      (\<exists>j x st'. db_previous_i64 i (ac, tc, db) = Inr (j, x, st') \<and> moved (ac, tc, db) st' \<and> is_last {k \<in> table_keys (ac, tc, db) code scope table. k < pk} x \<and>
        stands_for st' j = map_option (\<lambda>k. (code, scope, table, k)) x)) \<and>
    (\<forall>i st'. db_end_i64 code scope table (ac, tc, db) = (i, st') \<and> table_keys (ac, tc, db) code scope table \<noteq> {} \<longrightarrow>
      (\<exists>j x st''. db_previous_i64 i st' = Inr (j, x, st'') \<and> moved (ac, tc, db) st'' \<and> is_last (table_keys (ac, tc, db) code scope table) x \<and>
        stands_for st'' j = map_option (\<lambda>k. (code, scope, table, k)) x))"
  by (intro conjI allI impI; (elim conjE)?;
      rule lowerbound_refines [OF assms] upperbound_refines [OF assms] next_refines [OF assms] previous_refines [OF assms]
        end_previous_refines [OF assms]; assumption)

text \<open>Two rows of the contract of account 9, the second with the smaller key.\<close>

definition sample_two :: "((nat, unit, unit) table_state \<times> int \<times> (nat, unit, unit) table_state) result" where
  "sample_two =
     ebind sample_start (\<lambda>s0.
     ebind (db_store_i64 sample_tables 1 2 9 7 [1, 2, 3] s0) (\<lambda>(i, s1).
     ebind (db_store_i64 sample_tables 1 2 9 5 [4] s1) (\<lambda>(j, s2). Inr (s1, j, s2))))"

lemma sample_two_run:
  "\<exists>s1 j s2. sample_two = Inr (s1, j, s2) \<and> few_rows s1 \<and> receiver (fst s1) = 9 \<and> contents s1 (9, 1, 2, 5) = None \<and>
     stands_for s2 j = Some (9, 1, 2, 5) \<and> (\<exists>l s3. db_next_i64 j s2 = Inr (l, Some 7, s3) \<and> stands_for s3 l = Some (9, 1, 2, 7))"
proof -
  have *: "case sample_two of Inl e \<Rightarrow> False | Inr (s1, j, s2) \<Rightarrow> few_rows s1 \<and> receiver (fst s1) = 9 \<and> contents s1 (9, 1, 2, 5) = None \<and>
     stands_for s2 j = Some (9, 1, 2, 5) \<and>
     (case db_next_i64 j s2 of Inl e \<Rightarrow> False | Inr (l, x, s3) \<Rightarrow> x = Some 7 \<and> stands_for s3 l = Some (9, 1, 2, 7))" by code_simp
  then obtain s1 j s2 where two: "sample_two = Inr (s1, j, s2)" by (auto split: sum.splits prod.splits)
  note R = * [unfolded two sum.case prod.case]
  then obtain l x s3 where "db_next_i64 j s2 = Inr (l, x, s3)" by (auto split: sum.splits prod.splits)
  then show ?thesis using R two by (intro exI [of _ s1] exI [of _ j] exI [of _ s2]) simp
qed

lemma sample_two_inv:
  assumes "sample_two = Inr (s1, j, s2)" and "few_rows s1"
  shows "table_inv sample_tables s1" and "table_inv sample_tables s2" and "db_store_i64 sample_tables 1 2 9 5 [4] s1 = Inr (j, s2)"
proof -
  obtain s0 i where s0: "sample_start = Inr s0" and s1: "db_store_i64 sample_tables 1 2 9 7 [1, 2, 3] s0 = Inr (i, s1)"
    and s2: "db_store_i64 sample_tables 1 2 9 5 [4] s1 = Inr (j, s2)"
    using assms(1) by (auto simp: sample_two_def ebind_Inr_iff)
  have "case sample_start of Inl e \<Rightarrow> False | Inr st \<Rightarrow> fm_ok (usage_table (resources (snd (snd st)))) \<and> few_rows st" by code_simp
  then have start: "table_inv sample_tables s0" "rows_fit (snd (snd s0))" using sample_start_inv [OF s0] few_rows_fit by (auto simp: s0)
  have inj: "inj (table_id_at sample_tables)" by (simp add: sample_tables_def inj_def)
  show inv: "table_inv sample_tables s1"
    using table_step_frame [OF table_step.store [OF s1] inj start(2)] start(1) by (simp add: table_frame_def)
  show "table_inv sample_tables s2"
    using table_step_frame [OF table_step.store [OF s2] inj few_rows_fit [OF assms(2)]] inv by (simp add: table_frame_def)
  show "db_store_i64 sample_tables 1 2 9 5 [4] s1 = Inr (j, s2)" by (rule s2)
qed

theorem tables_refine_map_witness:
  "\<exists>(s1 :: (nat, unit, unit) table_state) j s2. table_inv sample_tables s1 \<and> db_store_i64 sample_tables 1 2 9 5 [4] s1 = Inr (j, s2) \<and>
     contents s2 = (contents s1)((9, 1, 2, 5) \<mapsto> \<lparr>kv_payer = 9, kv_value = [4]\<rparr>) \<and> stands_for s2 j = Some (9, 1, 2, 5)"
proof -
  obtain s1 j s2 where run: "sample_two = Inr (s1, j, s2)" "few_rows s1" "receiver (fst s1) = 9" using sample_two_run by blast
  obtain ac tc db where s1: "s1 = (ac, tc, db)" by (cases s1)
  note inv = sample_two_inv [OF run(1,2)]
  have "inj (table_id_at sample_tables)" by (simp add: sample_tables_def inj_def)
  note T = tables_refine_map [OF inv(1) [unfolded s1] this few_rows_fit [OF run(2), unfolded s1 snd_conv]]
  have "receiver ac = 9" using run(3) by (simp add: s1)
  note S = T [THEN conjunct1, rule_format, OF inv(3) [unfolded s1], unfolded this]
  show ?thesis by (intro exI [of _ s1] exI [of _ j] exI [of _ s2] conjI) (use S inv in \<open>simp_all only: s1\<close>)
qed

theorem iteration_follows_keys_witness:
  "\<exists>j (st :: (nat, unit, unit) table_state) l st'. table_inv sample_tables st \<and> stands_for st j = Some (9, 1, 2, 5) \<and> db_next_i64 j st = Inr (l, Some 7, st') \<and>
     is_first {k \<in> table_keys st 9 1 2. 5 < k} (Some 7)"
proof -
  obtain s1 j s2 l s3 where run: "sample_two = Inr (s1, j, s2)" "few_rows s1" and j: "stands_for s2 j = Some (9, 1, 2, 5)"
    and n: "db_next_i64 j s2 = Inr (l, Some 7, s3)" using sample_two_run by blast
  obtain ac tc db where s2: "s2 = (ac, tc, db)" by (cases s2)
  note inv = sample_two_inv(2) [OF run]
  note T = iteration_follows_keys [OF inv [unfolded s2], of 9 1 2, THEN conjunct2, THEN conjunct2, THEN conjunct1]
  have "is_first {k \<in> table_keys s2 9 1 2. 5 < k} (Some 7)"
    using T [rule_format, OF j [unfolded s2], THEN conjunct1] n by (auto simp: s2)
  then show ?thesis using inv j n by blast
qed

end
