(* ===== verification/Spec2Isabelle.thy ===== *)
theory Spec2Isabelle
  imports Fork_Database Assets Chain_Invariant Table_Refinement
begin

text \<open>
  A verification development of the chain library of DimensionChain, the blockchain node under
  \<open>src/libraries/chain\<close>. The library decides which blocks belong to the chain, which transactions
  are allowed to run and what they are billed. This development models its state and its
  operations and proves what the rest of the node relies on.

  \<^bold>\<open>How the parts interact.\<close> A block header extends the state of its parent
  (\<open>block_header_state\<close>); the states of all known blocks live in the fork database, which chooses the
  head of the chain. A block commits to its transactions and actions by Merkle roots. A transaction
  is unpacked, its signing keys are recovered, the authorization manager decides whether these keys,
  with the permissions and the delay they come with, allow the actions of the transaction, and a
  transaction context bounds and bills its network, CPU and memory usage with the resource limits
  manager. An action runs in an action context, through which native actions and contracts change
  the database: accounts, permissions, deferred transactions and the tables of contracts, each
  charged to the memory of an account. Names and assets are the encodings of the values that all of
  these exchange.

  \<^bold>\<open>Conventions.\<close> Machine integers are words of their width, so that sums wrap as they do in the
  code; a signed 64-bit integer is a word read by \<^const>\<open>sint\<close>; times and delays are integers that
  count microseconds. An operation that may throw returns \<^typ>\<open>'a result\<close>: \<^const>\<open>Inl\<close> names
  the exception. Behaviour that the language leaves undefined is the value \<^const>\<open>undefined_behavior\<close>,
  a loop that would not end is \<^const>\<open>nontermination\<close>, and a missing or doubled row of a database table
  is \<^const>\<open>table_key_not_found\<close> or \<^const>\<open>table_uniqueness_violation\<close>. Ordered containers and database
  indices are sorted association lists. The state of a component is a record; records of states
  that are stored in the same database extend each other, so that \<^typ>\<open>chain_db\<close> carries the tables of the
  authorization manager and an operation of that component applies to it unchanged. Code that is not
  part of the repository is a parameter: hashing, signing, key recovery and serialisation
  (\<^typ>\<open>crypto\<close>, \<^typ>\<open>trx_codec\<close>), number formatting of the \<open>fc\<close> library (\<^typ>\<open>fc_text\<close>), the identifiers a
  database table hands out and the clock (\<^typ>\<open>auth_env\<close>, \<^typ>\<open>controller_env\<close>), the order of entries
  with equal keys (\<^typ>\<open>index_ties\<close>). What a theorem needs of a parameter is a named hypothesis, and a
  witness shows an instance for which it holds.

  \<^bold>\<open>Theories.\<close>

  \<^item> \<open>Prelude\<close>: words, exceptions, \<^const>\<open>EOS_ASSERT\<close>, sequencing and loops of fallible steps
    (\<^const>\<open>ebind\<close>, \<^const>\<open>efold\<close>) with their invariant rules. The locale \<open>state_frame\<close> is the contract
    of a reflexive and transitive relation between the states before and after an operation; its
    interpretations are what the operations of a component keep.
  \<^item> \<open>Flat_Map\<close>: ordered containers. The locale \<open>ordered_store\<close> states the laws of lookup, update and
    removal that the components rely on; the association lists of the model are an interpretation.
  \<^item> \<open>Names\<close> (\<open>name.hpp\<close>, \<open>name.cpp\<close>): the encoding of names is a bijection on 64-bit values, and
    \<open>name::set\<close> accepts exactly the canonical spellings.
  \<^item> \<open>Merkle\<close> (\<open>merkle.cpp\<close>, \<open>incremental_merkle.hpp\<close>): the incremental tree has the root of the batch
    computation, and roots bind their leaves up to the marking of sides.
  \<^item> \<open>Block_Header\<close> (\<open>block_timestamp.hpp\<close>, \<open>producer_schedule.hpp\<close>, \<open>block_header.cpp\<close>): the number of
    a block can be read from its identifier, slots and time points convert back and forth.
  \<^item> \<open>Block_Header_State\<close> (\<open>block_header_state.cpp\<close>): the transition from a header state to the
    next one. Accepted headers are signed by the scheduled producer, irreversible numbers are those a
    quorum implies and never decrease along a chain, confirmation counts are exact.
  \<^item> \<open>Fork_Database\<close> (\<open>fork_database.cpp\<close>, \<open>block_state.cpp\<close>): adding blocks keeps the container linked
    and its head the best block; branches of two blocks are found; an invalid block takes its
    descendants with it; a confirmation counts once per producer.
  \<^item> \<open>Resource_Limits\<close> (\<open>resource_limits.cpp\<close>): the moving average refines its specification on
    numbers without overflow; the totals of the state are the sums of the rows; closing a block
    never fails in a reachable state; billing keeps accounts within their share.
  \<^item> \<open>Assets\<close> (\<open>symbol.hpp\<close>, \<open>asset.hpp\<close>, \<open>asset.cpp\<close>): texts of symbols and assets read back; sums and
    differences are exact or fail.
  \<^item> \<open>Authority\<close> (\<open>authority.hpp\<close>, \<open>authority_checker.hpp\<close>): validation is exact; the recursive checker
    is sound for the inductive relation \<^const>\<open>granted\<close>.
  \<^item> \<open>Authorization\<close> (\<open>authorization_manager.cpp\<close>): the tables of permissions stay forests with one
    usage each; walking up to a parent ends; a transaction that passes is granted every
    authorization it declares, at the least permission linked to the action.
  \<^item> \<open>Access_Lists\<close> (\<open>controller.cpp\<close>): the walk over actors and list decides inclusion or disjointness.
  \<^item> \<open>Transaction\<close> (\<open>transaction.cpp\<close>): the cache of recovered keys is transparent; packed
    transactions read back.
  \<^item> \<open>Chain_Config\<close> (\<open>chain_config.cpp\<close>): what validation of a configuration guarantees.
  \<^item> \<open>Transaction_Context\<close> (\<open>transaction_context.cpp\<close>): the limits a transaction starts with are the least
    of all that apply, and a finished transaction has been billed within them.
  \<^item> \<open>Apply_Context\<close> (\<open>apply_context.cpp\<close>): authorizations, recipients, memory, inline actions and
    deferred transactions. An inline action needs the authority of the contract that sends it, and
    cancelling a newly scheduled transaction restores the database.
  \<^item> \<open>Native_Actions\<close> (\<open>eosio_contract.cpp\<close>, and \<open>initialize_database\<close>, \<open>create_native_account\<close> and
    \<open>update_producers_authority\<close> of \<open>controller.cpp\<close>): the eight native actions and the accounts of
    genesis. \<open>Native_Accounting\<close>: what each handler changes of the tables and of the memory charged.
  \<^item> \<open>Chain_Invariant\<close>: the step relation of the actions, the deferred transactions and the resource
    limits from genesis on; in every reachable state the tables are in step and the memory charged
    to an account is the memory of its rows.
  \<^item> \<open>Contract_Tables\<close> (the database functions of \<open>apply_context.cpp\<close>, \<open>iterator_cache\<close> and
    \<open>generic_index\<close> of \<open>apply_context.hpp\<close>, \<open>contract_table_objects.hpp\<close>): tables, rows, entries of a
    secondary index, and iterators. \<open>Table_Accounting\<close>: caches, counts and memory through every sequence
    of calls. \<open>Table_Refinement\<close>: the tables are a map, and iterators follow its keys.

  \<^bold>\<open>Bounds and fuel.\<close> Loops are structural recursions over the containers they walk. Where a walk
  follows links (\<^const>\<open>parent_walk\<close>) the fuel is one more than the number of rows; running out of it is
  \<^const>\<open>nontermination\<close>, and the theorems show that this does not happen in a well-formed table. The
  other loops have termination proofs: the fork database shrinks, the recursion of the authority
  checker is bounded by its depth. A table of a contract counts its rows in 32 bits without a check;
  the theorems on tables suppose that the count is not exhausted (\<^const>\<open>rows_fit\<close>).

  \<^bold>\<open>Not modelled.\<close> The virtual machine that runs contract code (\<open>wasm_interface.cpp\<close>, \<open>wasm_eosio_injection.cpp\<close>,
  \<open>wasm_eosio_validation.cpp\<close>, the JIT under \<open>libraries/wasm-jit\<close>) and with it the loop of
  \<open>apply_context::exec\<close> that calls it, the serialisation of contract interfaces (\<open>abi_serializer.cpp\<close>); the part of
  \<open>controller.cpp\<close> that opens, applies and commits blocks, which is built on the undo sessions of a
  database library outside the repository; the files of the block log, of snapshots and of the
  reversible blocks, which are input and output; the plugins and programs of the node (network,
  HTTP, wallet, producer loop), which are concurrent input and output around the chain; and the
  contracts under \<open>contracts\<close>, which run inside the virtual machine. Of the five secondary indices one is
  modelled, over an arbitrary ordered type of keys.
\<close>

end
